(* ===== verification/Kernel_Prelude.thy ===== *)
theory Kernel_Prelude
  imports Main "HOL-Library.Word"
begin

text \<open>
  Shared vocabulary of the development: C integer arithmetic at its width, the error
  numbers the system calls return, the faults a kernel memory access can raise, and the
  generic lemmas on lists and results that the components use.

  C \<^verbatim>\<open>int\<close> and \<^verbatim>\<open>long\<close> are 32 bits wide (i386). A value is a HOL \<^typ>\<open>int\<close>; wherever the
  source's arithmetic can leave the range, \<open>s32\<close> or \<open>u32\<close> writes the wrap-around out.
\<close>

named_theorems kernel_simps
  \<open>unfolding equations of the kernel memory and result operations\<close>

subsection \<open>Machine integers\<close>

definition s32 :: "int \<Rightarrow> int" where
  "s32 x = (x + 2147483648) mod 4294967296 - 2147483648"

definition u32 :: "int \<Rightarrow> int" where
  "u32 x = x mod 4294967296"

lemma s32_id: "- 2147483648 \<le> x \<Longrightarrow> x < 2147483648 \<Longrightarrow> s32 x = x"
  by (simp add: s32_def)

lemma s32_range: "- 2147483648 \<le> s32 x" "s32 x < 2147483648"
  by (simp_all add: s32_def)

lemma u32_id: "0 \<le> x \<Longrightarrow> x < 4294967296 \<Longrightarrow> u32 x = x"
  by (simp add: u32_def)

lemma u32_range [simp]: "0 \<le> u32 x" "u32 x < 4294967296"
  by (simp_all add: u32_def)

subsection \<open>Error numbers (include/asm-i386/errno.h)\<close>

abbreviation (input) EPERM :: int where "EPERM \<equiv> 1"
abbreviation (input) ESRCH :: int where "ESRCH \<equiv> 3"
abbreviation (input) EAGAIN :: int where "EAGAIN \<equiv> 11"
abbreviation (input) ENOMEM :: int where "ENOMEM \<equiv> 12"
abbreviation (input) EFAULT :: int where "EFAULT \<equiv> 14"
abbreviation (input) EBUSY :: int where "EBUSY \<equiv> 16"
abbreviation (input) EINVAL :: int where "EINVAL \<equiv> 22"

subsection \<open>Kernel faults and sequencing\<close>

text \<open>
  Code that dereferences a pointer can leave defined behaviour: a null or uninitialised
  pointer, an object that has been freed, an index outside an array, or an explicit
  \<^verbatim>\<open>BUG()\<close>. \<open>Fuel\<close> marks an execution that has used up the step bound of a model with fuel. Such an execution is the value \<open>Inl\<close> of the fault; a normal one is \<open>Inr\<close>.
\<close>

datatype kfault = NullDeref | WildDeref | FreedDeref | OutOfRange | BadFree | BUG | Fuel

type_synonym 'a kres = "kfault + 'a"

definition kbind :: "'a kres \<Rightarrow> ('a \<Rightarrow> 'b kres) \<Rightarrow> 'b kres" where
  "kbind m f = (case m of Inl e \<Rightarrow> Inl e | Inr x \<Rightarrow> f x)"

lemma kbind_Inr [simp]: "kbind (Inr x) f = f x"
  by (simp add: kbind_def)

lemma kbind_Inl [simp]: "kbind (Inl e) f = Inl e"
  by (simp add: kbind_def)

lemmas kbind_simps = kbind_Inr kbind_Inl

lemma kbind_eq_InrE [elim!]:
  assumes "kbind m f = Inr y"
  obtains x where "m = Inr x" and "f x = Inr y"
  using assms by (cases m) auto

lemma kbind_assoc: "kbind (kbind m f) g = kbind m (\<lambda>x. kbind (f x) g)"
  by (cases m) auto

definition no_fault :: "'a kres \<Rightarrow> bool" where
  "no_fault r \<longleftrightarrow> (case r of Inl _ \<Rightarrow> False | Inr _ \<Rightarrow> True)"

lemma no_fault_Inr [simp]: "no_fault (Inr x)"
  by (simp add: no_fault_def)

lemma no_fault_Inl [simp]: "\<not> no_fault (Inl e)"
  by (simp add: no_fault_def)

lemma no_fault_iff: "no_fault r \<longleftrightarrow> (\<exists>x. r = Inr x)"
  by (cases r) auto

end
