(* ===== verification/Links.thy ===== *)
theory Links
  imports Main
begin

text \<open>
  Lists that are threaded through the objects they hold, as the kernel builds them: a link to the next
  object and one back. \<open>lseg b h xs e l\<close> says that from the pointer \<open>h\<close>, with \<open>b\<close> the object
  before it, the links run through \<open>xs\<close> to the pointer \<open>e\<close>, with \<open>l\<close> the object before that.
\<close>

fun lseg :: "('a \<Rightarrow> 'a option) \<Rightarrow> ('a \<Rightarrow> 'a option) \<Rightarrow> 'a option \<Rightarrow> 'a option \<Rightarrow> 'a list \<Rightarrow> 'a option \<Rightarrow> 'a option \<Rightarrow> bool" where
  "lseg nxt prv b h [] e l \<longleftrightarrow> h = e \<and> b = l"
| "lseg nxt prv b h (x # xs) e l \<longleftrightarrow> h = Some x \<and> prv x = b \<and> lseg nxt prv (Some x) (nxt x) xs e l"

lemma lseg_append:
  "lseg nxt prv b h (xs @ ys) e l \<longleftrightarrow> (\<exists>m k. lseg nxt prv b h xs m k \<and> lseg nxt prv k m ys e l)"
  by (induction xs arbitrary: b h) auto

lemma lseg_cong:
  "(\<And>x. x \<in> set xs \<Longrightarrow> nxt' x = nxt x \<and> prv' x = prv x) \<Longrightarrow> lseg nxt' prv' b h xs e l = lseg nxt prv b h xs e l"
  by (induction xs arbitrary: b h) auto

lemma lseg_fun:
  assumes "lseg nxt prv b h xs e l" "lseg nxt prv b h xs e' l'"
  shows "e' = e \<and> l' = l"
  using assms by (induction xs arbitrary: b h) auto

lemma lseg_last: "lseg nxt prv b h xs e l \<Longrightarrow> l = (if xs = [] then b else Some (last xs))"
  by (induction xs arbitrary: b h) auto

lemma lseg_head: "lseg nxt prv b h xs e l \<Longrightarrow> h = (if xs = [] then e else Some (hd xs))"
  by (cases xs) auto

text \<open>Moving the end of a segment, and its front.\<close>

lemma lseg_end:
  assumes "lseg nxt prv b h (xs @ [y]) e l" and "distinct (xs @ [y])"
  shows "lseg (nxt(y := e')) prv b h (xs @ [y]) e' l"
  using assms by (induction xs arbitrary: b h) auto

lemma lseg_front:
  assumes "lseg nxt prv b h (y # ys) e l" and "distinct (y # ys)"
  shows "lseg nxt (prv(y := b')) b' h (y # ys) e l"
proof -
  have "lseg nxt prv (Some y) (nxt y) ys e l" using assms(1) by simp
  moreover have "lseg nxt (prv(y := b')) (Some y) (nxt y) ys e l = lseg nxt prv (Some y) (nxt y) ys e l"
    using assms(2) by (intro lseg_cong) auto
  ultimately show ?thesis using assms(1) by simp
qed

subsection \<open>Lists with a head pointer\<close>

definition dll :: "('a \<Rightarrow> 'a option) \<Rightarrow> ('a \<Rightarrow> 'a option) \<Rightarrow> 'a option \<Rightarrow> 'a list \<Rightarrow> bool" where
  "dll nxt prv h xs \<longleftrightarrow> (\<exists>l. lseg nxt prv None h xs None l) \<and> distinct xs"

definition set_prv :: "'a option \<Rightarrow> 'a option \<Rightarrow> ('a \<Rightarrow> 'a option) \<Rightarrow> 'a \<Rightarrow> 'a option" where
  "set_prv y b prv = (case y of None \<Rightarrow> prv | Some y \<Rightarrow> prv(y := b))"

lemma dll_empty [simp]: "dll nxt prv h [] \<longleftrightarrow> h = None"
  by (simp add: dll_def)

lemma dll_distinct: "dll nxt prv h xs \<Longrightarrow> distinct xs"
  by (simp add: dll_def)

lemma dll_cong:
  assumes "\<And>x. x \<in> set xs \<Longrightarrow> nxt' x = nxt x \<and> prv' x = prv x"
  shows "dll nxt' prv' h xs = dll nxt prv h xs"
  using lseg_cong [of xs nxt' nxt prv' prv] assms by (simp add: dll_def)

lemma dll_head: "dll nxt prv h xs \<Longrightarrow> h = (if xs = [] then None else Some (hd xs))"
  unfolding dll_def using lseg_head by fastforce

text \<open>Two lists from one head are equal.\<close>

lemma lseg_unique: "lseg nxt prv b h xs None l \<Longrightarrow> lseg nxt prv' b' h ys None l' \<Longrightarrow> xs = ys"
proof (induction xs arbitrary: b b' h ys)
  case Nil
  then show ?case by (cases ys) auto
next
  case (Cons x xs)
  then show ?case by (cases ys) auto
qed

lemma dll_unique: "dll nxt prv h xs \<Longrightarrow> dll nxt prv' h ys \<Longrightarrow> xs = ys"
  unfolding dll_def using lseg_unique by metis

lemma dll_push:
  assumes "dll nxt prv h xs" "p \<notin> set xs"
  shows "dll (nxt(p := h)) ((set_prv h (Some p) prv)(p := None)) (Some p) (p # xs)"
proof -
  obtain l where l: "lseg nxt prv None h xs None l" and d: "distinct xs" using assms(1) by (auto simp: dll_def)
  have "\<exists>l. lseg (nxt(p := h)) ((set_prv h (Some p) prv)(p := None)) (Some p) h xs None l"
  proof (cases xs)
    case Nil
    then show ?thesis using l by simp
  next
    case (Cons y ys)
    then have h: "h = Some y" using l by simp
    have "lseg nxt (prv(y := Some p)) (Some p) h (y # ys) None l" using l d Cons by (intro lseg_front) auto
    moreover have "lseg (nxt(p := h)) ((set_prv h (Some p) prv)(p := None)) (Some p) h (y # ys) None l =
      lseg nxt (prv(y := Some p)) (Some p) h (y # ys) None l"
      using assms(2) Cons h by (intro lseg_cong) (auto simp: set_prv_def)
    ultimately show ?thesis using Cons by auto
  qed
  then show ?thesis using d assms(2) by (auto simp: dll_def)
qed

text \<open>
  Taking an element out: the next one gets its link back, and what led to it, the head or the link of
  the one before, now leads to the next one.
\<close>

lemma dll_unlink:
  assumes "dll nxt prv h xs" "p \<in> set xs"
  shows "dll (set_prv (prv p) (nxt p) nxt) (set_prv (nxt p) (prv p) prv) (if prv p = None then nxt p else h) (remove1 p xs)"
proof -
  obtain l where l: "lseg nxt prv None h xs None l" and d: "distinct xs" using assms(1) by (auto simp: dll_def)
  obtain us vs where xs: "xs = us @ p # vs" using assms(2) by (auto dest: split_list)
  then have pu: "p \<notin> set us" "p \<notin> set vs" "set us \<inter> set vs = {}" "distinct us" "distinct vs" using d by auto
  have ends: "us \<noteq> [] \<longrightarrow> last us \<notin> set vs" "vs \<noteq> [] \<longrightarrow> hd vs \<notin> set us"
    using pu(3) last_in_set [of us] hd_in_set [of vs] by blast+
  have r: "remove1 p xs = us @ vs" using xs pu by (simp add: remove1_append)
  obtain k where u: "lseg nxt prv None h us (Some p) k" and k: "prv p = k"
    and v: "lseg nxt prv (Some p) (nxt p) vs None l"
    using l unfolding xs by (auto simp: lseg_append)
  let ?n = "set_prv (prv p) (nxt p) nxt" and ?b = "set_prv (nxt p) (prv p) prv"
  have "\<exists>l. lseg ?n ?b k (nxt p) vs None l"
  proof (cases vs)
    case Nil
    then show ?thesis using v by simp
  next
    case (Cons y ys)
    then have y: "nxt p = Some y" using v by simp
    have "lseg nxt (prv(y := k)) k (nxt p) vs None l" using v pu(5) unfolding Cons by (rule lseg_front)
    moreover have "lseg ?n ?b k (nxt p) vs None l = lseg nxt (prv(y := k)) k (nxt p) vs None l"
      using lseg_last [OF u] ends(1) k y
      by (intro lseg_cong) (auto simp: set_prv_def split: option.splits if_splits)
    ultimately show ?thesis by auto
  qed
  moreover have "lseg ?n ?b None (if prv p = None then nxt p else h) us (nxt p) k"
  proof (cases us rule: rev_cases)
    case Nil
    then show ?thesis using u k by simp
  next
    case (snoc ws w)
    then have w: "k = Some w" using lseg_last [OF u] by simp
    have "lseg (nxt(w := nxt p)) prv None h us (nxt p) k" using u pu(4) unfolding snoc by (rule lseg_end)
    moreover have "lseg ?n ?b None h us (nxt p) k = lseg (nxt(w := nxt p)) prv None h us (nxt p) k"
      using lseg_head [OF v] ends(2) k w
      by (intro lseg_cong) (auto simp: set_prv_def split: if_splits option.splits)
    ultimately show ?thesis using k w by simp
  qed
  ultimately show ?thesis using d r pu unfolding dll_def r by (auto simp: lseg_append)
qed

text \<open>Following the links from the head visits the list.\<close>

lemma dll_nth:
  assumes "dll nxt prv h xs" "i < length xs"
  shows "nxt (xs ! i) = (if Suc i < length xs then Some (xs ! Suc i) else None)"
proof -
  have "lseg nxt prv b h xs None l \<Longrightarrow> ?thesis" for b l
    using assms(2)
  proof (induction xs arbitrary: b h i)
    case (Cons x xs)
    then show ?case using lseg_head [of nxt prv "Some x" "nxt x" xs None l]
      by (cases i) (auto simp: hd_conv_nth split: if_splits)
  qed simp
  then show ?thesis using assms(1) by (auto simp: dll_def)
qed

subsection \<open>Rings with a fixed member\<close>

text \<open>\<open>z\<close> is the member that never leaves; \<open>xs\<close> are the others in order.\<close>

definition ring :: "('a \<Rightarrow> 'a) \<Rightarrow> ('a \<Rightarrow> 'a) \<Rightarrow> 'a \<Rightarrow> 'a list \<Rightarrow> bool" where
  "ring nxt prv z xs \<longleftrightarrow>
     lseg (Some \<circ> nxt) (Some \<circ> prv) (Some z) (Some (nxt z)) xs (Some z) (Some (prv z)) \<and> distinct (z # xs)"

lemma ring_cong:
  assumes "\<And>x. x \<in> insert z (set xs) \<Longrightarrow> nxt' x = nxt x \<and> prv' x = prv x"
  shows "ring nxt' prv' z xs = ring nxt prv z xs"
  using assms lseg_cong [of xs "Some \<circ> nxt'" "Some \<circ> nxt" "Some \<circ> prv'" "Some \<circ> prv"] by (simp add: ring_def)

lemma ring_head: "ring nxt prv z xs \<Longrightarrow> nxt z = (if xs = [] then z else hd xs)"
  unfolding ring_def using lseg_head by fastforce

lemma ring_last: "ring nxt prv z xs \<Longrightarrow> prv z = (if xs = [] then z else last xs)"
  unfolding ring_def using lseg_last by (fastforce split: if_splits)

lemma ring_add:
  assumes "ring nxt prv z xs" "p \<notin> insert z (set xs)"
  shows "ring ((nxt(p := z))(prv z := p)) ((prv(p := prv z))(z := p)) z (xs @ [p])"
proof -
  have l: "lseg (Some \<circ> nxt) (Some \<circ> prv) (Some z) (Some (nxt z)) xs (Some z) (Some (prv z))" and d: "distinct (z # xs)"
    using assms(1) by (auto simp: ring_def)
  let ?n = "(nxt(p := z))(prv z := p)" and ?b = "(prv(p := prv z))(z := p)"
  have pz: "prv z \<noteq> p" "prv z \<in> insert z (set xs)" using ring_last [OF assms(1)] assms(2) by (auto split: if_splits)
  have "lseg (Some \<circ> ?n) (Some \<circ> ?b) (Some z) (Some (?n z)) xs (Some p) (Some (prv z))"
  proof (cases xs rule: rev_cases)
    case Nil
    then show ?thesis using l by simp
  next
    case (snoc ws w)
    then have w: "prv z = w" "w \<noteq> z" using ring_last [OF assms(1)] d by auto
    have "lseg ((Some \<circ> nxt)(w := Some p)) (Some \<circ> prv) (Some z) (Some (nxt z)) xs (Some p) (Some (prv z))"
      using l d unfolding snoc by (intro lseg_end) auto
    moreover have "lseg (Some \<circ> ?n) (Some \<circ> ?b) (Some z) (Some (nxt z)) xs (Some p) (Some (prv z)) =
      lseg ((Some \<circ> nxt)(w := Some p)) (Some \<circ> prv) (Some z) (Some (nxt z)) xs (Some p) (Some (prv z))"
      using assms(2) d w by (intro lseg_cong) auto
    moreover have "?n z = nxt z" using w assms(2) by auto
    ultimately show ?thesis by simp
  qed
  moreover have "lseg (Some \<circ> ?n) (Some \<circ> ?b) (Some (prv z)) (Some p) [p] (Some z) (Some p)"
    using pz assms(2) by auto
  ultimately show ?thesis using d assms(2) unfolding ring_def by (auto simp: lseg_append)
qed

lemma ring_remove:
  assumes "ring nxt prv z xs" "p \<in> set xs"
  shows "ring (nxt(prv p := nxt p)) (prv(nxt p := prv p)) z (remove1 p xs)"
proof -
  have l: "lseg (Some \<circ> nxt) (Some \<circ> prv) (Some z) (Some (nxt z)) xs (Some z) (Some (prv z))" and d: "distinct (z # xs)"
    using assms(1) by (auto simp: ring_def)
  obtain us vs where xs: "xs = us @ p # vs" using assms(2) by (auto dest: split_list)
  then have pu: "p \<notin> set us" "p \<notin> set vs" "set us \<inter> set vs = {}" "distinct us" "distinct vs" "z \<notin> set us" "z \<notin> set vs" "p \<noteq> z"
    using d by auto
  have ends: "us \<noteq> [] \<longrightarrow> last us \<notin> set vs" "vs \<noteq> [] \<longrightarrow> hd vs \<notin> set us"
    using pu(3) last_in_set [of us] hd_in_set [of vs] by blast+
  have r: "remove1 p xs = us @ vs" using xs pu by (simp add: remove1_append)
  have u: "lseg (Some \<circ> nxt) (Some \<circ> prv) (Some z) (Some (nxt z)) us (Some p) (Some (prv p))"
    and v: "lseg (Some \<circ> nxt) (Some \<circ> prv) (Some p) (Some (nxt p)) vs (Some z) (Some (prv z))"
    using l unfolding xs by (auto simp: lseg_append)
  let ?n = "nxt(prv p := nxt p)" and ?b = "prv(nxt p := prv p)"
  have pp: "prv p = (if us = [] then z else last us)" using lseg_last [OF u] by (auto split: if_splits)
  have np: "nxt p = (if vs = [] then z else hd vs)" using lseg_head [OF v] by (auto split: if_splits)
  have "lseg (Some \<circ> ?n) (Some \<circ> ?b) (Some z) (Some (?n z)) us (Some (nxt p)) (Some (prv p))"
  proof (cases us rule: rev_cases)
    case Nil
    then show ?thesis using u pp by simp
  next
    case (snoc ws w)
    then have w: "prv p = w" "w \<noteq> z" "nxt p \<notin> set us" using pp np pu ends by (auto split: if_splits)
    have "lseg ((Some \<circ> nxt)(w := Some (nxt p))) (Some \<circ> prv) (Some z) (Some (nxt z)) us (Some (nxt p)) (Some (prv p))"
      using u pu(4) unfolding snoc by (rule lseg_end)
    moreover have "lseg (Some \<circ> ?n) (Some \<circ> ?b) (Some z) (Some (nxt z)) us (Some (nxt p)) (Some (prv p)) =
      lseg ((Some \<circ> nxt)(w := Some (nxt p))) (Some \<circ> prv) (Some z) (Some (nxt z)) us (Some (nxt p)) (Some (prv p))"
      using w by (intro lseg_cong) auto
    ultimately show ?thesis using w by simp
  qed
  moreover have "lseg (Some \<circ> ?n) (Some \<circ> ?b) (Some (prv p)) (Some (nxt p)) vs (Some z) (Some (?b z))"
  proof (cases vs)
    case Nil
    then show ?thesis using v np by simp
  next
    case (Cons y ys)
    then have y: "nxt p = y" "y \<noteq> z" "prv p \<notin> set vs" using pp np pu ends by (auto split: if_splits)
    have "lseg (Some \<circ> nxt) ((Some \<circ> prv)(y := Some (prv p))) (Some (prv p)) (Some (nxt p)) vs (Some z) (Some (prv z))"
      using v pu(5) unfolding Cons by (rule lseg_front)
    moreover have "lseg (Some \<circ> ?n) (Some \<circ> ?b) (Some (prv p)) (Some (nxt p)) vs (Some z) (Some (prv z)) =
      lseg (Some \<circ> nxt) ((Some \<circ> prv)(y := Some (prv p))) (Some (prv p)) (Some (nxt p)) vs (Some z) (Some (prv z))"
      using y by (intro lseg_cong) auto
    ultimately show ?thesis using y by simp
  qed
  ultimately show ?thesis using d pu unfolding ring_def r by (auto simp: lseg_append)
qed

text \<open>Following the links from the fixed member visits the others and comes back.\<close>

lemma ring_nth:
  assumes "ring nxt prv z xs" "i < length xs"
  shows "nxt (xs ! i) = (if Suc i < length xs then xs ! Suc i else z)"
proof -
  have "lseg (Some \<circ> nxt) (Some \<circ> prv) b h xs (Some z) l \<Longrightarrow> ?thesis" for b h l
    using assms(2)
  proof (induction xs arbitrary: b h i)
    case (Cons x xs)
    from Cons.prems(1) have "lseg (Some \<circ> nxt) (Some \<circ> prv) (Some x) (Some (nxt x)) xs (Some z) l" by (simp add: comp_def)
    from lseg_head [OF this] have n: "nxt x = (if xs = [] then z else hd xs)" by (auto split: if_splits)
    show ?case
    proof (cases i)
      case 0
      then show ?thesis using n by (auto simp: hd_conv_nth)
    next
      case (Suc j)
      then show ?thesis using Cons.IH [of "Some x" "Some (nxt x)" j] Cons.prems by auto
    qed
  qed simp
  then show ?thesis using assms(1) by (auto simp: ring_def)
qed

end
