(* ===== verification/Process_Table.thy ===== *)
theory Process_Table
  imports Kernel_Prelude Links
begin

text \<open>
  The table of processes (include/linux/sched.h, kernel/fork.c, kernel/exit.c): the ring of all
  tasks, the family links, the thread groups and the hash table from process ids to tasks, as the
  pointers of the task structures, and the choice of a new process id. A task is the address of its
  structure, an integer; 0 is \<^verbatim>\<open>init_task\<close>. A pointer that may be null is an option.
\<close>

subsection \<open>State\<close>

text \<open>\<^verbatim>\<open>pidhash_pprev\<close> points to the place that points to the task.\<close>

datatype hlink = Bucket nat | NextOf int

record proc =
  pr_pid :: int
  pr_pgrp :: int
  pr_tgid :: int
  pr_session :: int
  pr_exit_code :: int
  pr_exit_signal :: int
  pr_ptrace :: int
  pr_flags :: int
  self_exec_id :: int
  parent_exec_id :: int
  next_task :: int
  prev_task :: int
  p_opptr :: int
  p_pptr :: int
  p_cptr :: "int option"
  p_ysptr :: "int option"
  p_osptr :: "int option"
  thread_next :: int
  thread_prev :: int
  pidhash_next :: "int option"
  pidhash_pprev :: hlink

record ptable =
  procs :: "int \<Rightarrow> proc"
  pidhash :: "nat \<Rightarrow> int option"
  nr_threads :: int
  last_pid :: int
  next_safe :: int

definition upd :: "int \<Rightarrow> (proc \<Rightarrow> proc) \<Rightarrow> ptable \<Rightarrow> ptable" where
  "upd a f s = s\<lparr>procs := (procs s)(a := f (procs s a))\<rparr>"

lemma upd_simps [simp]:
  "procs (upd a f s) = (procs s)(a := f (procs s a))" "pidhash (upd a f s) = pidhash s"
  "nr_threads (upd a f s) = nr_threads s" "last_pid (upd a f s) = last_pid s" "next_safe (upd a f s) = next_safe s"
  by (simp_all add: upd_def)

definition upd_opt :: "int option \<Rightarrow> (proc \<Rightarrow> proc) \<Rightarrow> ptable \<Rightarrow> ptable" where
  "upd_opt a f s = (case a of None \<Rightarrow> s | Some a \<Rightarrow> upd a f s)"

subsection \<open>The hash table\<close>

definition pid_hashfn :: "int \<Rightarrow> nat" where
  "pid_hashfn x = nat (and (xor (drop_bit 8 x) x) 1023)"

definition store_hlink :: "hlink \<Rightarrow> int option \<Rightarrow> ptable \<Rightarrow> ptable" where
  "store_hlink l v s = (case l of
       Bucket h \<Rightarrow> s\<lparr>pidhash := (pidhash s)(h := v)\<rparr>
     | NextOf q \<Rightarrow> upd q (\<lambda>x. x\<lparr>pidhash_next := v\<rparr>) s)"

definition hash_pid :: "int \<Rightarrow> ptable \<Rightarrow> ptable" where
  "hash_pid p s =
     (let h = pid_hashfn (pr_pid (procs s p));
          s1 = upd p (\<lambda>x. x\<lparr>pidhash_next := pidhash s h\<rparr>) s;
          s2 = upd_opt (pidhash s1 h) (\<lambda>x. x\<lparr>pidhash_pprev := NextOf p\<rparr>) s1;
          s3 = s2\<lparr>pidhash := (pidhash s2)(h := Some p)\<rparr>
      in upd p (\<lambda>x. x\<lparr>pidhash_pprev := Bucket h\<rparr>) s3)"

definition unhash_pid :: "int \<Rightarrow> ptable \<Rightarrow> ptable" where
  "unhash_pid p s =
     (let s1 = upd_opt (pidhash_next (procs s p)) (\<lambda>x. x\<lparr>pidhash_pprev := pidhash_pprev (procs s p)\<rparr>) s
      in store_hlink (pidhash_pprev (procs s1 p)) (pidhash_next (procs s1 p)) s1)"

partial_function (option) find_loop :: "ptable \<Rightarrow> int \<Rightarrow> int option \<Rightarrow> int option option" where
  "find_loop s pd p =
     (case p of None \<Rightarrow> Some None
      | Some a \<Rightarrow> if pr_pid (procs s a) \<noteq> pd then find_loop s pd (pidhash_next (procs s a)) else Some (Some a))"

definition find_task_by_pid :: "ptable \<Rightarrow> int \<Rightarrow> int option option" where
  "find_task_by_pid s pd = find_loop s pd (pidhash s (pid_hashfn pd))"

subsection \<open>The ring of tasks and the family links\<close>

text \<open>The two halves of \<^verbatim>\<open>REMOVE_LINKS\<close> and of \<^verbatim>\<open>SET_LINKS\<close>: the ring, then the family.\<close>

definition ring_unlink :: "int \<Rightarrow> ptable \<Rightarrow> ptable" where
  "ring_unlink p s =
     (let s1 = upd (next_task (procs s p)) (\<lambda>x. x\<lparr>prev_task := prev_task (procs s p)\<rparr>) s
      in upd (prev_task (procs s1 p)) (\<lambda>x. x\<lparr>next_task := next_task (procs s1 p)\<rparr>) s1)"

definition family_unlink :: "int \<Rightarrow> ptable \<Rightarrow> ptable" where
  "family_unlink p s =
     (let s1 = upd_opt (p_osptr (procs s p)) (\<lambda>x. x\<lparr>p_ysptr := p_ysptr (procs s p)\<rparr>) s
      in case p_ysptr (procs s1 p) of
           Some y \<Rightarrow> upd y (\<lambda>x. x\<lparr>p_osptr := p_osptr (procs s1 p)\<rparr>) s1
         | None \<Rightarrow> upd (p_pptr (procs s1 p)) (\<lambda>x. x\<lparr>p_cptr := p_osptr (procs s1 p)\<rparr>) s1)"

definition REMOVE_LINKS :: "int \<Rightarrow> ptable \<Rightarrow> ptable" where
  "REMOVE_LINKS p s = family_unlink p (ring_unlink p s)"

definition ring_link :: "int \<Rightarrow> ptable \<Rightarrow> ptable" where
  "ring_link p s =
     (let s1 = upd p (\<lambda>x. x\<lparr>next_task := 0\<rparr>) s;
          s2 = upd p (\<lambda>x. x\<lparr>prev_task := prev_task (procs s1 0)\<rparr>) s1;
          s3 = upd (prev_task (procs s2 0)) (\<lambda>x. x\<lparr>next_task := p\<rparr>) s2
      in upd 0 (\<lambda>x. x\<lparr>prev_task := p\<rparr>) s3)"

definition family_link :: "int \<Rightarrow> ptable \<Rightarrow> ptable" where
  "family_link p s =
     (let s1 = upd p (\<lambda>x. x\<lparr>p_ysptr := None\<rparr>) s;
          s2 = upd p (\<lambda>x. x\<lparr>p_osptr := p_cptr (procs s1 (p_pptr (procs s1 p)))\<rparr>) s1;
          s3 = upd_opt (p_osptr (procs s2 p)) (\<lambda>x. x\<lparr>p_ysptr := Some p\<rparr>) s2
      in upd (p_pptr (procs s3 p)) (\<lambda>x. x\<lparr>p_cptr := Some p\<rparr>) s3)"

definition SET_LINKS :: "int \<Rightarrow> ptable \<Rightarrow> ptable" where
  "SET_LINKS p s = family_link p (ring_link p s)"

text \<open>\<^verbatim>\<open>list_del(&p->thread_group)\<close> and \<^verbatim>\<open>list_add(&p->thread_group, &q->thread_group)\<close>.\<close>

definition thread_del :: "int \<Rightarrow> ptable \<Rightarrow> ptable" where
  "thread_del p s =
     (let s1 = upd (thread_next (procs s p)) (\<lambda>x. x\<lparr>thread_prev := thread_prev (procs s p)\<rparr>) s
      in upd (thread_prev (procs s1 p)) (\<lambda>x. x\<lparr>thread_next := thread_next (procs s1 p)\<rparr>) s1)"

definition thread_add :: "int \<Rightarrow> int \<Rightarrow> ptable \<Rightarrow> ptable" where
  "thread_add p q s =
     (let n = thread_next (procs s q);
          s1 = upd n (\<lambda>x. x\<lparr>thread_prev := p\<rparr>) s;
          s2 = upd p (\<lambda>x. x\<lparr>thread_next := n\<rparr>) s1;
          s3 = upd p (\<lambda>x. x\<lparr>thread_prev := q\<rparr>) s2
      in upd q (\<lambda>x. x\<lparr>thread_next := p\<rparr>) s3)"

definition unhash_process :: "int \<Rightarrow> ptable \<Rightarrow> ptable" where
  "unhash_process p s = thread_del p (REMOVE_LINKS p (unhash_pid p (s\<lparr>nr_threads := nr_threads s - 1\<rparr>)))"

text \<open>What \<^verbatim>\<open>do_fork\<close> does under the lock of the task list.\<close>

definition CLONE_PARENT :: int where "CLONE_PARENT = 0x8000"
definition CLONE_THREAD :: int where "CLONE_THREAD = 0x10000"
definition CLONE_PID :: int where "CLONE_PID = 0x1000"
definition PT_PTRACED :: int where "PT_PTRACED = 1"

definition child_parents :: "int \<Rightarrow> int \<Rightarrow> int \<Rightarrow> ptable \<Rightarrow> ptable" where
  "child_parents clone_flags cur p s =
     (let s1 = upd p (\<lambda>x. x\<lparr>pr_tgid := pr_pid x, thread_next := p, thread_prev := p\<rparr>) s;
          s2 = upd p (\<lambda>x. x\<lparr>p_opptr := p_opptr (procs s1 cur), p_pptr := p_pptr (procs s1 cur)\<rparr>) s1;
          s3 = (if and clone_flags CLONE_PARENT = 0
                then let s' = upd p (\<lambda>x. x\<lparr>p_opptr := cur\<rparr>) s2
                     in if and (pr_ptrace (procs s' p)) PT_PTRACED = 0 then upd p (\<lambda>x. x\<lparr>p_pptr := cur\<rparr>) s' else s'
                else s2)
      in if and clone_flags CLONE_THREAD \<noteq> 0
         then thread_add p cur (upd p (\<lambda>x. x\<lparr>pr_tgid := pr_tgid (procs s3 cur)\<rparr>) s3)
         else s3)"

definition link_child :: "int \<Rightarrow> int \<Rightarrow> int \<Rightarrow> ptable \<Rightarrow> ptable" where
  "link_child clone_flags cur p s =
     (let s1 = hash_pid p (SET_LINKS p (child_parents clone_flags cur p s))
      in s1\<lparr>nr_threads := nr_threads s1 + 1\<rparr>)"

subsection \<open>A new process id\<close>

abbreviation (input) PID_MAX :: int where "PID_MAX \<equiv> 0x8000"

text \<open>\<^verbatim>\<open>last_pid & 0xffff8000\<close>.\<close>

definition pid_high :: "int \<Rightarrow> bool" where
  "pid_high x \<longleftrightarrow> and (u32 x) 0xffff8000 \<noteq> 0"

definition pid_clash :: "proc \<Rightarrow> int \<Rightarrow> bool" where
  "pid_clash p n \<longleftrightarrow> pr_pid p = n \<or> pr_pgrp p = n \<or> pr_tgid p = n \<or> pr_session p = n"

text \<open>How a task lowers \<^verbatim>\<open>next_safe\<close>, one of its ids after the other.\<close>

definition lower_safe :: "proc \<Rightarrow> int \<Rightarrow> int \<Rightarrow> int" where
  "lower_safe p lp ns =
     (let low = (\<lambda>x n. if x > lp \<and> n > x then x else n)
      in low (pr_session p) (low (pr_tgid p) (low (pr_pgrp p) (low (pr_pid p) ns))))"

text \<open>One run of \<^verbatim>\<open>for_each_task\<close>: whether a task has the id, and \<^verbatim>\<open>next_safe\<close> then.\<close>

partial_function (option) scan_tasks :: "ptable \<Rightarrow> int \<Rightarrow> int \<Rightarrow> int \<Rightarrow> (bool \<times> int) option" where
  "scan_tasks s p lp ns =
     (let q = next_task (procs s p)
      in if q = 0 then Some (False, ns)
         else if pid_clash (procs s q) lp then Some (True, ns)
         else scan_tasks s q lp (lower_safe (procs s q) lp ns))"

text \<open>The search from the label \<^verbatim>\<open>repeat\<close>; the first component is the id, 0 when there is none.\<close>

partial_function (option) pid_repeat :: "ptable \<Rightarrow> int \<Rightarrow> int \<Rightarrow> int \<Rightarrow> (int \<times> int \<times> int) option" where
  "pid_repeat s beginpid lp ns =
     Option.bind (scan_tasks s 0 lp ns) (\<lambda>(clash, ns1).
       if clash then
         let lp1 = lp + 1;
             lp2 = (if lp1 \<ge> ns1 then (if pid_high lp1 then 300 else lp1) else lp1);
             ns2 = (if lp1 \<ge> ns1 then PID_MAX else ns1)
         in if lp2 = beginpid then Some (0, lp2, ns2) else pid_repeat s beginpid lp2 ns2
       else Some (lp, lp, ns1))"

definition get_pid :: "int \<Rightarrow> int \<Rightarrow> ptable \<Rightarrow> (int \<times> ptable) option" where
  "get_pid clone_flags cur s =
     (if and clone_flags CLONE_PID \<noteq> 0 then Some (pr_pid (procs s cur), s)
      else let lp = last_pid s + 1
           in if pid_high lp \<or> lp \<ge> next_safe s then
                Option.bind (pid_repeat s (last_pid s) (if pid_high lp then 300 else lp) PID_MAX) (\<lambda>(pd, lp1, ns1).
                  Some (pd, s\<lparr>last_pid := lp1, next_safe := ns1\<rparr>))
              else Some (lp, s\<lparr>last_pid := lp\<rparr>))"

end
