(* ===== verification/Process_Inv.thy ===== *)
theory Process_Inv
  imports Process_Table
begin

text \<open>
  The invariant of the table of processes, what linking and unlinking a task do to the lists that the
  pointers make, and the lookup by process id.
\<close>

subsection \<open>The lists\<close>

text \<open>The link back that a \<^verbatim>\<open>pidhash_pprev\<close> amounts to.\<close>

fun hback :: "hlink \<Rightarrow> int option" where
  "hback (Bucket h) = None"
| "hback (NextOf q) = Some q"

definition task_ring :: "ptable \<Rightarrow> int list \<Rightarrow> bool" where
  "task_ring s ts \<longleftrightarrow> ring (\<lambda>a. next_task (procs s a)) (\<lambda>a. prev_task (procs s a)) 0 ts"

definition hash_ok :: "ptable \<Rightarrow> int set \<Rightarrow> (nat \<Rightarrow> int list) \<Rightarrow> bool" where
  "hash_ok s A bk \<longleftrightarrow> (\<forall>h.
     dll (\<lambda>a. pidhash_next (procs s a)) (\<lambda>a. hback (pidhash_pprev (procs s a))) (pidhash s h) (bk h) \<and>
     set (bk h) = {a \<in> A. pid_hashfn (pr_pid (procs s a)) = h} \<and>
     (\<forall>a \<in> set (bk h). \<forall>j. pidhash_pprev (procs s a) = Bucket j \<longrightarrow> j = h))"

definition family_ok :: "ptable \<Rightarrow> int set \<Rightarrow> (int \<Rightarrow> int list) \<Rightarrow> bool" where
  "family_ok s A ch \<longleftrightarrow> (\<forall>a.
     dll (\<lambda>x. p_osptr (procs s x)) (\<lambda>x. p_ysptr (procs s x)) (p_cptr (procs s a)) (ch a) \<and>
     set (ch a) = {x \<in> A. p_pptr (procs s x) = a})"

definition ptable_ok :: "ptable \<Rightarrow> int list \<Rightarrow> (nat \<Rightarrow> int list) \<Rightarrow> (int \<Rightarrow> int list) \<Rightarrow> bool" where
  "ptable_ok s ts bk ch \<longleftrightarrow> task_ring s ts \<and> hash_ok s (set ts) bk \<and> family_ok s (set ts) ch \<and>
     inj_on (\<lambda>a. pr_pid (procs s a)) (set ts) \<and> nr_threads s = int (length ts)"

text \<open>Which fields each part reads.\<close>

lemma task_ring_cong:
  assumes "\<And>a. next_task (procs s' a) = next_task (procs s a)" "\<And>a. prev_task (procs s' a) = prev_task (procs s a)"
  shows "task_ring s' ts = task_ring s ts"
  by (simp add: task_ring_def assms)

lemma hash_ok_cong:
  assumes "\<And>a. pidhash_next (procs s' a) = pidhash_next (procs s a)" "\<And>a. pidhash_pprev (procs s' a) = pidhash_pprev (procs s a)"
    "\<And>a. pr_pid (procs s' a) = pr_pid (procs s a)" "pidhash s' = pidhash s"
  shows "hash_ok s' A bk = hash_ok s A bk"
  by (simp add: hash_ok_def assms)

lemma family_ok_cong:
  assumes "\<And>a. p_osptr (procs s' a) = p_osptr (procs s a)" "\<And>a. p_ysptr (procs s' a) = p_ysptr (procs s a)"
    "\<And>a. p_cptr (procs s' a) = p_cptr (procs s a)" "\<And>a. a \<in> A \<Longrightarrow> p_pptr (procs s' a) = p_pptr (procs s a)"
  shows "family_ok s' A ch = family_ok s A ch"
proof -
  have "{x \<in> A. p_pptr (procs s' x) = a} = {x \<in> A. p_pptr (procs s x) = a}" for a using assms(4) by auto
  then show ?thesis by (simp add: family_ok_def assms(1-3))
qed

subsection \<open>Hashing\<close>

lemma upd_opt_simps [simp]:
  "procs (upd_opt a f s) = (case a of None \<Rightarrow> procs s | Some a \<Rightarrow> (procs s)(a := f (procs s a)))"
  "pidhash (upd_opt a f s) = pidhash s" "nr_threads (upd_opt a f s) = nr_threads s"
  "last_pid (upd_opt a f s) = last_pid s" "next_safe (upd_opt a f s) = next_safe s"
  by (simp_all add: upd_opt_def split: option.split)

lemma hash_pid_procs:
  "procs (hash_pid p s) a = (procs s a)\<lparr>
     pidhash_next := (if a = p then pidhash s (pid_hashfn (pr_pid (procs s p))) else pidhash_next (procs s a)),
     pidhash_pprev := (if a = p then Bucket (pid_hashfn (pr_pid (procs s p)))
       else if pidhash s (pid_hashfn (pr_pid (procs s p))) = Some a then NextOf p else pidhash_pprev (procs s a))\<rparr>"
  by (cases "pidhash s (pid_hashfn (pr_pid (procs s p)))") (simp_all add: hash_pid_def Let_def)

lemma hash_pid_rest:
  "pidhash (hash_pid p s) = (pidhash s)(pid_hashfn (pr_pid (procs s p)) := Some p)"
  "nr_threads (hash_pid p s) = nr_threads s" "last_pid (hash_pid p s) = last_pid s" "next_safe (hash_pid p s) = next_safe s"
  by (simp_all add: hash_pid_def Let_def)

lemmas hash_pid_fields = hash_pid_procs hash_pid_rest

lemma hash_pid_same:
  "pr_pid (procs (hash_pid p s) a) = pr_pid (procs s a)" "next_task (procs (hash_pid p s) a) = next_task (procs s a)"
  "prev_task (procs (hash_pid p s) a) = prev_task (procs s a)" "p_osptr (procs (hash_pid p s) a) = p_osptr (procs s a)"
  "p_ysptr (procs (hash_pid p s) a) = p_ysptr (procs s a)" "p_cptr (procs (hash_pid p s) a) = p_cptr (procs s a)"
  "p_pptr (procs (hash_pid p s) a) = p_pptr (procs s a)"
  by (simp_all add: hash_pid_procs)

lemma hash_pid_ok:
  assumes ok: "hash_ok s A bk" and p: "p \<notin> A"
  shows "hash_ok (hash_pid p s) (insert p A) (bk(pid_hashfn (pr_pid (procs s p)) := p # bk (pid_hashfn (pr_pid (procs s p)))))"
proof -
  let ?k = "pid_hashfn (pr_pid (procs s p))"
  let ?n = "\<lambda>a. pidhash_next (procs s a)" and ?b = "\<lambda>a. hback (pidhash_pprev (procs s a))"
  let ?n' = "\<lambda>a. pidhash_next (procs (hash_pid p s) a)" and ?b' = "\<lambda>a. hback (pidhash_pprev (procs (hash_pid p s) a))"
  have D: "dll ?n ?b (pidhash s h) (bk h)" "set (bk h) = {a \<in> A. pid_hashfn (pr_pid (procs s a)) = h}"
    "a \<in> set (bk h) \<Longrightarrow> pidhash_pprev (procs s a) = Bucket j \<Longrightarrow> j = h" for h a j
    using ok unfolding hash_ok_def by blast+
  have np: "p \<notin> set (bk h)" for h using D(2) p by auto
  have n': "?n' = ?n(p := pidhash s ?k)" by (auto simp: hash_pid_fields)
  have b': "?b' = (set_prv (pidhash s ?k) (Some p) ?b)(p := None)"
    by (auto simp: hash_pid_fields set_prv_def fun_eq_iff split: option.split)
  have "dll ?n' ?b' (pidhash (hash_pid p s) h) ((bk(?k := p # bk ?k)) h)" for h
  proof (cases "h = ?k")
    case True
    then show ?thesis using dll_push [OF D(1) np, of ?k] unfolding n' b' by (simp add: hash_pid_fields)
  next
    case False
    have "x \<noteq> p \<and> pidhash s ?k \<noteq> Some x" if "x \<in> set (bk h)" for x
      using that np [of h] D(2) [of h] D(2) [of ?k] dll_head [OF D(1), of ?k] False hd_in_set [of "bk ?k"] by (auto split: if_splits)
    then have "dll ?n' ?b' (pidhash s h) (bk h) = dll ?n ?b (pidhash s h) (bk h)"
      by (intro dll_cong) (auto simp: hash_pid_fields)
    then show ?thesis using D(1) False by (simp add: hash_pid_fields)
  qed
  moreover have "set ((bk(?k := p # bk ?k)) h) = {a \<in> insert p A. pid_hashfn (pr_pid (procs (hash_pid p s) a)) = h}" for h
    using D(2) by (auto simp: hash_pid_same)
  moreover have "j = h" if "a \<in> set ((bk(?k := p # bk ?k)) h)" "pidhash_pprev (procs (hash_pid p s) a) = Bucket j" for h a j
    using that D(3) np by (auto simp: hash_pid_fields split: if_splits)
  ultimately show ?thesis by (simp add: hash_ok_def)
qed

lemma unhash_pid_procs:
  assumes "pidhash_next (procs s p) \<noteq> Some p"
  shows "procs (unhash_pid p s) a = (procs s a)\<lparr>
      pidhash_next := (if hback (pidhash_pprev (procs s p)) = Some a then pidhash_next (procs s p) else pidhash_next (procs s a)),
      pidhash_pprev := (if pidhash_next (procs s p) = Some a then pidhash_pprev (procs s p) else pidhash_pprev (procs s a))\<rparr>"
  using assms by (cases "pidhash_next (procs s p)"; cases "pidhash_pprev (procs s p)")
    (auto simp: unhash_pid_def store_hlink_def Let_def)

lemma unhash_pid_rest:
  assumes "pidhash_next (procs s p) \<noteq> Some p"
  shows "pidhash (unhash_pid p s) h = (if pidhash_pprev (procs s p) = Bucket h then pidhash_next (procs s p) else pidhash s h)"
    "nr_threads (unhash_pid p s) = nr_threads s" "last_pid (unhash_pid p s) = last_pid s" "next_safe (unhash_pid p s) = next_safe s"
  using assms by (cases "pidhash_next (procs s p)"; cases "pidhash_pprev (procs s p)";
    auto simp: unhash_pid_def store_hlink_def Let_def)+

lemmas unhash_pid_fields = unhash_pid_procs unhash_pid_rest

lemma unhash_pid_same:
  assumes "pidhash_next (procs s p) \<noteq> Some p"
  shows "pr_pid (procs (unhash_pid p s) a) = pr_pid (procs s a)" "next_task (procs (unhash_pid p s) a) = next_task (procs s a)"
    "prev_task (procs (unhash_pid p s) a) = prev_task (procs s a)" "p_osptr (procs (unhash_pid p s) a) = p_osptr (procs s a)"
    "p_ysptr (procs (unhash_pid p s) a) = p_ysptr (procs s a)" "p_cptr (procs (unhash_pid p s) a) = p_cptr (procs s a)"
    "p_pptr (procs (unhash_pid p s) a) = p_pptr (procs s a)"
  using assms by (simp_all add: unhash_pid_procs)

lemma dll_nxt_neq:
  assumes "dll nxt prv h xs" "p \<in> set xs"
  shows "nxt p \<noteq> Some p" "nxt p = Some q \<Longrightarrow> q \<in> set xs" "prv p = Some q \<Longrightarrow> q \<in> set xs" "prv p = None \<Longrightarrow> h = Some p"
proof -
  obtain l where l: "lseg nxt prv None h xs None l" and d: "distinct xs" using assms(1) by (auto simp: dll_def)
  obtain us vs where xs: "xs = us @ p # vs" using assms(2) by (auto dest: split_list)
  have u: "lseg nxt prv None h us (Some p) (prv p)" and v: "lseg nxt prv (Some p) (nxt p) vs None l"
    using l unfolding xs by (auto simp: lseg_append)
  show "nxt p \<noteq> Some p" "nxt p = Some q \<Longrightarrow> q \<in> set xs" using lseg_head [OF v] hd_in_set [of vs] d xs by (auto split: if_splits)
  show "prv p = Some q \<Longrightarrow> q \<in> set xs" using lseg_last [OF u] last_in_set [of us] xs by (auto split: if_splits)
  show "prv p = None \<Longrightarrow> h = Some p" using lseg_last [OF u] u by (auto split: if_splits)
qed

lemma unhash_pid_ok:
  assumes ok: "hash_ok s A bk" and p: "p \<in> A"
  shows "hash_ok (unhash_pid p s) (A - {p}) (\<lambda>h. remove1 p (bk h))" "pidhash_next (procs s p) \<noteq> Some p"
proof -
  let ?k = "pid_hashfn (pr_pid (procs s p))"
  let ?n = "\<lambda>a. pidhash_next (procs s a)" and ?b = "\<lambda>a. hback (pidhash_pprev (procs s a))"
  let ?n' = "\<lambda>a. pidhash_next (procs (unhash_pid p s) a)" and ?b' = "\<lambda>a. hback (pidhash_pprev (procs (unhash_pid p s) a))"
  have D: "dll ?n ?b (pidhash s h) (bk h)" "set (bk h) = {a \<in> A. pid_hashfn (pr_pid (procs s a)) = h}"
    "a \<in> set (bk h) \<Longrightarrow> pidhash_pprev (procs s a) = Bucket j \<Longrightarrow> j = h" for h a j
    using ok unfolding hash_ok_def by blast+
  have pk: "p \<in> set (bk ?k)" using D(2) p by blast
  note N = dll_nxt_neq [OF D(1) pk]
  show np: "?n p \<noteq> Some p" using N(1) .
  have apart: "set (bk h) \<inter> set (bk ?k) = {}" if "h \<noteq> ?k" for h using D(2) that by auto
  have n': "?n' = set_prv (?b p) (?n p) ?n" and b': "?b' = set_prv (?n p) (?b p) ?b"
    using np by (auto simp: unhash_pid_procs set_prv_def fun_eq_iff split: option.split)
  have hd': "pidhash (unhash_pid p s) h = (if h = ?k \<and> ?b p = None then ?n p else pidhash s h)" for h
    using D(3) [OF pk] np by (cases "pidhash_pprev (procs s p)") (auto simp: unhash_pid_rest)
  have "dll ?n' ?b' (pidhash (unhash_pid p s) h) (remove1 p (bk h))" for h
  proof (cases "h = ?k")
    case True
    then show ?thesis using dll_unlink [OF D(1) pk] unfolding n' b' hd' by (simp cong: if_cong split: if_split_asm)
  next
    case False
    have "?n p \<noteq> Some x \<and> ?b p \<noteq> Some x" if "x \<in> set (bk h)" for x using that N(2,3) apart [OF False] by blast
    then have "dll ?n' ?b' (pidhash s h) (bk h) = dll ?n ?b (pidhash s h) (bk h)"
      unfolding n' b' by (intro dll_cong) (auto simp: set_prv_def split: option.split)
    moreover have "p \<notin> set (bk h)" using apart [OF False] pk by blast
    ultimately show ?thesis using D(1) False by (simp add: hd' remove1_idem)
  qed
  moreover have "set (remove1 p (bk h)) = {a \<in> A - {p}. pid_hashfn (pr_pid (procs (unhash_pid p s) a)) = h}" for h
    using D(2) [of h] dll_distinct [OF D(1), of h] np by (auto simp: unhash_pid_same)
  moreover have "j = h" if "a \<in> set (remove1 p (bk h))" "pidhash_pprev (procs (unhash_pid p s) a) = Bucket j" for h a j
  proof (cases "?n p = Some a")
    case True
    have a: "a \<in> set (bk h)" using that(1) notin_set_remove1 by metis
    then have "h = ?k" using N(2) [OF True] apart by blast
    moreover have "pidhash_pprev (procs s p) = Bucket j" using that(2) True np by (simp add: unhash_pid_procs)
    ultimately show ?thesis using D(3) [OF pk] by simp
  next
    case False
    then show ?thesis using that D(3) [of a h j] np notin_set_remove1 [of a "bk h" p] by (auto simp: unhash_pid_procs)
  qed
  ultimately show "hash_ok (unhash_pid p s) (A - {p}) (\<lambda>h. remove1 p (bk h))" by (simp add: hash_ok_def)
qed

text \<open>The lookup returns, with the task that has the process id if there is one.\<close>

lemma find_loop_list:
  assumes "lseg (\<lambda>a. pidhash_next (procs s a)) prv b h xs None l"
  shows "find_loop s pd h = Some (find (\<lambda>a. pr_pid (procs s a) = pd) xs)"
  using assms by (induction xs arbitrary: b h) (subst find_loop.simps, auto)+

lemma find_task_by_pid_correct:
  assumes ok: "hash_ok s A bk" and inj: "inj_on (\<lambda>a. pr_pid (procs s a)) A"
  shows "a \<in> A \<Longrightarrow> find_task_by_pid s (pr_pid (procs s a)) = Some (Some a)"
    "\<forall>a \<in> A. pr_pid (procs s a) \<noteq> pd \<Longrightarrow> find_task_by_pid s pd = Some None"
proof -
  have D: "dll (\<lambda>a. pidhash_next (procs s a)) (\<lambda>a. hback (pidhash_pprev (procs s a))) (pidhash s h) (bk h)"
    "set (bk h) = {a \<in> A. pid_hashfn (pr_pid (procs s a)) = h}" for h
    using ok unfolding hash_ok_def by blast+
  have f: "find_task_by_pid s pd = Some (find (\<lambda>a. pr_pid (procs s a) = pd) (bk (pid_hashfn pd)))" for pd
    using D(1) [of "pid_hashfn pd"] find_loop_list [of s _ None] by (auto simp: find_task_by_pid_def dll_def)
  show "\<forall>a \<in> A. pr_pid (procs s a) \<noteq> pd \<Longrightarrow> find_task_by_pid s pd = Some None"
    using f [of pd] D(2) by (auto simp: find_None_iff)
  assume a: "a \<in> A"
  have "find (\<lambda>x. pr_pid (procs s x) = pr_pid (procs s a)) (bk (pid_hashfn (pr_pid (procs s a)))) \<noteq> None"
    using a D(2) by (auto simp: find_None_iff)
  then obtain x where x: "find (\<lambda>x. pr_pid (procs s x) = pr_pid (procs s a)) (bk (pid_hashfn (pr_pid (procs s a)))) = Some x" by blast
  then have "x \<in> A" "pr_pid (procs s x) = pr_pid (procs s a)"
    using D(2) by (auto simp: find_Some_iff) (metis (mono_tags, lifting) D(2) mem_Collect_eq nth_mem)
  then have "x = a" using inj a by (auto dest: inj_onD)
  then show "find_task_by_pid s (pr_pid (procs s a)) = Some (Some a)" using f x by simp
qed

subsection \<open>Linking into the ring and the family\<close>

lemma ring_link_procs:
  assumes "p \<noteq> 0" "prev_task (procs s 0) \<noteq> p"
  shows "procs (ring_link p s) a = (procs s a)\<lparr>
      next_task := (if a = prev_task (procs s 0) then p else if a = p then 0 else next_task (procs s a)),
      prev_task := (if a = 0 then p else if a = p then prev_task (procs s 0) else prev_task (procs s a))\<rparr>"
  using assms by (simp add: ring_link_def Let_def)

lemma family_link_procs:
  assumes "p_pptr (procs s p) \<noteq> p" "p_cptr (procs s (p_pptr (procs s p))) \<noteq> Some p"
  shows "procs (family_link p s) a = (procs s a)\<lparr>
      p_cptr := (if a = p_pptr (procs s p) then Some p else p_cptr (procs s a)),
      p_ysptr := (if a = p then None else if p_cptr (procs s (p_pptr (procs s p))) = Some a then Some p else p_ysptr (procs s a)),
      p_osptr := (if a = p then p_cptr (procs s (p_pptr (procs s p))) else p_osptr (procs s a))\<rparr>"
  using assms by (cases "p_cptr (procs s (p_pptr (procs s p)))") (simp_all add: family_link_def Let_def)

lemma ring_unlink_procs:
  assumes "next_task (procs s p) \<noteq> p"
  shows "procs (ring_unlink p s) a = (procs s a)\<lparr>
      next_task := (if a = prev_task (procs s p) then next_task (procs s p) else next_task (procs s a)),
      prev_task := (if a = next_task (procs s p) then prev_task (procs s p) else prev_task (procs s a))\<rparr>"
  using assms by (simp add: ring_unlink_def Let_def)

lemma family_unlink_procs:
  assumes "p_osptr (procs s p) \<noteq> Some p"
  shows "procs (family_unlink p s) a = (procs s a)\<lparr>
      p_cptr := (if a = p_pptr (procs s p) \<and> p_ysptr (procs s p) = None then p_osptr (procs s p) else p_cptr (procs s a)),
      p_ysptr := (if p_osptr (procs s p) = Some a then p_ysptr (procs s p) else p_ysptr (procs s a)),
      p_osptr := (if p_ysptr (procs s p) = Some a then p_osptr (procs s p) else p_osptr (procs s a))\<rparr>"
  using assms by (cases "p_osptr (procs s p)"; cases "p_ysptr (procs s p)") (auto simp: family_unlink_def Let_def)

lemma links_rest [simp]:
  "pidhash (ring_link p s) = pidhash s" "nr_threads (ring_link p s) = nr_threads s"
  "last_pid (ring_link p s) = last_pid s" "next_safe (ring_link p s) = next_safe s"
  "pidhash (family_link p s) = pidhash s" "nr_threads (family_link p s) = nr_threads s"
  "last_pid (family_link p s) = last_pid s" "next_safe (family_link p s) = next_safe s"
  "pidhash (ring_unlink p s) = pidhash s" "nr_threads (ring_unlink p s) = nr_threads s"
  "last_pid (ring_unlink p s) = last_pid s" "next_safe (ring_unlink p s) = next_safe s"
  "pidhash (family_unlink p s) = pidhash s" "nr_threads (family_unlink p s) = nr_threads s"
  "last_pid (family_unlink p s) = last_pid s" "next_safe (family_unlink p s) = next_safe s"
  by (simp_all add: ring_link_def family_link_def ring_unlink_def family_unlink_def Let_def split: option.split)

lemma ring_link_ok:
  assumes "task_ring s ts" "p \<notin> insert 0 (set ts)"
  shows "task_ring (ring_link p s) (ts @ [p])"
proof -
  let ?n = "\<lambda>a. next_task (procs s a)" and ?b = "\<lambda>a. prev_task (procs s a)"
  have r: "ring ?n ?b 0 ts" using assms(1) by (simp add: task_ring_def)
  have z: "p \<noteq> 0" "?b 0 \<noteq> p" using ring_last [OF r] assms(2) last_in_set [of ts] by (auto split: if_splits)
  have "(\<lambda>a. next_task (procs (ring_link p s) a)) = (?n(p := 0))(?b 0 := p)"
    "(\<lambda>a. prev_task (procs (ring_link p s) a)) = (?b(p := ?b 0))(0 := p)"
    using z by (auto simp: ring_link_procs fun_eq_iff)
  then show ?thesis using ring_add [OF r assms(2)] by (simp add: task_ring_def)
qed

lemma ring_unlink_ok:
  assumes "task_ring s ts" "p \<in> set ts"
  shows "task_ring (ring_unlink p s) (remove1 p ts)" "next_task (procs s p) \<noteq> p"
proof -
  let ?n = "\<lambda>a. next_task (procs s a)" and ?b = "\<lambda>a. prev_task (procs s a)"
  have r: "ring ?n ?b 0 ts" using assms(1) by (simp add: task_ring_def)
  then have d: "distinct ts" "0 \<notin> set ts" by (auto simp: ring_def)
  obtain i where i: "i < length ts" "ts ! i = p" using assms(2) by (auto simp: in_set_conv_nth)
  show n: "?n p \<noteq> p" using ring_nth [OF r i(1)] i d nth_eq_iff_index_eq [OF d(1), of "Suc i" i] assms(2) by (auto split: if_splits)
  have "(\<lambda>a. next_task (procs (ring_unlink p s) a)) = ?n(?b p := ?n p)" "(\<lambda>a. prev_task (procs (ring_unlink p s) a)) = ?b(?n p := ?b p)"
    using n by (auto simp: ring_unlink_procs fun_eq_iff)
  then show "task_ring (ring_unlink p s) (remove1 p ts)" using ring_remove [OF r assms(2)] by (simp add: task_ring_def)
qed

lemma family_okD:
  assumes "family_ok s A ch"
  shows "dll (\<lambda>x. p_osptr (procs s x)) (\<lambda>x. p_ysptr (procs s x)) (p_cptr (procs s a)) (ch a)"
    "set (ch a) = {x \<in> A. p_pptr (procs s x) = a}"
  using assms unfolding family_ok_def by blast+

lemma family_link_ok:
  assumes ok: "family_ok s A ch" and p: "p \<notin> A" and q: "p_pptr (procs s p) = q" "q \<noteq> p"
  shows "family_ok (family_link p s) (insert p A) (ch(q := p # ch q))" "p_cptr (procs s q) \<noteq> Some p"
proof -
  let ?n = "\<lambda>x. p_osptr (procs s x)" and ?b = "\<lambda>x. p_ysptr (procs s x)"
  note D = family_okD [OF ok]
  have np: "p \<notin> set (ch a)" for a using D(2) p by auto
  have c: "p_cptr (procs s q) = Some x \<Longrightarrow> x \<in> set (ch q)" for x
    using dll_head [OF D(1), of q] hd_in_set [of "ch q"] by (auto split: if_splits)
  show cq: "p_cptr (procs s q) \<noteq> Some p" using c np by blast
  note F = family_link_procs [of s p, unfolded q(1), OF q(2) cq]
  have n': "(\<lambda>x. p_osptr (procs (family_link p s) x)) = ?n(p := p_cptr (procs s q))"
    and b': "(\<lambda>x. p_ysptr (procs (family_link p s) x)) = (set_prv (p_cptr (procs s q)) (Some p) ?b)(p := None)"
    using F cq by (auto simp: set_prv_def fun_eq_iff split: option.split)
  have "dll (?n(p := p_cptr (procs s q))) ((set_prv (p_cptr (procs s q)) (Some p) ?b)(p := None))
    (p_cptr (procs (family_link p s) a)) ((ch(q := p # ch q)) a)" for a
  proof (cases "a = q")
    case True
    then show ?thesis using dll_push [OF D(1) np, of q] F by simp
  next
    case False
    have "p_cptr (procs s q) \<noteq> Some x" if "x \<in> set (ch a)" for x using that c [of x] D(2) False by auto
    then have "dll (?n(p := p_cptr (procs s q))) ((set_prv (p_cptr (procs s q)) (Some p) ?b)(p := None)) (p_cptr (procs s a)) (ch a) =
      dll ?n ?b (p_cptr (procs s a)) (ch a)"
      using np by (intro dll_cong) (auto simp: set_prv_def split: option.split)
    then show ?thesis using D(1) False F by simp
  qed
  moreover have "set ((ch(q := p # ch q)) a) = {x \<in> insert p A. p_pptr (procs (family_link p s) x) = a}" for a
    using D(2) q F by auto
  ultimately show "family_ok (family_link p s) (insert p A) (ch(q := p # ch q))" by (simp add: family_ok_def n' b')
qed

lemma family_unlink_ok:
  assumes ok: "family_ok s A ch" and p: "p \<in> A"
  shows "family_ok (family_unlink p s) (A - {p}) (\<lambda>a. remove1 p (ch a))" "p_osptr (procs s p) \<noteq> Some p"
proof -
  let ?n = "\<lambda>x. p_osptr (procs s x)" and ?b = "\<lambda>x. p_ysptr (procs s x)" and ?q = "p_pptr (procs s p)"
  note D = family_okD [OF ok]
  have pq: "p \<in> set (ch ?q)" using D(2) p by blast
  note N = dll_nxt_neq [OF D(1) pq]
  show np: "?n p \<noteq> Some p" using N(1) .
  have apart: "set (ch a) \<inter> set (ch ?q) = {}" if "a \<noteq> ?q" for a using D(2) that by auto
  note F = family_unlink_procs [OF np]
  have n': "(\<lambda>x. p_osptr (procs (family_unlink p s) x)) = set_prv (?b p) (?n p) ?n"
    and b': "(\<lambda>x. p_ysptr (procs (family_unlink p s) x)) = set_prv (?n p) (?b p) ?b"
    using F by (auto simp: set_prv_def fun_eq_iff split: option.split)
  have "dll (set_prv (?b p) (?n p) ?n) (set_prv (?n p) (?b p) ?b) (p_cptr (procs (family_unlink p s) a)) (remove1 p (ch a))" for a
  proof (cases "a = ?q")
    case True
    have "p_cptr (procs (family_unlink p s) a) = (if ?b p = None then ?n p else p_cptr (procs s ?q))" using True F by simp
    then show ?thesis using dll_unlink [OF D(1) pq] True by simp
  next
    case False
    have "?n p \<noteq> Some x \<and> ?b p \<noteq> Some x" if "x \<in> set (ch a)" for x using that N(2,3) apart [OF False] by blast
    then have "dll (set_prv (?b p) (?n p) ?n) (set_prv (?n p) (?b p) ?b) (p_cptr (procs s a)) (ch a) = dll ?n ?b (p_cptr (procs s a)) (ch a)"
      by (intro dll_cong) (auto simp: set_prv_def split: option.split)
    moreover have "p \<notin> set (ch a)" using apart [OF False] pq by blast
    ultimately show ?thesis using D(1) False F by (simp add: remove1_idem)
  qed
  moreover have "set (remove1 p (ch a)) = {x \<in> A - {p}. p_pptr (procs (family_unlink p s) x) = a}" for a
    using D(2) [of a] dll_distinct [OF D(1), of a] F by auto
  ultimately show "family_ok (family_unlink p s) (A - {p}) (\<lambda>a. remove1 p (ch a))" by (simp add: family_ok_def n' b')
qed

subsection \<open>A task leaves and a task arrives\<close>

lemma thread_del_procs:
  "procs (thread_del p s) a = (procs s a)\<lparr>thread_next := thread_next (procs (thread_del p s) a), thread_prev := thread_prev (procs (thread_del p s) a)\<rparr>"
  by (simp add: thread_del_def Let_def)

lemma thread_add_procs:
  "procs (thread_add p q s) a = (procs s a)\<lparr>thread_next := thread_next (procs (thread_add p q s) a), thread_prev := thread_prev (procs (thread_add p q s) a)\<rparr>"
  by (simp add: thread_add_def Let_def)

lemma thread_rest [simp]:
  "pidhash (thread_del p s) = pidhash s" "nr_threads (thread_del p s) = nr_threads s"
  "last_pid (thread_del p s) = last_pid s" "next_safe (thread_del p s) = next_safe s"
  "pidhash (thread_add p q s) = pidhash s" "nr_threads (thread_add p q s) = nr_threads s"
  "last_pid (thread_add p q s) = last_pid s" "next_safe (thread_add p q s) = next_safe s"
  by (simp_all add: thread_del_def thread_add_def Let_def)

text \<open>Changing only thread links keeps everything.\<close>

lemma ptable_ok_threads:
  assumes "\<And>a. procs s' a = (procs s a)\<lparr>thread_next := thread_next (procs s' a), thread_prev := thread_prev (procs s' a)\<rparr>" "pidhash s' = pidhash s" "nr_threads s' = nr_threads s"
  shows "ptable_ok s' ts bk ch = ptable_ok s ts bk ch"
proof -
  have f: "next_task (procs s' a) = next_task (procs s a)" "prev_task (procs s' a) = prev_task (procs s a)"
    "pidhash_next (procs s' a) = pidhash_next (procs s a)" "pidhash_pprev (procs s' a) = pidhash_pprev (procs s a)"
    "pr_pid (procs s' a) = pr_pid (procs s a)" "p_osptr (procs s' a) = p_osptr (procs s a)" "p_ysptr (procs s' a) = p_ysptr (procs s a)"
    "p_cptr (procs s' a) = p_cptr (procs s a)" "p_pptr (procs s' a) = p_pptr (procs s a)" for a
    by (subst assms(1), simp)+
  show ?thesis unfolding ptable_ok_def
    using task_ring_cong [of s' s ts] hash_ok_cong [of s' s "set ts" bk] family_ok_cong [of s' s "set ts" ch] f assms(2,3) by simp
qed

lemma unhash_process_ok:
  assumes ok: "ptable_ok s ts bk ch" and p: "p \<in> set ts"
  shows "ptable_ok (unhash_process p s) (remove1 p ts) (\<lambda>h. remove1 p (bk h)) (\<lambda>a. remove1 p (ch a))"
    "pr_pid (procs (unhash_process p s) a) = pr_pid (procs s a)"
proof -
  define s0 where "s0 = s\<lparr>nr_threads := nr_threads s - 1\<rparr>"
  define s1 where "s1 = unhash_pid p s0"
  define s2 where "s2 = ring_unlink p s1"
  define s3 where "s3 = family_unlink p s2"
  have p0: "procs s0 = procs s" "pidhash s0 = pidhash s" by (simp_all add: s0_def)
  have d: "distinct ts" using ok by (auto simp: ptable_ok_def task_ring_def ring_def)
  have h0: "hash_ok s0 (set ts) bk" "task_ring s0 ts" "family_ok s0 (set ts) ch"
    using ok hash_ok_cong [of s0 s "set ts" bk] task_ring_cong [of s0 s ts] family_ok_cong [of s0 s "set ts" ch] p0
    unfolding ptable_ok_def by simp_all
  note h1 = unhash_pid_ok [OF h0(1) p, folded s1_def]
  have P1: "procs s1 a = (procs s a)\<lparr>pidhash_next := pidhash_next (procs s1 a), pidhash_pprev := pidhash_pprev (procs s1 a)\<rparr>" for a
    using h1(2) unfolding s1_def by (simp add: unhash_pid_procs p0)
  have F1: "next_task (procs s1 a) = next_task (procs s0 a)" "prev_task (procs s1 a) = prev_task (procs s0 a)"
    "p_osptr (procs s1 a) = p_osptr (procs s0 a)" "p_ysptr (procs s1 a) = p_ysptr (procs s0 a)" "p_cptr (procs s1 a) = p_cptr (procs s0 a)"
    "p_pptr (procs s1 a) = p_pptr (procs s0 a)" "pr_pid (procs s1 a) = pr_pid (procs s a)" for a
    by (subst P1, simp add: p0)+
  have r1: "task_ring s1 ts" "family_ok s1 (set ts) ch"
    using h0(2,3) task_ring_cong [of s1 s0] family_ok_cong [of s1 s0] F1 by simp_all
  note r2 = ring_unlink_ok [OF r1(1) p, folded s2_def]
  have P2: "procs s2 a = (procs s1 a)\<lparr>next_task := next_task (procs s2 a), prev_task := prev_task (procs s2 a)\<rparr>" for a
    using r2(2) unfolding s2_def by (simp add: ring_unlink_procs)
  have F2: "pidhash_next (procs s2 a) = pidhash_next (procs s1 a)" "pidhash_pprev (procs s2 a) = pidhash_pprev (procs s1 a)"
    "p_osptr (procs s2 a) = p_osptr (procs s1 a)" "p_ysptr (procs s2 a) = p_ysptr (procs s1 a)" "p_cptr (procs s2 a) = p_cptr (procs s1 a)"
    "p_pptr (procs s2 a) = p_pptr (procs s1 a)" "pr_pid (procs s2 a) = pr_pid (procs s1 a)" for a
    by (subst P2, simp)+
  have r3: "hash_ok s2 (set ts - {p}) (\<lambda>h. remove1 p (bk h))" "family_ok s2 (set ts) ch"
    using h1(1) r1(2) hash_ok_cong [of s2 s1] family_ok_cong [of s2 s1] F2 by (simp_all add: s2_def)
  note r4 = family_unlink_ok [OF r3(2) p, folded s3_def]
  have P3: "procs s3 a = (procs s2 a)\<lparr>p_cptr := p_cptr (procs s3 a), p_ysptr := p_ysptr (procs s3 a), p_osptr := p_osptr (procs s3 a)\<rparr>" for a
    using r4(2) unfolding s3_def by (simp add: family_unlink_procs)
  have F3: "pidhash_next (procs s3 a) = pidhash_next (procs s2 a)" "pidhash_pprev (procs s3 a) = pidhash_pprev (procs s2 a)"
    "next_task (procs s3 a) = next_task (procs s2 a)" "prev_task (procs s3 a) = prev_task (procs s2 a)" "pr_pid (procs s3 a) = pr_pid (procs s2 a)" for a
    by (subst P3, simp)+
  have r5: "hash_ok s3 (set ts - {p}) (\<lambda>h. remove1 p (bk h))" "task_ring s3 (remove1 p ts)"
    using r3(1) r2(1) hash_ok_cong [of s3 s2] task_ring_cong [of s3 s2] F3 by (simp_all add: s3_def)
  have e: "unhash_process p s = thread_del p s3" by (simp add: unhash_process_def REMOVE_LINKS_def s0_def s1_def s2_def s3_def)
  have pid: "pr_pid (procs s3 a) = pr_pid (procs s a)" for a using F1 F2 F3 by simp
  then show "pr_pid (procs (unhash_process p s) a) = pr_pid (procs s a)" unfolding e by (subst thread_del_procs) simp
  have "nr_threads s3 = int (length (remove1 p ts))"
    using ok p length_pos_if_in_set [OF p] h1(2)
    by (simp add: s3_def s2_def s1_def s0_def unhash_pid_rest ptable_ok_def length_remove1 of_nat_diff Suc_leI)
  moreover have "inj_on (\<lambda>a. pr_pid (procs s3 a)) (set ts - {p})"
    using ok by (auto simp: pid ptable_ok_def inj_on_diff)
  ultimately have "ptable_ok s3 (remove1 p ts) (\<lambda>h. remove1 p (bk h)) (\<lambda>a. remove1 p (ch a))"
    using r4(1) r5 d by (simp add: ptable_ok_def)
  then show "ptable_ok (unhash_process p s) (remove1 p ts) (\<lambda>h. remove1 p (bk h)) (\<lambda>a. remove1 p (ch a))"
    unfolding e by (subst ptable_ok_threads [OF thread_del_procs]) simp_all
qed

lemma link_ok:
  assumes ok: "ptable_ok s ts bk ch" and p: "p \<notin> insert 0 (set ts)" and q: "p_pptr (procs s p) = q" "q \<noteq> p"
    and new: "\<forall>a \<in> set ts. pr_pid (procs s a) \<noteq> pr_pid (procs s p)"
  defines "k \<equiv> pid_hashfn (pr_pid (procs s p))"
  defines "s' \<equiv> hash_pid p (SET_LINKS p s)"
  shows "ptable_ok (s'\<lparr>nr_threads := nr_threads s' + 1\<rparr>) (ts @ [p]) (bk(k := p # bk k)) (ch(q := p # ch q))"
    "pr_pid (procs s' a) = pr_pid (procs s a)" "pr_pgrp (procs s' a) = pr_pgrp (procs s a)" "pr_tgid (procs s' a) = pr_tgid (procs s a)"
    "pr_session (procs s' a) = pr_session (procs s a)" "p_pptr (procs s' a) = p_pptr (procs s a)"
    "last_pid s' = last_pid s" "next_safe s' = next_safe s"
proof -
  define s1 where "s1 = ring_link p s"
  define s2 where "s2 = family_link p s1"
  have h: "hash_ok s (set ts) bk" "task_ring s ts" "family_ok s (set ts) ch" using ok by (simp_all add: ptable_ok_def)
  have z: "p \<noteq> 0" "prev_task (procs s 0) \<noteq> p"
    using ring_last [OF h(2) [unfolded task_ring_def]] p last_in_set [of ts] by (auto split: if_splits)
  have r1: "task_ring s1 (ts @ [p])" unfolding s1_def by (rule ring_link_ok [OF h(2) p])
  have P1: "procs s1 a = (procs s a)\<lparr>next_task := next_task (procs s1 a), prev_task := prev_task (procs s1 a)\<rparr>" for a
    using z unfolding s1_def by (simp add: ring_link_procs)
  have F1: "pidhash_next (procs s1 a) = pidhash_next (procs s a)" "pidhash_pprev (procs s1 a) = pidhash_pprev (procs s a)"
    "p_osptr (procs s1 a) = p_osptr (procs s a)" "p_ysptr (procs s1 a) = p_ysptr (procs s a)" "p_cptr (procs s1 a) = p_cptr (procs s a)"
    "p_pptr (procs s1 a) = p_pptr (procs s a)" "pr_pid (procs s1 a) = pr_pid (procs s a)"
    "pr_pgrp (procs s1 a) = pr_pgrp (procs s a)" "pr_tgid (procs s1 a) = pr_tgid (procs s a)" "pr_session (procs s1 a) = pr_session (procs s a)" for a
    by (subst P1, simp)+
  have f1: "family_ok s1 (set ts) ch" "hash_ok s1 (set ts) bk"
    using h(1,3) hash_ok_cong [of s1 s] family_ok_cong [of s1 s] F1 by (simp_all add: s1_def)
  have q1: "p_pptr (procs s1 p) = q" using F1 q by simp
  have p1: "p \<notin> set ts" using p by simp
  note f2 = family_link_ok [OF f1(1) p1 q1 q(2), folded s2_def]
  have P2: "procs s2 a = (procs s1 a)\<lparr>p_cptr := p_cptr (procs s2 a), p_ysptr := p_ysptr (procs s2 a), p_osptr := p_osptr (procs s2 a)\<rparr>" for a
    using f2(2) q1 q(2) unfolding s2_def by (simp add: family_link_procs)
  have F2: "pidhash_next (procs s2 a) = pidhash_next (procs s1 a)" "pidhash_pprev (procs s2 a) = pidhash_pprev (procs s1 a)"
    "next_task (procs s2 a) = next_task (procs s1 a)" "prev_task (procs s2 a) = prev_task (procs s1 a)" "pr_pid (procs s2 a) = pr_pid (procs s1 a)"
    "pr_pgrp (procs s2 a) = pr_pgrp (procs s1 a)" "pr_tgid (procs s2 a) = pr_tgid (procs s1 a)" "pr_session (procs s2 a) = pr_session (procs s1 a)"
    "p_pptr (procs s2 a) = p_pptr (procs s1 a)" for a
    by (subst P2, simp)+
  have h2: "hash_ok s2 (set ts) bk" "task_ring s2 (ts @ [p])"
    using f1(2) r1 hash_ok_cong [of s2 s1] task_ring_cong [of s2 s1] F2 by (simp_all add: s2_def)
  have s': "s' = hash_pid p s2" by (simp add: s'_def s2_def s1_def SET_LINKS_def)
  have k2: "pid_hashfn (pr_pid (procs s2 p)) = k" by (simp add: k_def F1 F2)
  show pid: "pr_pid (procs s' a) = pr_pid (procs s a)" for a by (simp add: s' hash_pid_same F1 F2)
  show "pr_pgrp (procs s' a) = pr_pgrp (procs s a)" "pr_tgid (procs s' a) = pr_tgid (procs s a)"
    "pr_session (procs s' a) = pr_session (procs s a)" "p_pptr (procs s' a) = p_pptr (procs s a)"
    "last_pid s' = last_pid s" "next_safe s' = next_safe s"
    by (simp_all add: s' hash_pid_procs hash_pid_rest F1 F2) (simp_all add: s2_def s1_def)
  let ?s = "s'\<lparr>nr_threads := nr_threads s' + 1\<rparr>"
  have "hash_ok s' (set (ts @ [p])) (bk(k := p # bk k))" using hash_pid_ok [OF h2(1) p1] by (simp add: s' k2)
  moreover have "task_ring s' (ts @ [p])" using h2(2) task_ring_cong [of s' s2] by (simp add: s' hash_pid_same)
  moreover have "family_ok s' (set (ts @ [p])) (ch(q := p # ch q))"
    using f2(1) family_ok_cong [of s' s2 "insert p (set ts)"] by (simp add: s' hash_pid_same)
  moreover have "inj_on (\<lambda>a. pr_pid (procs s' a)) (set (ts @ [p]))"
    using ok new p1 by (auto simp: pid ptable_ok_def)
  moreover have "nr_threads s' = int (length ts)" using ok by (simp add: s' s2_def s1_def hash_pid_rest ptable_ok_def)
  ultimately show "ptable_ok ?s (ts @ [p]) (bk(k := p # bk k)) (ch(q := p # ch q))"
    using hash_ok_cong [of ?s s'] task_ring_cong [of ?s s'] family_ok_cong [of ?s s'] by (simp add: ptable_ok_def)
qed

lemma thread_add_same:
  "pr_pid (procs (thread_add p q s) a) = pr_pid (procs s a)" "pr_pgrp (procs (thread_add p q s) a) = pr_pgrp (procs s a)"
  "pr_tgid (procs (thread_add p q s) a) = pr_tgid (procs s a)" "pr_session (procs (thread_add p q s) a) = pr_session (procs s a)"
  "next_task (procs (thread_add p q s) a) = next_task (procs s a)" "prev_task (procs (thread_add p q s) a) = prev_task (procs s a)"
  "p_osptr (procs (thread_add p q s) a) = p_osptr (procs s a)" "p_ysptr (procs (thread_add p q s) a) = p_ysptr (procs s a)"
  "p_cptr (procs (thread_add p q s) a) = p_cptr (procs s a)" "p_pptr (procs (thread_add p q s) a) = p_pptr (procs s a)"
  "pidhash_next (procs (thread_add p q s) a) = pidhash_next (procs s a)" "pidhash_pprev (procs (thread_add p q s) a) = pidhash_pprev (procs s a)"
  by (subst thread_add_procs, simp)+

lemma child_parents_fields:
  assumes "cur \<noteq> p"
  shows "pr_pid (procs (child_parents fl cur p s) a) = pr_pid (procs s a)" "pr_pgrp (procs (child_parents fl cur p s) a) = pr_pgrp (procs s a)"
    "pr_session (procs (child_parents fl cur p s) a) = pr_session (procs s a)"
    "pr_tgid (procs (child_parents fl cur p s) a) = (if a = p then (if and fl CLONE_THREAD \<noteq> 0 then pr_tgid (procs s cur) else pr_pid (procs s p)) else pr_tgid (procs s a))"
    "next_task (procs (child_parents fl cur p s) a) = next_task (procs s a)" "prev_task (procs (child_parents fl cur p s) a) = prev_task (procs s a)"
    "p_osptr (procs (child_parents fl cur p s) a) = p_osptr (procs s a)" "p_ysptr (procs (child_parents fl cur p s) a) = p_ysptr (procs s a)"
    "p_cptr (procs (child_parents fl cur p s) a) = p_cptr (procs s a)"
    "p_pptr (procs (child_parents fl cur p s) a) = (if a = p then (if and fl CLONE_PARENT = 0 \<and> and (pr_ptrace (procs s p)) PT_PTRACED = 0 then cur else p_pptr (procs s cur)) else p_pptr (procs s a))"
    "pidhash_next (procs (child_parents fl cur p s) a) = pidhash_next (procs s a)" "pidhash_pprev (procs (child_parents fl cur p s) a) = pidhash_pprev (procs s a)"
    "pidhash (child_parents fl cur p s) = pidhash s" "nr_threads (child_parents fl cur p s) = nr_threads s"
    "last_pid (child_parents fl cur p s) = last_pid s" "next_safe (child_parents fl cur p s) = next_safe s"
  using assms by (simp_all add: child_parents_def Let_def thread_add_same)

text \<open>Writing the structure of a task that is not in the table yet.\<close>

lemma ptable_ok_new:
  assumes ok: "ptable_ok s ts bk ch" and p: "p \<notin> insert 0 (set ts)" and par: "\<forall>a \<in> set ts. p_pptr (procs s a) \<noteq> p" and x: "p_cptr x = None"
  shows "ptable_ok (upd p (\<lambda>_. x) s) ts bk ch"
proof -
  let ?s = "upd p (\<lambda>_. x) s"
  have h: "hash_ok s (set ts) bk" "task_ring s ts" "family_ok s (set ts) ch" using ok by (simp_all add: ptable_ok_def)
  have D: "dll (\<lambda>a. pidhash_next (procs s a)) (\<lambda>a. hback (pidhash_pprev (procs s a))) (pidhash s h) (bk h)"
    "set (bk h) = {a \<in> set ts. pid_hashfn (pr_pid (procs s a)) = h}"
    "a \<in> set (bk h) \<Longrightarrow> pidhash_pprev (procs s a) = Bucket j \<Longrightarrow> j = h" for h a j
    using h(1) unfolding hash_ok_def by blast+
  have pb: "p \<notin> set (bk h)" for h using D(2) p by auto
  have "dll (\<lambda>a. pidhash_next (procs ?s a)) (\<lambda>a. hback (pidhash_pprev (procs ?s a))) (pidhash s h) (bk h)" for h
    by (subst dll_cong [OF _, where nxt = "\<lambda>a. pidhash_next (procs s a)" and prv = "\<lambda>a. hback (pidhash_pprev (procs s a))"])
      (use pb D(1) in auto)
  then have 1: "dll (\<lambda>a. pidhash_next (procs ?s a)) (\<lambda>a. hback (pidhash_pprev (procs ?s a))) (pidhash ?s h) (bk h)" for h by simp
  have "{a \<in> set ts. pid_hashfn (pr_pid (procs ?s a)) = h} = {a \<in> set ts. pid_hashfn (pr_pid (procs s a)) = h}" for h
    using p by auto
  then have 2: "set (bk h) = {a \<in> set ts. pid_hashfn (pr_pid (procs ?s a)) = h}" for h using D(2) by simp
  have 3: "j = h" if "a \<in> set (bk h)" "pidhash_pprev (procs ?s a) = Bucket j" for a h j
    using that D(3) [of a h j] pb by (cases "a = p") auto
  have "hash_ok ?s (set ts) bk" unfolding hash_ok_def using 1 2 3 by blast
  moreover have "task_ring ?s ts"
    using h(2) p unfolding task_ring_def by (subst ring_cong [where nxt = "\<lambda>a. next_task (procs s a)" and prv = "\<lambda>a. prev_task (procs s a)"]) auto
  moreover have "family_ok ?s (set ts) ch"
  proof -
    note F = family_okD [OF h(3)]
    have pc: "p \<notin> set (ch a)" for a using F(2) p by auto
    have "set (ch p) = {}" unfolding F(2) using par by simp
    then have "ch p = []" by simp
    moreover have "dll (\<lambda>a. p_osptr (procs ?s a)) (\<lambda>a. p_ysptr (procs ?s a)) (p_cptr (procs s a)) (ch a)" for a
      by (subst dll_cong [OF _, where nxt = "\<lambda>a. p_osptr (procs s a)" and prv = "\<lambda>a. p_ysptr (procs s a)"]) (use pc F(1) in auto)
    ultimately have "dll (\<lambda>a. p_osptr (procs ?s a)) (\<lambda>a. p_ysptr (procs ?s a)) (p_cptr (procs ?s a)) (ch a)" for a
      using x by (cases "a = p") auto
    moreover have "set (ch a) = {y \<in> set ts. p_pptr (procs ?s y) = a}" for a
      unfolding F(2) using p by auto
    ultimately show ?thesis unfolding family_ok_def by blast
  qed
  moreover have "inj_on (\<lambda>a. pr_pid (procs ?s a)) (set ts)" using ok p by (auto simp: ptable_ok_def inj_on_def)
  ultimately show ?thesis using ok by (simp add: ptable_ok_def)
qed

text \<open>A forked task joins the ring, the hash table and the children of its parent.\<close>

lemma link_child_ok:
  assumes ok: "ptable_ok s ts bk ch" and p: "p \<notin> insert 0 (set ts)" and cur: "cur \<noteq> p" "p_pptr (procs s cur) \<noteq> p"
    and new: "\<forall>a \<in> set ts. pr_pid (procs s a) \<noteq> pr_pid (procs s p)"
  obtains bk' ch' q where "ptable_ok (link_child fl cur p s) (ts @ [p]) bk' ch'" "q = p_pptr (procs (child_parents fl cur p s) p)"
    "ch' = ch(q := p # ch q)" "\<forall>a. pr_pid (procs (link_child fl cur p s) a) = pr_pid (procs s a)"
    "\<forall>a. pr_pgrp (procs (link_child fl cur p s) a) = pr_pgrp (procs s a) \<and> pr_session (procs (link_child fl cur p s) a) = pr_session (procs s a) \<and>
      pr_tgid (procs (link_child fl cur p s) a) =
        (if a = p then (if and fl CLONE_THREAD \<noteq> 0 then pr_tgid (procs s cur) else pr_pid (procs s p)) else pr_tgid (procs s a)) \<and>
      (a \<noteq> p \<longrightarrow> p_pptr (procs (link_child fl cur p s) a) = p_pptr (procs s a)) \<and>
      p_pptr (procs (link_child fl cur p s) p) \<in> {cur, p_pptr (procs s cur)}"
    "last_pid (link_child fl cur p s) = last_pid s" "next_safe (link_child fl cur p s) = next_safe s"
proof -
  let ?s = "child_parents fl cur p s"
  note F = child_parents_fields [OF cur(1)]
  have "family_ok ?s (set ts) ch = family_ok s (set ts) ch" using p by (intro family_ok_cong) (auto simp: F)
  then have "task_ring ?s ts" "hash_ok ?s (set ts) bk" "family_ok ?s (set ts) ch"
    using ok task_ring_cong [of ?s s ts] hash_ok_cong [of ?s s "set ts" bk] by (simp_all add: F ptable_ok_def)
  then have ok': "ptable_ok ?s ts bk ch" using ok by (simp add: ptable_ok_def F)
  have q: "p_pptr (procs ?s p) \<noteq> p" using cur by (simp add: F)
  have new': "\<forall>a \<in> set ts. pr_pid (procs ?s a) \<noteq> pr_pid (procs ?s p)" using new by (simp add: F)
  note L = link_ok [OF ok' p refl q new']
  show thesis
    by (rule that [OF _ refl refl]) (use L(1) in \<open>simp_all add: link_child_def Let_def L(2-8) F\<close>)
qed

end
