(* ===== verification/Process_Pid.thy ===== *)
theory Process_Pid
  imports Process_Inv
begin

text \<open>
  The choice of a process id: \<^verbatim>\<open>get_pid\<close> gives an id that no task has as its process id, process group,
  thread group or session, as long as there is one to give; and what it does when there is none.
\<close>

definition ids :: "proc \<Rightarrow> int set" where
  "ids p = {pr_pid p, pr_pgrp p, pr_tgid p, pr_session p}"

definition used :: "ptable \<Rightarrow> int list \<Rightarrow> int set" where
  "used s ts = (\<Union>a \<in> set ts. ids (procs s a))"

lemma pid_clash_ids: "pid_clash p n \<longleftrightarrow> n \<in> ids p"
  by (auto simp: pid_clash_def ids_def)

text \<open>Every id in use is at most the last one given or at least the next safe one.\<close>

definition pid_inv :: "ptable \<Rightarrow> int list \<Rightarrow> bool" where
  "pid_inv s ts \<longleftrightarrow> 0 \<le> last_pid s \<and> last_pid s < PID_MAX \<and> next_safe s \<le> PID_MAX \<and>
     (\<forall>x \<in> used s ts. x \<le> last_pid s \<or> next_safe s \<le> x)"

lemma pid_high_iff:
  assumes "0 \<le> x" "x < 2147483648"
  shows "pid_high x \<longleftrightarrow> PID_MAX \<le> x"
proof -
  have "u32 x = take_bit 32 x" by (simp add: u32_def take_bit_eq_mod)
  moreover have x: "take_bit 32 x = x" using assms by (simp add: take_bit_eq_mod)
  moreover have "and (take_bit 32 x) 0xffff8000 = and (take_bit 32 x) (not (mask 15))"
  proof -
    have "(0xffff8000 :: int) = and (mask 32) (not (mask 15))" by code_simp
    then have "and (take_bit 32 x) 0xffff8000 = and (and (take_bit 32 x) (mask 32)) (not (mask 15))" by (simp add: and.assoc)
    then show ?thesis by (simp add: take_bit_eq_mask [symmetric])
  qed
  moreover have "and x (not (mask 15)) = 0 \<longleftrightarrow> take_bit 15 x = x"
  proof -
    have "x = or (and x (mask 15)) (and x (not (mask 15)))" by (simp flip: bit.conj_disj_distrib)
    then have "and x (not (mask 15)) = 0 \<Longrightarrow> take_bit 15 x = x" by (simp add: take_bit_eq_mask)
    moreover have "and x (not (mask 15)) = 0" if "take_bit 15 x = x"
    proof -
      have "and x (not (mask 15)) = and (and x (mask 15)) (not (mask 15))" using that by (simp add: take_bit_eq_mask)
      then show ?thesis by (simp add: and.assoc)
    qed
    ultimately show ?thesis by blast
  qed
  ultimately have "pid_high x \<longleftrightarrow> take_bit 15 x \<noteq> x" by (simp add: pid_high_def)
  also have "\<dots> \<longleftrightarrow> PID_MAX \<le> x" using assms by (auto simp: take_bit_int_eq_self_iff)
  finally show ?thesis .
qed

subsection \<open>The scan of the tasks\<close>

fun scan_list :: "ptable \<Rightarrow> int list \<Rightarrow> int \<Rightarrow> int \<Rightarrow> bool \<times> int" where
  "scan_list s [] lp ns = (False, ns)"
| "scan_list s (a # as) lp ns =
     (if lp \<in> ids (procs s a) then (True, ns) else scan_list s as lp (lower_safe (procs s a) lp ns))"

lemma scan_tasks_list:
  assumes "task_ring s ts"
  shows "scan_tasks s 0 lp ns = Some (scan_list s ts lp ns)"
proof -
  let ?n = "\<lambda>a. next_task (procs s a)"
  have "lseg (Some \<circ> ?n) prv b (Some (?n p)) xs (Some 0) l \<Longrightarrow> 0 \<notin> set xs \<Longrightarrow>
    scan_tasks s p lp ns = Some (scan_list s xs lp ns)" for prv b p xs l ns
    by (induction xs arbitrary: b p ns) (subst scan_tasks.simps, auto simp: pid_clash_ids)+
  then show ?thesis using assms by (auto simp: task_ring_def ring_def)
qed

lemma lower_safe_bounds:
  "lower_safe p lp ns \<le> ns" "lp < ns \<Longrightarrow> lp < lower_safe p lp ns" "x \<in> ids p \<Longrightarrow> lp < x \<Longrightarrow> lower_safe p lp ns \<le> x"
  by (auto simp: lower_safe_def Let_def ids_def)

lemma scan_list_result:
  assumes "scan_list s ts lp ns = (c, ns')" "lp < ns"
  shows "c \<longleftrightarrow> lp \<in> used s ts" "ns' \<le> ns" "lp < ns'" "\<not> c \<Longrightarrow> x \<in> used s ts \<Longrightarrow> x \<le> lp \<or> ns' \<le> x"
proof -
  have "(c \<longleftrightarrow> lp \<in> used s ts) \<and> ns' \<le> ns \<and> lp < ns' \<and> (\<not> c \<longrightarrow> (\<forall>x \<in> used s ts. x \<le> lp \<or> ns' \<le> x))"
    using assms
  proof (induction ts arbitrary: ns)
    case (Cons a ts)
    show ?case
    proof (cases "lp \<in> ids (procs s a)")
      case False
      let ?ns = "lower_safe (procs s a) lp ns"
      have IH: "(c \<longleftrightarrow> lp \<in> used s ts) \<and> ns' \<le> ?ns \<and> lp < ns' \<and> (\<not> c \<longrightarrow> (\<forall>x \<in> used s ts. x \<le> lp \<or> ns' \<le> x))"
        using Cons.IH [of ?ns] Cons.prems False lower_safe_bounds(2) [of lp ns] by simp
      moreover have "x \<le> lp \<or> ns' \<le> x" if "x \<in> ids (procs s a)" for x
        using lower_safe_bounds(3) [OF that, of lp ns] IH by linarith
      moreover have "used s (a # ts) = ids (procs s a) \<union> used s ts" by (simp add: used_def)
      ultimately show ?thesis using False lower_safe_bounds(1) [of "procs s a" lp ns] by auto
    qed (use Cons in \<open>auto simp: used_def\<close>)
  qed (auto simp: used_def)
  then show "c \<longleftrightarrow> lp \<in> used s ts" "ns' \<le> ns" "lp < ns'" "\<not> c \<Longrightarrow> x \<in> used s ts \<Longrightarrow> x \<le> lp \<or> ns' \<le> x" by blast+
qed

subsection \<open>The search\<close>

text \<open>The id that is tried after \<open>lp\<close>.\<close>

definition succ_pid :: "int \<Rightarrow> int" where
  "succ_pid lp = (if lp + 1 = PID_MAX then 300 else lp + 1)"

lemma pid_repeat_step:
  assumes ring: "task_ring s ts" and lp: "0 \<le> lp" "lp < ns" "ns \<le> PID_MAX"
  shows "lp \<notin> used s ts \<Longrightarrow> \<exists>ns'. pid_repeat s b lp ns = Some (lp, lp, ns') \<and> lp < ns' \<and> ns' \<le> PID_MAX \<and>
      (\<forall>x \<in> used s ts. x \<le> lp \<or> ns' \<le> x)"
    "lp \<in> used s ts \<Longrightarrow> \<exists>ns'. succ_pid lp < ns' \<and> ns' \<le> PID_MAX \<and>
      pid_repeat s b lp ns = (if succ_pid lp = b then Some (0, b, ns') else pid_repeat s b (succ_pid lp) ns')"
proof -
  obtain c ns1 where c: "scan_list s ts lp ns = (c, ns1)" by (cases "scan_list s ts lp ns")
  note R = scan_list_result [OF c lp(2)]
  have step: "pid_repeat s b lp ns = (if c then
         let lp1 = lp + 1; lp2 = (if lp1 \<ge> ns1 then (if pid_high lp1 then 300 else lp1) else lp1);
             ns2 = (if lp1 \<ge> ns1 then PID_MAX else ns1)
         in if lp2 = b then Some (0, lp2, ns2) else pid_repeat s b lp2 ns2
       else Some (lp, lp, ns1))"
    using scan_tasks_list [OF ring, of lp ns] c by (subst pid_repeat.simps) simp
  show "lp \<notin> used s ts \<Longrightarrow> \<exists>ns'. pid_repeat s b lp ns = Some (lp, lp, ns') \<and> lp < ns' \<and> ns' \<le> PID_MAX \<and>
      (\<forall>x \<in> used s ts. x \<le> lp \<or> ns' \<le> x)"
    using step R lp by auto
  have high: "pid_high (lp + 1) \<longleftrightarrow> lp + 1 = PID_MAX" using lp pid_high_iff [of "lp + 1"] by auto
  have succ: "succ_pid lp < PID_MAX" using lp by (auto simp: succ_pid_def)
  show "\<exists>ns'. succ_pid lp < ns' \<and> ns' \<le> PID_MAX \<and>
      pid_repeat s b lp ns = (if succ_pid lp = b then Some (0, b, ns') else pid_repeat s b (succ_pid lp) ns')" if "lp \<in> used s ts"
  proof (cases "lp + 1 \<ge> ns1")
    case True
    then show ?thesis using step that R(1) succ by (intro exI [of _ PID_MAX]) (auto simp: high succ_pid_def Let_def)
  next
    case False
    then have "succ_pid lp = lp + 1" using R(2) lp by (simp add: succ_pid_def)
    then show ?thesis using step that R(1,2) lp False by (intro exI [of _ ns1]) (auto simp: Let_def)
  qed
qed

text \<open>How many ids are tried before \<open>f\<close>.\<close>

definition pid_dist :: "int \<Rightarrow> int \<Rightarrow> nat" where
  "pid_dist lp f = (if lp \<le> f then nat (f - lp) else nat (PID_MAX - lp + f - 300))"

lemma succ_pid_dist:
  assumes "0 \<le> lp" "lp < PID_MAX" "300 \<le> f" "f < PID_MAX" "lp \<noteq> f"
  shows "pid_dist (succ_pid lp) f < pid_dist lp f" "0 \<le> succ_pid lp" "succ_pid lp < PID_MAX"
  using assms by (auto simp: pid_dist_def succ_pid_def)

text \<open>What an answer means: a free id with the ids behind it known, or no id.\<close>

definition good_answer :: "ptable \<Rightarrow> int list \<Rightarrow> int \<times> int \<times> int \<Rightarrow> bool" where
  "good_answer s ts r \<longleftrightarrow> (case r of (pd, lp, ns) \<Rightarrow> 0 \<le> lp \<and> lp < PID_MAX \<and> ns \<le> PID_MAX \<and>
     (pd = 0 \<or> pd = lp \<and> pd \<notin> used s ts \<and> (\<forall>x \<in> used s ts. x \<le> lp \<or> ns \<le> x)))"

lemma pid_repeat_good:
  assumes ring: "task_ring s ts" and r: "pid_repeat s b lp ns = Some r" and lp: "0 \<le> lp" "lp < ns" "ns \<le> PID_MAX"
  shows "good_answer s ts r"
proof -
  define P where "P s b lp ns r \<longleftrightarrow> (task_ring s ts \<longrightarrow> 0 \<le> lp \<longrightarrow> lp < ns \<longrightarrow> ns \<le> PID_MAX \<longrightarrow> good_answer s ts r)"
    for s and b lp ns :: int and r
  have "P s b lp ns r"
  proof (rule pid_repeat.raw_induct [OF _ r], unfold P_def, intro impI)
    fix rec s b lp ns r
    assume IH: "\<And>s b lp ns r. rec s b lp ns = Some r \<Longrightarrow>
        task_ring s ts \<longrightarrow> 0 \<le> lp \<longrightarrow> lp < ns \<longrightarrow> ns \<le> PID_MAX \<longrightarrow> good_answer s ts r"
      and body: "Option.bind (scan_tasks s 0 lp ns) (\<lambda>(clash, ns1).
         if clash then
           let lp1 = lp + 1; lp2 = (if lp1 \<ge> ns1 then (if pid_high lp1 then 300 else lp1) else lp1);
               ns2 = (if lp1 \<ge> ns1 then PID_MAX else ns1)
           in if lp2 = b then Some (0, lp2, ns2) else rec s b lp2 ns2
         else Some (lp, lp, ns1)) = Some r"
      and ring: "task_ring s ts" and lp: "0 \<le> lp" "lp < ns" "ns \<le> PID_MAX"
    obtain c ns1 where c: "scan_list s ts lp ns = (c, ns1)" by (cases "scan_list s ts lp ns")
    note R = scan_list_result [OF c lp(2)]
    have high: "pid_high (lp + 1) \<longleftrightarrow> lp + 1 = PID_MAX" using lp pid_high_iff [of "lp + 1"] by auto
    show "good_answer s ts r"
    proof (cases c)
      case False
      then show ?thesis using R c scan_tasks_list [OF ring, of lp ns] body lp by (auto simp: good_answer_def)
    next
      case True
      define lp2 where "lp2 = succ_pid lp"
      define ns2 where "ns2 = (if lp + 1 \<ge> ns1 then PID_MAX else ns1)"
      have lp2: "lp2 = (if lp + 1 \<ge> ns1 then (if pid_high (lp + 1) then 300 else lp + 1) else lp + 1)"
        using R(2) lp by (auto simp: lp2_def succ_pid_def high)
      have b: "0 \<le> lp2" "lp2 < ns2" "ns2 \<le> PID_MAX" using lp R(2) by (auto simp: lp2_def ns2_def succ_pid_def)
      have "(if lp2 = b then Some (0, lp2, ns2) else rec s b lp2 ns2) = Some r"
        using body [unfolded scan_tasks_list [OF ring] c] True
        unfolding lp2 ns2_def by (simp only: Let_def Option.bind.simps prod.case if_True)
      then show ?thesis using IH [of s b lp2 ns2 r] ring b by (auto simp: good_answer_def split: if_splits)
    qed
  qed
  then show ?thesis using ring lp by (simp add: P_def)
qed

text \<open>With a free id from 300 on that is not the one the search began from, the search finds one.\<close>

definition on_path :: "int \<Rightarrow> int \<Rightarrow> int \<Rightarrow> bool" where
  "on_path lp f x \<longleftrightarrow> (if lp \<le> f then lp < x \<and> x \<le> f else lp < x \<or> 300 \<le> x \<and> x \<le> f)"

lemma pid_repeat_finds:
  assumes ring: "task_ring s ts" and f: "300 \<le> f" "f < PID_MAX" "f \<notin> used s ts"
    and lp: "0 < lp" "lp < ns" "ns \<le> PID_MAX" and b: "b < PID_MAX" "\<not> on_path lp f b"
  shows "\<exists>pd lp' ns'. pid_repeat s b lp ns = Some (pd, lp', ns') \<and> 0 < pd"
  using lp b
proof (induction "pid_dist lp f" arbitrary: lp ns rule: less_induct)
  case less
  then have lp0: "0 \<le> lp" by simp
  show ?case
  proof (cases "lp \<in> used s ts")
    case False
    then show ?thesis using pid_repeat_step(1) [OF ring lp0 less.prems(2,3)] less.prems(1) by blast
  next
    case True
    then have ne: "lp \<noteq> f" using f(3) by blast
    obtain ns' where ns': "succ_pid lp < ns'" "ns' \<le> PID_MAX"
      "pid_repeat s b lp ns = (if succ_pid lp = b then Some (0, b, ns') else pid_repeat s b (succ_pid lp) ns')"
      using pid_repeat_step(2) [OF ring lp0 less.prems(2,3) True] by blast
    have lt: "lp < PID_MAX" using less.prems by simp
    note D = succ_pid_dist [OF lp0 lt f(1,2) ne]
    have "0 < succ_pid lp" using lp0 by (simp add: succ_pid_def)
    note IH = less.hyps [OF D(1) this ns'(1,2) less.prems(4)]
    have "succ_pid lp \<noteq> b" "\<not> on_path (succ_pid lp) f b"
      using less.prems lt ne f(1,2) by (auto simp: on_path_def succ_pid_def split: if_splits)
    then show ?thesis using IH ns'(3) by simp
  qed
qed

subsection \<open>\<^verbatim>\<open>get_pid\<close>\<close>

lemma used_pid_fields [simp]: "used (s\<lparr>last_pid := x, next_safe := y\<rparr>) ts = used s ts" "used (s\<lparr>last_pid := x\<rparr>) ts = used s ts"
  by (simp_all add: used_def)

lemma get_pid_sound:
  assumes ring: "task_ring s ts" and inv: "pid_inv s ts" and fl: "and fl CLONE_PID = 0" and r: "get_pid fl cur s = Some (pd, s')"
  shows "\<exists>lp ns. s' = s\<lparr>last_pid := lp, next_safe := ns\<rparr>" "pd \<noteq> 0 \<Longrightarrow> 0 < pd \<and> pd < PID_MAX \<and> pd \<notin> used s ts \<and> last_pid s' = pd \<and> pid_inv s' ts"
proof -
  let ?lp = "last_pid s + 1"
  have lp: "0 \<le> last_pid s" "last_pid s < PID_MAX" "next_safe s \<le> PID_MAX" "\<forall>x \<in> used s ts. x \<le> last_pid s \<or> next_safe s \<le> x"
    using inv by (auto simp: pid_inv_def)
  have high: "pid_high ?lp \<longleftrightarrow> ?lp = PID_MAX" using lp pid_high_iff [of ?lp] by auto
  have "(\<exists>lp ns. s' = s\<lparr>last_pid := lp, next_safe := ns\<rparr>) \<and>
    (pd \<noteq> 0 \<longrightarrow> 0 < pd \<and> pd < PID_MAX \<and> pd \<notin> used s ts \<and> last_pid s' = pd \<and> pid_inv s' ts)"
  proof (cases "pid_high ?lp \<or> ?lp \<ge> next_safe s")
    case False
    then have e: "pd = ?lp \<and> s' = s\<lparr>last_pid := ?lp\<rparr>" using r fl by (auto simp: get_pid_def Let_def)
    have "s' = s\<lparr>last_pid := ?lp, next_safe := next_safe s\<rparr>" using e by simp
    then have "\<exists>lp ns. s' = s\<lparr>last_pid := lp, next_safe := ns\<rparr>" by blast
    moreover have "?lp \<notin> used s ts" using lp(4) False by force
    moreover have "\<forall>x \<in> used s ts. x \<le> ?lp \<or> next_safe s \<le> x" using lp(4) by force
    ultimately show ?thesis using e lp(1-3) False high by (auto simp: pid_inv_def)
  next
    case True
    define st where "st = (if pid_high ?lp then 300 else ?lp)"
    have st: "0 \<le> st" "st < PID_MAX" using lp high by (auto simp: st_def)
    obtain lp1 ns1 where p: "pid_repeat s (last_pid s) st PID_MAX = Some (pd, lp1, ns1)" "s' = s\<lparr>last_pid := lp1, next_safe := ns1\<rparr>"
      using r fl True by (auto simp: get_pid_def st_def [symmetric] Let_def split: Option.bind_splits if_splits)
    have "good_answer s ts (pd, lp1, ns1)" using pid_repeat_good [OF ring p(1)] st by simp
    then show ?thesis using p(2) by (auto simp: good_answer_def pid_inv_def)
  qed
  then show "\<exists>lp ns. s' = s\<lparr>last_pid := lp, next_safe := ns\<rparr>" "pd \<noteq> 0 \<Longrightarrow> 0 < pd \<and> pd < PID_MAX \<and> pd \<notin> used s ts \<and> last_pid s' = pd \<and> pid_inv s' ts"
    by blast+
qed

lemma get_pid_finds:
  assumes ring: "task_ring s ts" and inv: "pid_inv s ts" and fl: "and fl CLONE_PID = 0"
    and f: "300 \<le> f" "f < PID_MAX" "f \<notin> used s ts" "f \<noteq> last_pid s"
  shows "\<exists>pd s'. get_pid fl cur s = Some (pd, s') \<and> pd \<noteq> 0"
proof (cases "pid_high (last_pid s + 1) \<or> last_pid s + 1 \<ge> next_safe s")
  case False
  then show ?thesis using fl inv by (simp add: get_pid_def pid_inv_def Let_def)
next
  case True
  define st where "st = (if pid_high (last_pid s + 1) then 300 else last_pid s + 1)"
  have lp: "0 \<le> last_pid s" "last_pid s < PID_MAX" using inv by (auto simp: pid_inv_def)
  have high: "pid_high (last_pid s + 1) \<longleftrightarrow> last_pid s + 1 = PID_MAX" using lp pid_high_iff [of "last_pid s + 1"] by auto
  have st: "0 < st" "st < PID_MAX" using lp high by (auto simp: st_def)
  have "\<not> on_path st f (last_pid s)" using lp high f by (auto simp: on_path_def st_def)
  then obtain pd lp' ns' where p: "pid_repeat s (last_pid s) st PID_MAX = Some (pd, lp', ns')" "0 < pd"
    using pid_repeat_finds [OF ring f(1-3), of st PID_MAX "last_pid s"] st lp by auto
  then show ?thesis using True fl by (simp add: get_pid_def st_def [symmetric] Let_def)
qed

subsection \<open>Running out of process ids\<close>

text \<open>A table in which the tasks 300 to 32767, in this order, have all the ids that can be given.\<close>

definition full_table :: "int \<Rightarrow> ptable" where
  "full_table b =
     \<lparr>procs = (\<lambda>a. \<lparr>pr_pid = a, pr_pgrp = a, pr_tgid = a, pr_session = a, pr_exit_code = 0, pr_exit_signal = 17,
        pr_ptrace = 0, pr_flags = 0, self_exec_id = 0, parent_exec_id = 0,
        next_task = (if a = 0 then 300 else if a = 32767 then 0 else a + 1),
        prev_task = (if a = 0 then 32767 else if a = 300 then 0 else a - 1),
        p_opptr = 0, p_pptr = 0, p_cptr = None, p_ysptr = None, p_osptr = None, thread_next = a, thread_prev = a,
        pidhash_next = None, pidhash_pprev = Bucket 0\<rparr>),
      pidhash = (\<lambda>_. None), nr_threads = 32468, last_pid = b, next_safe = b + 1\<rparr>"

definition full_list :: "int list" where
  "full_list = [300..32767]"

declare upto_rec_numeral [simp del]

lemma full_ids: "ids (procs (full_table b) a) = {a}"
  by (simp add: full_table_def ids_def)

lemma full_used: "used (full_table b) full_list = {300..32767}"
  by (auto simp: used_def full_ids full_list_def)

lemma full_ring: "task_ring (full_table b) full_list"
proof -
  let ?n = "\<lambda>a. next_task (procs (full_table b) a)" and ?b = "\<lambda>a. prev_task (procs (full_table b) a)"
  have "lseg (Some \<circ> ?n) (Some \<circ> ?b) (Some (if k = 300 then 0 else k - 1)) (Some k) [k..32767] (Some 0) (Some 32767)"
    if "300 \<le> k" "k \<le> 32767" for k
    using that
  proof (induction "nat (32767 - k)" arbitrary: k)
    case 0
    then show ?case by (simp add: full_table_def)
  next
    case (Suc n)
    then have k: "k + 1 \<le> 32767" by linarith
    then have "lseg (Some \<circ> ?n) (Some \<circ> ?b) (Some k) (Some (k + 1)) [k + 1..32767] (Some 0) (Some 32767)"
      using Suc.hyps(1) [of "k + 1"] Suc.hyps(2) Suc.prems by auto
    moreover have "[k..32767] = k # [k + 1..32767]" using Suc.prems upto_rec1 by blast
    moreover have "?n k = k + 1" "?b k = (if k = 300 then 0 else k - 1)" using k Suc.prems by (auto simp: full_table_def)
    ultimately show ?case by simp
  qed
  from this [of 300] have "lseg (Some \<circ> ?n) (Some \<circ> ?b) (Some 0) (Some 300) [300..32767] (Some 0) (Some 32767)" by simp
  moreover have "?n 0 = 300" "?b 0 = 32767" by (simp_all add: full_table_def)
  ultimately show ?thesis by (simp add: task_ring_def ring_def full_list_def)
qed

lemma full_inv: "0 \<le> b \<Longrightarrow> b < 32768 \<Longrightarrow> pid_inv (full_table b) full_list"
  by (auto simp: pid_inv_def full_used) (auto simp: full_table_def)

lemma full_scan:
  assumes "k \<le> lp" "lp \<le> n" "\<And>a. ids (procs s a) = {a}"
  shows "scan_list s [k..n] lp ns = (True, ns)"
  using assms(1,2)
proof (induction "nat (lp - k)" arbitrary: k)
  case 0
  then have "k = lp" by simp
  then show ?case using assms(2,3) by (simp add: upto_rec1)
next
  case (Suc m)
  then have "k < lp" by linarith
  have f: "pr_pid (procs s k) = k" "pr_pgrp (procs s k) = k" "pr_tgid (procs s k) = k" "pr_session (procs s k) = k"
    using assms(3) [of k] by (auto simp: ids_def)
  have "scan_list s [k + 1..n] lp ns = (True, ns)" using Suc.hyps(1) [of "k + 1"] Suc.hyps(2) Suc.prems \<open>k < lp\<close> by auto
  then show ?case using \<open>k < lp\<close> Suc.prems assms(3) by (simp add: upto_rec1 lower_safe_def Let_def f)
qed

lemma full_repeat:
  assumes "300 \<le> b" "b < 32768" "300 \<le> lp" "lp < 32768" "lp \<noteq> b"
  shows "pid_repeat (full_table c) b lp 32768 = Some (0, b, 32768)"
  using assms(3-5)
proof (induction "pid_dist lp b" arbitrary: lp rule: less_induct)
  case less
  have "scan_tasks (full_table c) 0 lp 32768 = Some (True, 32768)"
    using scan_tasks_list [OF full_ring, of c lp 32768] full_scan [of 300 lp 32767 "full_table c"] less.prems full_ids by (simp add: full_list_def)
  moreover have "pid_high (lp + 1) \<longleftrightarrow> lp + 1 = 32768" using less.prems pid_high_iff [of "lp + 1"] by auto
  ultimately have "pid_repeat (full_table c) b lp 32768 =
      (if succ_pid lp = b then Some (0, b, 32768) else pid_repeat (full_table c) b (succ_pid lp) 32768)"
    using less.prems by (subst pid_repeat.simps) (auto simp: succ_pid_def Let_def)
  moreover have "pid_dist (succ_pid lp) b < pid_dist lp b" "300 \<le> succ_pid lp" "succ_pid lp < 32768"
    using succ_pid_dist [of lp b] less.prems assms by (auto simp: succ_pid_def)
  ultimately show ?case using less.hyps [of "succ_pid lp"] by auto
qed

text \<open>
  The first call finds out that there is no id, but leaves \<^verbatim>\<open>next_safe\<close> at its largest value; the
  second call trusts it and gives an id that a task has.
\<close>

lemma get_pid_repeats:
  assumes "300 \<le> b" "b < 32767"
  shows "get_pid 0 0 (full_table b) = Some (0, (full_table b)\<lparr>next_safe := 32768\<rparr>)"
    "\<exists>s'. get_pid 0 0 ((full_table b)\<lparr>next_safe := 32768\<rparr>) = Some (b + 1, s')"
proof -
  have l: "last_pid (full_table b) = b" "next_safe (full_table b) = b + 1" by (simp_all add: full_table_def)
  have h: "\<not> pid_high (b + 1)" using pid_high_iff [of "b + 1"] assms by simp
  have "pid_repeat (full_table b) b (b + 1) 32768 = Some (0, b, 32768)" using full_repeat [of b "b + 1" b] assms by simp
  moreover have "(full_table b)\<lparr>last_pid := b, next_safe := 32768\<rparr> = (full_table b)\<lparr>next_safe := 32768\<rparr>" by (simp add: full_table_def)
  ultimately show "get_pid 0 0 (full_table b) = Some (0, (full_table b)\<lparr>next_safe := 32768\<rparr>)"
    using h unfolding get_pid_def l Let_def by simp
  have "get_pid 0 0 ((full_table b)\<lparr>next_safe := 32768\<rparr>) = Some (b + 1, (full_table b)\<lparr>next_safe := 32768, last_pid := b + 1\<rparr>)"
    using h assms by (simp add: get_pid_def l Let_def)
  then show "\<exists>s'. get_pid 0 0 ((full_table b)\<lparr>next_safe := 32768\<rparr>) = Some (b + 1, s')" by blast
qed

end
