(* ===== verification/Policy_Log.thy ===== *)
theory Policy_Log
  imports Kernel_Prelude
begin

text \<open>
  The forbidden-activity log of one process: the ring buffer \<^verbatim>\<open>struct log_array\<close> that the
  hooks in \<^verbatim>\<open>do_fork\<close>, \<^verbatim>\<open>sys_wait4\<close> and \<^verbatim>\<open>sys_sched_yield\<close> write and \<^verbatim>\<open>sys_get_process_log\<close>
  reads. \<open>log_list\<close> abstracts it to the list of records it holds, oldest first, and the
  lemmas show which operation is which list operation.
\<close>

named_theorems log_defs \<open>definitions of the ring buffer operations\<close>

subsection \<open>Data (kernel/hw1_syscalls.c)\<close>

text \<open>
  A pointer is null, an address, or (memory from \<^verbatim>\<open>kmalloc\<close> that nobody has written) an
  uninitialised word.
\<close>

datatype ptr = NULL | Ptr nat | Uninit

record forbidden_activity_info =
  syscall_req_level :: int
  proc_level :: int
  time :: int

record log_array =
  indexWrite :: int
  indexRead :: int
  lsize :: int
  full :: int
  larray :: ptr

text \<open>
  The records live in a separate object. An element is \<open>None\<close> until a hook has written
  it: \<^verbatim>\<open>kmalloc\<close> does not clear memory.
\<close>

type_synonym log_buf = "forbidden_activity_info option list"

subsection \<open>Operations\<close>

text \<open>The body shared by the three hooks: store one record, advance, note that it is full.\<close>

definition log_write ::
  "forbidden_activity_info \<Rightarrow> log_array \<Rightarrow> log_buf \<Rightarrow> (log_array \<times> log_buf) kres" where
  [log_defs]: "log_write rec la buf =
     (if 0 \<le> indexWrite la \<and> indexWrite la < int (length buf) then
        let buf1 = buf[nat (indexWrite la) := Some rec];
            la1 = la\<lparr>indexWrite := indexWrite la + 1\<rparr>;
            la2 = (if indexWrite la1 = lsize la1 then la1\<lparr>indexWrite := 0\<rparr> else la1);
            la3 = (if indexWrite la2 = indexRead la2 then la2\<lparr>full := 1\<rparr> else la2)
        in Inr (la3, buf1)
      else Inl OutOfRange)"

text \<open>The admission checks of \<^verbatim>\<open>sys_get_process_log\<close>: may \<open>n\<close> records be copied?\<close>

definition log_can_read :: "int \<Rightarrow> log_array \<Rightarrow> bool" where
  [log_defs]: "log_can_read n la =
     (if n > lsize la \<or> n < 0 then False
      else if full la \<noteq> 1 then
        (if indexWrite la = indexRead la \<and> n > 0 then False
         else if indexWrite la \<ge> indexRead la then \<not> (indexWrite la - indexRead la < n)
         else \<not> (lsize la - indexRead la + indexWrite la < n))
      else True)"

text \<open>
  The copy loop: \<open>k\<close> iterations are left, \<open>tmp\<close> holds the elements copied so far into a
  temporary array with room for \<open>room\<close> elements.
\<close>

fun log_copy :: "nat \<Rightarrow> nat \<Rightarrow> log_array \<Rightarrow> log_buf \<Rightarrow> log_buf \<Rightarrow> (log_array \<times> log_buf) kres" where
  "log_copy 0 room la buf tmp = Inr (la, tmp)"
| "log_copy (Suc k) room la buf tmp =
     (if length tmp < room \<and> 0 \<le> indexRead la \<and> indexRead la < int (length buf) then
        let tmp1 = tmp @ [buf ! nat (indexRead la)];
            la1 = la\<lparr>indexRead := indexRead la + 1\<rparr>;
            la2 = (if indexRead la1 = lsize la1 then la1\<lparr>indexRead := 0\<rparr> else la1)
        in log_copy k room la2 buf tmp1
      else Inl OutOfRange)"

text \<open>What a successful read does to the indexes afterwards.\<close>

definition log_consume :: "int \<Rightarrow> log_array \<Rightarrow> log_array" where
  [log_defs]: "log_consume n la =
     (let la1 = la\<lparr>full := 0\<rparr>
      in if n = lsize la1 then la1\<lparr>indexWrite := 0, indexRead := 0\<rparr> else la1)"

subsection \<open>Abstraction and invariant\<close>

definition log_count :: "log_array \<Rightarrow> int" where
  "log_count la = (if full la = 1 then lsize la else (indexWrite la - indexRead la) mod lsize la)"

definition log_list :: "log_array \<Rightarrow> log_buf \<Rightarrow> log_buf" where
  "log_list la buf =
     map (\<lambda>i. buf ! nat ((indexRead la + int i) mod lsize la)) [0..<nat (log_count la)]"

definition log_inv :: "log_array \<Rightarrow> log_buf \<Rightarrow> bool" where
  "log_inv la buf \<longleftrightarrow>
     0 < lsize la \<and> lsize la = int (length buf) \<and>
     0 \<le> indexRead la \<and> indexRead la < lsize la \<and>
     0 \<le> indexWrite la \<and> indexWrite la < lsize la \<and>
     (full la = 0 \<or> full la = 1) \<and>
     None \<notin> set (log_list la buf)"

text \<open>
  The log has never lost a record: the situation the comment in the hooks assumes
  (\<^emph>\<open>``assuming that the size of the log array is large enough''\<close>).
\<close>

definition log_exact :: "log_array \<Rightarrow> bool" where
  "log_exact la \<longleftrightarrow> (full la = 1 \<longrightarrow> indexWrite la = indexRead la)"

lemma log_count_range:
  assumes "log_inv la buf"
  shows "0 \<le> log_count la" "log_count la \<le> lsize la"
  using assms pos_mod_bound [of "lsize la" "indexWrite la - indexRead la"]
  by (auto simp: log_count_def log_inv_def intro: order.strict_implies_order)

lemma length_log_list [simp]: "length (log_list la buf) = nat (log_count la)"
  by (simp add: log_list_def)

lemma nth_log_list:
  "i < nat (log_count la) \<Longrightarrow> log_list la buf ! i = buf ! nat ((indexRead la + int i) mod lsize la)"
  by (simp add: log_list_def)

text \<open>Ring arithmetic: stepping an index and wrapping it is addition modulo the size.\<close>

lemma ring_step:
  fixes x n :: int
  assumes "0 \<le> x" "x < n"
  shows "(if x + 1 = n then 0 else x + 1) = (x + 1) mod n"
  using assms by (simp add: mod_pos_pos_trivial)

lemma ring_diff:
  fixes w r n :: int
  assumes "0 \<le> w" "w < n" "0 \<le> r" "r < n"
  shows "(w - r) mod n = (if r \<le> w then w - r else n - r + w)"
proof (cases "r \<le> w")
  case True
  then show ?thesis using assms by (simp add: mod_pos_pos_trivial)
next
  case False
  then have "(w - r) mod n = (w - r + n) mod n" by simp
  also have "\<dots> = w - r + n" using assms False by (intro mod_pos_pos_trivial) auto
  finally show ?thesis using False by simp
qed

lemma ring_inj:
  fixes r n :: int
  assumes "(r + int i) mod n = (r + int j) mod n" "int i < n" "int j < n"
  shows "i = j"
proof -
  from assms(1) have "(int i - int j) mod n = 0"
    by (metis add_diff_cancel_left mod_eq_dvd_iff mod_eq_0_iff_dvd)
  then have "n dvd int i - int j" by (simp add: mod_eq_0_iff_dvd)
  moreover have "n \<le> int i - int j" if "n dvd int i - int j" "int j < int i"
    using zdvd_imp_le [OF that(1)] that(2) by simp
  moreover have "n \<le> int j - int i" if "n dvd int i - int j" "int i < int j"
    using zdvd_imp_le [of n "int j - int i"] that by (simp add: dvd_diff_commute)
  ultimately have "\<not> int j < int i" "\<not> int i < int j"
    using assms(2,3) by fastforce+
  then show ?thesis by simp
qed

subsection \<open>Writing a record\<close>

lemma log_write_eq:
  assumes "log_inv la buf"
  shows "log_write rec la buf =
    Inr (la\<lparr>indexWrite := (indexWrite la + 1) mod lsize la,
            full := (if (indexWrite la + 1) mod lsize la = indexRead la then 1 else full la)\<rparr>,
         buf[nat (indexWrite la) := Some rec])"
  using assms ring_step [of "indexWrite la" "lsize la"]
  by (auto simp: log_write_def log_inv_def Let_def split: if_splits)

lemma log_pos_write:
  assumes "log_inv la buf"
  shows "(indexRead la + (indexWrite la - indexRead la) mod lsize la) mod lsize la = indexWrite la"
  using assms by (simp add: log_inv_def mod_add_right_eq mod_pos_pos_trivial)

lemma log_write_hits:
  assumes "log_inv la buf" and "int i < lsize la"
  shows "(indexRead la + int i) mod lsize la = indexWrite la \<longleftrightarrow>
         int i = (indexWrite la - indexRead la) mod lsize la"
proof
  let ?d = "(indexWrite la - indexRead la) mod lsize la"
  have d: "0 \<le> ?d" "?d < lsize la"
    using assms(1) by (auto simp: log_inv_def)
  assume "(indexRead la + int i) mod lsize la = indexWrite la"
  then have "(indexRead la + int i) mod lsize la = (indexRead la + int (nat ?d)) mod lsize la"
    using log_pos_write [OF assms(1)] d by simp
  then have "i = nat ?d"
    by (rule ring_inj) (use assms(2) d in auto)
  then show "int i = ?d" using d by simp
next
  assume "int i = (indexWrite la - indexRead la) mod lsize la"
  then show "(indexRead la + int i) mod lsize la = indexWrite la"
    using log_pos_write [OF assms(1)] by simp
qed

lemma ring_nth_update:
  assumes "log_inv la buf" and "int i < lsize la"
  shows "buf[nat (indexWrite la) := v] ! nat ((indexRead la + int i) mod lsize la) =
    (if int i = (indexWrite la - indexRead la) mod lsize la then v
     else buf ! nat ((indexRead la + int i) mod lsize la))"
proof -
  have "0 \<le> (indexRead la + int i) mod lsize la" "(indexRead la + int i) mod lsize la < lsize la"
    using assms(1) by (auto simp: log_inv_def)
  then show ?thesis
    using assms(1) log_write_hits [OF assms]
    by (auto simp: log_inv_def nth_list_update eq_nat_nat_iff)
qed

lemma log_count_write:
  assumes "log_inv la buf" and "log_write rec la buf = Inr (la', buf')"
  shows "log_count la' = (if full la = 1 then lsize la else log_count la + 1)"
proof (cases "full la = 1")
  case True
  then show ?thesis using assms by (auto simp: log_write_eq log_count_def split: if_splits)
next
  case False
  let ?n = "lsize la" and ?w = "indexWrite la" and ?r = "indexRead la"
  have b: "0 \<le> ?w" "?w < ?n" "0 \<le> ?r" "?r < ?n"
    using assms(1) by (auto simp: log_inv_def)
  let ?w' = "if ?w + 1 = ?n then 0 else ?w + 1"
  have w': "0 \<le> ?w'" "?w' < ?n" using b by auto
  have "(if ?w' = ?r then ?n else (?w' - ?r) mod ?n) = (?w - ?r) mod ?n + 1"
    unfolding ring_diff [OF b] ring_diff [OF w' b(3,4)] using b by auto
  then have "(if (?w + 1) mod ?n = ?r then ?n else ((?w + 1) mod ?n - ?r) mod ?n) =
      (?w - ?r) mod ?n + 1"
    unfolding ring_step [OF b(1,2)] .
  then show ?thesis
    using False assms by (auto simp: log_write_eq log_count_def split: if_splits)
qed

lemma log_list_write_room:
  assumes "log_inv la buf" and "full la \<noteq> 1" and "log_write rec la buf = Inr (la', buf')"
  shows "log_list la' buf' = log_list la buf @ [Some rec]"
proof (rule nth_equalityI)
  have c: "log_count la' = log_count la + 1" and nn: "0 \<le> log_count la"
    using log_count_write [OF assms(1,3)] assms(2) log_count_range [OF assms(1)] by auto
  then show "length (log_list la' buf') = length (log_list la buf @ [Some rec])" by simp
  fix i assume "i < length (log_list la' buf')"
  then have i: "i \<le> nat (log_count la)" using c nn by simp
  have la': "indexRead la' = indexRead la" "lsize la' = lsize la"
    and buf': "buf' = buf[nat (indexWrite la) := Some rec]"
    using assms(1,3) by (auto simp: log_write_eq)
  have "0 < lsize la" using assms(1) unfolding log_inv_def by blast
  then have "log_count la < lsize la" using assms(2) by (simp add: log_count_def)
  then have lt: "int i < lsize la" using i nn by simp
  show "log_list la' buf' ! i = (log_list la buf @ [Some rec]) ! i"
    using i c nn assms(2) ring_nth_update [OF assms(1) lt]
    by (auto simp: nth_log_list nth_append la' buf' log_count_def)
qed

lemma log_exact_write_room:
  assumes "log_inv la buf" and "full la \<noteq> 1" and "log_write rec la buf = Inr (la', buf')"
  shows "log_exact la \<and> log_exact la'"
  using assms by (auto simp: log_write_eq log_exact_def split: if_splits)

lemma log_exact_consume [simp]: "log_exact (log_consume n la)"
  by (simp add: log_exact_def log_consume_def Let_def)

text \<open>On a full log the record replaces the entry under the write index; the order is lost.\<close>

lemma log_list_write_full:
  assumes "log_inv la buf" and "full la = 1" and "log_write rec la buf = Inr (la', buf')"
  shows "log_list la' buf' =
    (log_list la buf)[nat ((indexWrite la - indexRead la) mod lsize la) := Some rec]"
proof (rule nth_equalityI)
  have c: "log_count la' = lsize la" "log_count la = lsize la"
    using log_count_write [OF assms(1,3)] assms(2) by (auto simp: log_count_def)
  then show "length (log_list la' buf') = length
    ((log_list la buf)[nat ((indexWrite la - indexRead la) mod lsize la) := Some rec])" by simp
  fix i assume "i < length (log_list la' buf')"
  then have lt: "int i < lsize la" using c by simp
  have la': "indexRead la' = indexRead la" "lsize la' = lsize la"
    and buf': "buf' = buf[nat (indexWrite la) := Some rec]"
    using assms(1,3) by (auto simp: log_write_eq)
  have "0 \<le> (indexWrite la - indexRead la) mod lsize la"
    using assms(1) by (auto simp: log_inv_def)
  then show "log_list la' buf' ! i =
    (log_list la buf)[nat ((indexWrite la - indexRead la) mod lsize la) := Some rec] ! i"
    using lt c ring_nth_update [OF assms(1) lt]
    by (auto simp: nth_log_list la' buf' nth_list_update)
qed

lemma log_inv_write:
  assumes "log_inv la buf" and "log_write rec la buf = Inr (la', buf')"
  shows "log_inv la' buf'"
proof -
  have "None \<notin> set (log_list la' buf')"
  proof (cases "full la = 1")
    case True
    then show ?thesis
      using assms(1) log_list_write_full [OF assms(1) True assms(2)]
      by (auto simp: log_inv_def dest: set_update_subset_insert [THEN subsetD])
  next
    case False
    then show ?thesis
      using assms(1) log_list_write_room [OF assms(1) False assms(2)] by (auto simp: log_inv_def)
  qed
  then show ?thesis
    using assms by (auto simp: log_write_eq) (auto simp: log_inv_def)
qed

lemma log_exact_write:
  assumes "log_inv la buf" and "full la \<noteq> 1" and "log_write rec la buf = Inr (la', buf')"
  shows "log_exact la'"
  using assms by (auto simp: log_write_eq log_exact_def split: if_splits)

subsection \<open>Reading records\<close>

lemma log_can_read_iff:
  assumes "log_inv la buf"
  shows "log_can_read n la \<longleftrightarrow> 0 \<le> n \<and> n \<le> log_count la"
proof -
  have b: "0 \<le> indexWrite la" "indexWrite la < lsize la" "0 \<le> indexRead la" "indexRead la < lsize la"
    using assms by (auto simp: log_inv_def)
  show ?thesis
    using b ring_diff [OF b] by (auto simp: log_can_read_def log_count_def)
qed

lemma log_copy_eq:
  assumes "0 \<le> indexRead la" "indexRead la < lsize la" "lsize la = int (length buf)"
    and "length tmp + k \<le> room"
  shows "log_copy k room la buf tmp =
    Inr (la\<lparr>indexRead := (indexRead la + int k) mod lsize la\<rparr>,
         tmp @ map (\<lambda>i. buf ! nat ((indexRead la + int i) mod lsize la)) [0..<k])"
  using assms
proof (induction k arbitrary: la tmp)
  case 0
  then show ?case by (simp add: mod_pos_pos_trivial)
next
  case (Suc k)
  let ?r = "indexRead la" and ?n = "lsize la"
  let ?la = "la\<lparr>indexRead := (?r + 1) mod ?n\<rparr>"
  have "0 < ?n" using Suc.prems by linarith
  then have r: "0 \<le> (?r + 1) mod ?n" "(?r + 1) mod ?n < ?n" by simp_all
  have "log_copy (Suc k) room la buf tmp = log_copy k room ?la buf (tmp @ [buf ! nat ?r])"
    using Suc.prems ring_step [of ?r ?n] by (auto simp: Let_def split: if_splits)
  also have "\<dots> = Inr (?la\<lparr>indexRead := ((?r + 1) mod ?n + int k) mod ?n\<rparr>,
      (tmp @ [buf ! nat ?r]) @ map (\<lambda>i. buf ! nat (((?r + 1) mod ?n + int i) mod ?n)) [0..<k])"
    using Suc.IH [of ?la "tmp @ [buf ! nat ?r]"] Suc.prems r by simp
  finally show ?case
    using Suc.prems by (simp add: map_upt_Suc mod_pos_pos_trivial mod_simps add.assoc del: upt_Suc)
qed

lemma log_copy_list:
  assumes "log_inv la buf" and "0 \<le> n" "n \<le> log_count la" and "nat n \<le> room"
  shows "log_copy (nat n) room la buf [] =
    Inr (la\<lparr>indexRead := (indexRead la + n) mod lsize la\<rparr>, take (nat n) (log_list la buf))"
  using assms log_copy_eq [of la buf "[]" "nat n" room]
  by (auto simp: log_inv_def log_list_def take_map min_def)

lemma log_full_initialised:
  assumes "log_inv la buf" and "full la = 1"
  shows "None \<notin> set buf"
proof
  assume "None \<in> set buf"
  then obtain j where j: "j < length buf" "buf ! j = None" by (auto simp: in_set_conv_nth)
  let ?i = "nat ((int j - indexRead la) mod lsize la)"
  have n: "0 < lsize la" "lsize la = int (length buf)" and nn: "None \<notin> set (log_list la buf)"
    using assms(1) unfolding log_inv_def by blast+
  have "(int j - indexRead la) mod lsize la < lsize la" by (rule pos_mod_bound [OF n(1)])
  then have i: "?i < nat (log_count la)"
    using assms(2) n(1) by (simp add: log_count_def nat_less_eq_zless)
  have "(indexRead la + int ?i) mod lsize la = int j"
    using j(1) n by (simp add: mod_add_right_eq mod_pos_pos_trivial)
  then have "log_list la buf ! ?i = None" using j(2) i by (simp add: nth_log_list)
  then show False using nn i nth_mem [of ?i "log_list la buf"] by simp
qed

lemma log_count_consume:
  assumes "log_inv la buf" and "log_exact la" and "0 \<le> n" "n \<le> log_count la"
    and "0 < n \<or> full la \<noteq> 1" and "n \<noteq> lsize la"
  shows "((indexWrite la - (indexRead la + n) mod lsize la) mod lsize la) = log_count la - n"
proof -
  have N: "0 < lsize la" using assms(1) unfolding log_inv_def by blast
  have "(indexWrite la - (indexRead la + n) mod lsize la) mod lsize la =
      ((indexWrite la - indexRead la) mod lsize la - n) mod lsize la"
    by (simp add: mod_simps algebra_simps)
  also have "\<dots> = (log_count la - n) mod lsize la"
    using assms(2) by (auto simp: log_count_def log_exact_def mod_simps)
  also have "\<dots> = log_count la - n"
  proof (rule mod_pos_pos_trivial)
    show "0 \<le> log_count la - n" using assms(4) by simp
    have "log_count la < lsize la" if "full la \<noteq> 1" using that N by (simp add: log_count_def)
    then show "log_count la - n < lsize la"
      using assms(3,5) log_count_range [OF assms(1)] by linarith
  qed
  finally show ?thesis .
qed

lemma log_list_consume:
  assumes "log_inv la buf" and "log_exact la" and "0 \<le> n" "n \<le> log_count la"
    and "0 < n \<or> full la \<noteq> 1"
  shows "log_list (log_consume n (la\<lparr>indexRead := (indexRead la + n) mod lsize la\<rparr>)) buf =
    drop (nat n) (log_list la buf)"
proof (cases "n = lsize la")
  case True
  then have "log_count la = lsize la" using assms(4) log_count_range [OF assms(1)] by simp
  with True show ?thesis by (simp add: log_list_def log_consume_def log_count_def)
next
  case False
  let ?la = "log_consume n (la\<lparr>indexRead := (indexRead la + n) mod lsize la\<rparr>)"
  have c: "log_count ?la = log_count la - n"
    using False log_count_consume [OF assms False] by (simp add: log_consume_def log_count_def)
  show ?thesis
  proof (rule nth_equalityI)
    show "length (log_list ?la buf) = length (drop (nat n) (log_list la buf))"
      using c assms(3,4) by simp
    fix i assume "i < length (log_list ?la buf)"
    then have "i < nat (log_count ?la)" "nat n + i < nat (log_count la)"
      using c assms(3,4) by auto
    then show "log_list ?la buf ! i = drop (nat n) (log_list la buf) ! i"
      using False assms(3,4)
      by (simp add: nth_log_list) (simp add: log_consume_def mod_simps add.assoc)
  qed
qed

lemma log_inv_consume:
  assumes "log_inv la buf" and "0 \<le> n" "n \<le> log_count la"
  shows "log_inv (log_consume n (la\<lparr>indexRead := (indexRead la + n) mod lsize la\<rparr>)) buf"
proof -
  let ?la = "log_consume n (la\<lparr>indexRead := (indexRead la + n) mod lsize la\<rparr>)"
  have N: "0 < lsize la" "lsize la = int (length buf)"
    using assms(1) unfolding log_inv_def by blast+
  have "None \<notin> set (log_list ?la buf)"
  proof (cases "full la = 1")
    case True
    have "nat ((x :: int) mod lsize la) < length buf" for x
      using N by (simp add: nat_less_iff)
    then have "set (log_list ?la buf) \<subseteq> set buf"
      by (auto simp: log_list_def log_consume_def Let_def)
    then show ?thesis using log_full_initialised [OF assms(1) True] by blast
  next
    case False
    then have "log_exact la" by (simp add: log_exact_def)
    then show ?thesis
      using False assms log_list_consume [of la buf n]
      by (auto simp: log_inv_def dest: in_set_dropD)
  qed
  then show ?thesis
    using assms(1) N by (auto simp: log_inv_def log_consume_def Let_def)
qed

text \<open>Reading no records from a full log empties it.\<close>

lemma log_list_consume_zero_full:
  assumes "log_inv la buf" and "log_exact la" and "full la = 1"
  shows "log_list (log_consume 0 (la\<lparr>indexRead := (indexRead la + 0) mod lsize la\<rparr>)) buf = []"
  using assms
  by (auto simp: log_list_def log_consume_def log_count_def log_exact_def log_inv_def
      mod_pos_pos_trivial)

end
