(* ===== verification/Kernel_State.thy ===== *)
theory Kernel_State
  imports Policy_Log
begin

text \<open>
  The state the process-related components share: the fields of \<^verbatim>\<open>struct task_struct\<close>
  (include/linux/sched.h) that the modelled code reads or writes, the table of tasks by
  process id, the objects allocated with \<^verbatim>\<open>kmalloc\<close> and the allocator behind it, and the
  tick counter \<^verbatim>\<open>jiffies\<close>. The allocator is an interface here (\<open>kmem\<close>): its operations are
  arguments of the definitions, and theory \<open>Slab\<close> provides them.
\<close>

subsection \<open>Tasks\<close>

text \<open>The two priority arrays of a run queue, \<^verbatim>\<open>rq->arrays[0]\<close> and \<^verbatim>\<open>rq->arrays[1]\<close>.\<close>

datatype array_id = Arr0 | Arr1

record task =
  pid :: int
  state :: int
  policy_on :: int
  policy_level :: int
  logArray :: ptr
  prio :: int
  static_prio :: int
  sleep_avg :: int
  sleep_timestamp :: int
  sched_policy :: int
  rt_priority :: int
  time_slice :: int
  first_time_slice :: int
  need_resched :: int
  run_array :: "array_id option"
  sigpending :: int
  uid :: int
  euid :: int

text \<open>The two kinds of objects the policy code allocates, and memory nobody has written.\<close>

datatype kobj = LogStruct log_array | LogBuf log_buf | Raw int

record 'm kernel =
  tasks :: "int \<Rightarrow> task option"
  kobjs :: "nat \<Rightarrow> kobj option"
  kmem :: 'm
  jiffies :: int

definition task_by_pid :: "('m, 'z) kernel_scheme \<Rightarrow> int \<Rightarrow> task option" where
  "task_by_pid s p = tasks s p"

definition set_task :: "int \<Rightarrow> task \<Rightarrow> ('m, 'z) kernel_scheme \<Rightarrow> ('m, 'z) kernel_scheme" where
  "set_task p t s = s\<lparr>tasks := (tasks s)(p \<mapsto> t)\<rparr>"

lemma find_set_task [simp]:
  "task_by_pid (set_task p t s) q = (if q = p then Some t else task_by_pid s q)"
  by (simp add: task_by_pid_def set_task_def)

lemma set_task_simps [simp]:
  "kobjs (set_task p t s) = kobjs s" "kmem (set_task p t s) = kmem s"
  "jiffies (set_task p t s) = jiffies s" "tasks (set_task p t s) = (tasks s)(p \<mapsto> t)"
  by (simp_all add: set_task_def)

subsection \<open>Kernel memory\<close>

type_synonym 'm kmalloc_fn = "int \<Rightarrow> 'm \<Rightarrow> nat option \<times> 'm"
type_synonym 'm kfree_fn = "nat \<Rightarrow> 'm \<Rightarrow> 'm"

text \<open>\<^verbatim>\<open>kmalloc(n, GFP_KERNEL)\<close> on the kernel state: the new object is unwritten.\<close>

definition kalloc ::
  "'m kmalloc_fn \<Rightarrow> int \<Rightarrow> ('m, 'z) kernel_scheme \<Rightarrow> nat option \<times> ('m, 'z) kernel_scheme" where
  "kalloc kmalloc n s = (case kmalloc n (kmem s) of
       (None, m) \<Rightarrow> (None, s\<lparr>kmem := m\<rparr>)
     | (Some a, m) \<Rightarrow> (Some a, s\<lparr>kmem := m, kobjs := (kobjs s)(a \<mapsto> Raw n)\<rparr>))"

text \<open>
  \<^verbatim>\<open>kfree(p)\<close>: nothing for a null pointer; a fault for a pointer that is not a live object.
\<close>

definition krelease ::
  "'m kfree_fn \<Rightarrow> ptr \<Rightarrow> ('m, 'z) kernel_scheme \<Rightarrow> ('m, 'z) kernel_scheme kres" where
  "krelease kfree p s = (case p of
       NULL \<Rightarrow> Inr s
     | Uninit \<Rightarrow> Inl BadFree
     | Ptr a \<Rightarrow> (if kobjs s a = None then Inl BadFree
                else Inr (s\<lparr>kmem := kfree a (kmem s), kobjs := (kobjs s)(a := None)\<rparr>)))"

definition kload :: "ptr \<Rightarrow> ('m, 'z) kernel_scheme \<Rightarrow> kobj kres" where
  "kload p s = (case p of
       NULL \<Rightarrow> Inl NullDeref
     | Uninit \<Rightarrow> Inl WildDeref
     | Ptr a \<Rightarrow> (case kobjs s a of None \<Rightarrow> Inl FreedDeref | Some ob \<Rightarrow> Inr ob))"

definition kstore :: "ptr \<Rightarrow> kobj \<Rightarrow> ('m, 'z) kernel_scheme \<Rightarrow> ('m, 'z) kernel_scheme kres" where
  "kstore p ob s = (case p of
       NULL \<Rightarrow> Inl NullDeref
     | Uninit \<Rightarrow> Inl WildDeref
     | Ptr a \<Rightarrow> (case kobjs s a of None \<Rightarrow> Inl FreedDeref
                | Some _ \<Rightarrow> Inr (s\<lparr>kobjs := (kobjs s)(a \<mapsto> ob)\<rparr>)))"

text \<open>\<^verbatim>\<open>p->logArray\<close> and \<^verbatim>\<open>p->logArray->array\<close> at their types.\<close>

definition kload_log :: "ptr \<Rightarrow> ('m, 'z) kernel_scheme \<Rightarrow> log_array kres" where
  "kload_log p s = kbind (kload p s) (\<lambda>ob. case ob of LogStruct la \<Rightarrow> Inr la | _ \<Rightarrow> Inl WildDeref)"

definition kload_buf :: "ptr \<Rightarrow> ('m, 'z) kernel_scheme \<Rightarrow> log_buf kres" where
  "kload_buf p s = kbind (kload p s) (\<lambda>ob. case ob of LogBuf b \<Rightarrow> Inr b | _ \<Rightarrow> Inl WildDeref)"

lemma kload_set_task [simp]:
  "kload q (set_task p t s) = kload q s" "kload_log q (set_task p t s) = kload_log q s"
  "kload_buf q (set_task p t s) = kload_buf q s"
  by (cases q; simp add: kload_def kload_log_def kload_buf_def)+

lemmas kmem_defs = kalloc_def krelease_def kload_def kstore_def kload_log_def kload_buf_def

subsection \<open>The allocator interface\<close>

text \<open>
  What \<^verbatim>\<open>kmalloc\<close> and \<^verbatim>\<open>kfree\<close> promise: an allocated address is not in use, failing leaves
  the allocator as it was, and freeing an address in use ends its use and nothing else.
\<close>

locale allocator =
  fixes kmalloc :: "'m kmalloc_fn" and kfree :: "'m kfree_fn"
    and live :: "'m \<Rightarrow> nat set" and mem_inv :: "'m \<Rightarrow> bool"
  assumes kmalloc_Some:
      "mem_inv m \<Longrightarrow> kmalloc n m = (Some a, m') \<Longrightarrow>
         mem_inv m' \<and> a \<notin> live m \<and> live m' = insert a (live m)"
    and kmalloc_None:
      "mem_inv m \<Longrightarrow> kmalloc n m = (None, m') \<Longrightarrow> mem_inv m' \<and> live m' = live m"
    and kfree_live:
      "mem_inv m \<Longrightarrow> a \<in> live m \<Longrightarrow> mem_inv (kfree a m) \<and> live (kfree a m) = live m - {a}"

end
