(* ===== verification/Policy.thy ===== *)
theory Policy
  imports Kernel_State
begin

text \<open>
  The process-policy system calls (kernel/hw1_syscalls.c, numbers 243 to 246) and the
  checks they switch on in \<^verbatim>\<open>do_fork\<close>, \<^verbatim>\<open>sys_wait4\<close> and \<^verbatim>\<open>sys_sched_yield\<close>, over the kernel
  state of theory \<open>Kernel_State\<close>. A call returns its error number and the new state, or a
  fault. The invariant \<open>policy_inv\<close> says that the log objects in kernel memory are exactly
  the ones some policed task owns, that no two tasks share one, and that every log is a
  well-formed ring.
\<close>

named_theorems policy_defs \<open>definitions of the policy operations\<close>

subsection \<open>System calls\<close>

abbreviation (input) "sizeof_log_array \<equiv> (20 :: int)"
abbreviation (input) "sizeof_forbidden_activity_info \<equiv> (12 :: int)"

text \<open>
  \<^verbatim>\<open>size * sizeof(struct forbidden_activity_info)\<close> is computed in \<^verbatim>\<open>size_t\<close>, 32 bits wide;
  the array has as many whole elements as fit into that many bytes.
\<close>

definition buf_bytes :: "int \<Rightarrow> int" where
  "buf_bytes sz = u32 (sz * sizeof_forbidden_activity_info)"

definition buf_room :: "int \<Rightarrow> nat" where
  "buf_room sz = nat (buf_bytes sz div sizeof_forbidden_activity_info)"

definition sys_enable_policy ::
  "'m kmalloc_fn \<Rightarrow> 'm kfree_fn \<Rightarrow> int \<Rightarrow> int \<Rightarrow> int \<Rightarrow> ('m, 'z) kernel_scheme \<Rightarrow>
   (int \<times> ('m, 'z) kernel_scheme) kres" where
  [policy_defs]: "sys_enable_policy kmalloc kfree pd sz password s =
     (case task_by_pid s pd of
        None \<Rightarrow> Inr (- ESRCH, s)
      | Some p \<Rightarrow>
          if password \<noteq> 234123 then Inr (- EINVAL, s)
          else if policy_on p = 1 then Inr (- EINVAL, s)
          else if sz < 0 then Inr (- EINVAL, s)
          else (case kalloc kmalloc sizeof_log_array s of
             (None, s1) \<Rightarrow> Inr (- ENOMEM, set_task pd (p\<lparr>logArray := NULL\<rparr>) s1)
           | (Some la, s1) \<Rightarrow>
               let p1 = p\<lparr>logArray := Ptr la\<rparr>;
                   s2 = set_task pd p1 s1;
                   finish = (\<lambda>arr s3.
                     kbind (kstore (Ptr la) (LogStruct \<lparr>indexWrite = 0, indexRead = 0,
                               lsize = sz, full = 0, larray = arr\<rparr>) s3)
                       (\<lambda>s4. Inr (0, set_task pd (p1\<lparr>policy_level := 2, policy_on := 1\<rparr>) s4)))
               in if sz \<noteq> 0 then
                    (case kalloc kmalloc (buf_bytes sz) s2 of
                       (None, s3) \<Rightarrow> kbind (krelease kfree (Ptr la) s3) (\<lambda>s4. Inr (- ENOMEM, s4))
                     | (Some arr, s3) \<Rightarrow>
                         kbind (kstore (Ptr arr) (LogBuf (replicate (buf_room sz) None)) s3)
                           (\<lambda>s4. finish (Ptr arr) s4))
                  else finish Uninit s2))"

definition sys_disable_policy ::
  "'m kfree_fn \<Rightarrow> int \<Rightarrow> int \<Rightarrow> ('m, 'z) kernel_scheme \<Rightarrow> (int \<times> ('m, 'z) kernel_scheme) kres" where
  [policy_defs]: "sys_disable_policy kfree pd password s =
     (case task_by_pid s pd of
        None \<Rightarrow> Inr (- ESRCH, s)
      | Some p \<Rightarrow>
          if policy_on p = 0 then Inr (- EINVAL, s)
          else if password \<noteq> 234123 then Inr (- EINVAL, s)
          else let s1 = set_task pd (p\<lparr>policy_on := 0, policy_level := 2\<rparr>) s
               in kbind (kload_log (logArray p) s1) (\<lambda>la.
                  kbind (if lsize la \<noteq> 0 then krelease kfree (larray la) s1 else Inr s1) (\<lambda>s2.
                  kbind (krelease kfree (logArray p) s2) (\<lambda>s3. Inr (0, s3)))))"

definition sys_set_process_capabilities ::
  "int \<Rightarrow> int \<Rightarrow> int \<Rightarrow> ('m, 'z) kernel_scheme \<Rightarrow> (int \<times> ('m, 'z) kernel_scheme) kres" where
  [policy_defs]: "sys_set_process_capabilities pd new_level password s =
     (case task_by_pid s pd of
        None \<Rightarrow> Inr (- ESRCH, s)
      | Some p \<Rightarrow>
          if new_level > 2 \<or> new_level < 0 then Inr (- EINVAL, s)
          else if password \<noteq> 234123 then Inr (- EINVAL, s)
          else if policy_on p = 0 then Inr (- EINVAL, s)
          else Inr (0, set_task pd (p\<lparr>policy_level := new_level\<rparr>) s))"

text \<open>
  \<^verbatim>\<open>copy_to_user\<close> returns how many bytes it could not copy; that depends on the caller's
  mappings and is the argument \<open>left\<close>. What reached user memory is the third component of
  the result: a prefix of the temporary array.
\<close>

definition copy_to_user :: "nat \<Rightarrow> log_buf \<Rightarrow> log_buf" where
  "copy_to_user left xs = take ((length xs * 12 - left) div 12) xs"

definition sys_get_process_log ::
  "'m kmalloc_fn \<Rightarrow> 'm kfree_fn \<Rightarrow> nat \<Rightarrow> int \<Rightarrow> int \<Rightarrow> ('m, 'z) kernel_scheme \<Rightarrow>
   (int \<times> log_buf \<times> ('m, 'z) kernel_scheme) kres" where
  [policy_defs]: "sys_get_process_log kmalloc kfree left pd sz s =
     (case task_by_pid s pd of
        None \<Rightarrow> Inr (- ESRCH, [], s)
      | Some p \<Rightarrow>
          if policy_on p = 0 then Inr (- EINVAL, [], s)
          else kbind (kload_log (logArray p) s) (\<lambda>la.
            if \<not> log_can_read sz la then Inr (- EINVAL, [], s)
            else (case kalloc kmalloc (buf_bytes sz) s of
               (None, s1) \<Rightarrow> Inr (- ENOMEM, [], s1)
             | (Some tmp, s1) \<Rightarrow>
                 kbind (if sz = 0 then Inr (la, [])
                        else kbind (kload_buf (larray la) s1) (\<lambda>buf.
                          log_copy (nat sz) (buf_room sz) la buf [])) (\<lambda>(la1, copied).
                 if left \<noteq> 0 then
                   kbind (krelease kfree (Ptr tmp) s1) (\<lambda>s2.
                   kbind (kstore (logArray p) (LogStruct (la1\<lparr>indexRead := indexRead la\<rparr>)) s2)
                     (\<lambda>s3. Inr (- ENOMEM, copy_to_user left copied, s3)))
                 else
                   kbind (krelease kfree (Ptr tmp) s1) (\<lambda>s2.
                   kbind (kstore (logArray p) (LogStruct (log_consume sz la1)) s2)
                     (\<lambda>s3. Inr (0, copy_to_user 0 copied, s3)))))))"

subsection \<open>The checks in the guarded calls\<close>

text \<open>
  \<open>Some e\<close> is an early return of \<open>e\<close>; \<open>None\<close> goes on with the call. \<open>cur\<close> is the process
  id of the caller (\<^verbatim>\<open>current\<close>), \<open>req\<close> the level the call requires.
\<close>

definition policy_check ::
  "int \<Rightarrow> int \<Rightarrow> ('m, 'z) kernel_scheme \<Rightarrow> (int option \<times> ('m, 'z) kernel_scheme) kres" where
  [policy_defs]: "policy_check req cur s =
     (case task_by_pid s cur of
        None \<Rightarrow> Inl NullDeref
      | Some current \<Rightarrow>
          if policy_on current = 1 \<and> policy_level current < req then
            kbind (kload_log (logArray current) s) (\<lambda>la.
            kbind (kload_buf (larray la) s) (\<lambda>buf.
            kbind (log_write \<lparr>syscall_req_level = req, proc_level = policy_level current,
                              time = s32 (jiffies s)\<rparr> la buf) (\<lambda>(la1, buf1).
            kbind (kstore (larray la) (LogBuf buf1) s) (\<lambda>s1.
            kbind (kstore (logArray current) (LogStruct la1) s1) (\<lambda>s2.
            Inr (Some (- EINVAL), s2))))))
          else Inr (None, s))"

definition do_fork_check ::
  "int \<Rightarrow> ('m, 'z) kernel_scheme \<Rightarrow> (int option \<times> ('m, 'z) kernel_scheme) kres" where
  [policy_defs]: "do_fork_check cur s = policy_check 2 cur s"

definition sys_wait4_check ::
  "int \<Rightarrow> ('m, 'z) kernel_scheme \<Rightarrow> (int option \<times> ('m, 'z) kernel_scheme) kres" where
  [policy_defs]: "sys_wait4_check cur s = policy_check 1 cur s"

definition sys_sched_yield_check ::
  "int \<Rightarrow> ('m, 'z) kernel_scheme \<Rightarrow> (int option \<times> ('m, 'z) kernel_scheme) kres" where
  [policy_defs]: "sys_sched_yield_check cur s = policy_check 1 cur s"

subsection \<open>Process creation and removal\<close>

text \<open>\<^verbatim>\<open>*p = *current\<close> in \<^verbatim>\<open>do_fork\<close> copies the policy fields too; they are reset at once.\<close>

definition fork_task :: "task \<Rightarrow> task" where
  [policy_defs]: "fork_task current =
     (let p = current in p\<lparr>policy_level := 2, policy_on := 0, logArray := NULL\<rparr>)"

text \<open>The part of \<^verbatim>\<open>release_task\<close> that frees the log of a dead process.\<close>

definition release_log ::
  "'m kfree_fn \<Rightarrow> task \<Rightarrow> ('m, 'z) kernel_scheme \<Rightarrow> ('m, 'z) kernel_scheme kres" where
  [policy_defs]: "release_log kfree p s =
     (if policy_on p \<noteq> 0 then
        kbind (kload_log (logArray p) s) (\<lambda>la.
        kbind (if lsize la > 0 then krelease kfree (larray la) s else Inr s) (\<lambda>s1.
        krelease kfree (logArray p) s1))
      else Inr s)"

subsection \<open>The invariant\<close>

definition well_logged :: "('m, 'z) kernel_scheme \<Rightarrow> task \<Rightarrow> bool" where
  "well_logged s t \<longleftrightarrow> (\<exists>a la. logArray t = Ptr a \<and> kobjs s a = Some (LogStruct la) \<and>
     ((lsize la = 0 \<and> indexWrite la = 0 \<and> indexRead la = 0 \<and> full la = 0 \<and> larray la = Uninit) \<or>
      (\<exists>b buf. larray la = Ptr b \<and> kobjs s b = Some (LogBuf buf) \<and> log_inv la buf \<and>
         lsize la * 12 < 4294967296)))"

definition task_ok :: "('m, 'z) kernel_scheme \<Rightarrow> task \<Rightarrow> bool" where
  "task_ok s t \<longleftrightarrow> (policy_on t = 0 \<or> policy_on t = 1) \<and>
     0 \<le> policy_level t \<and> policy_level t \<le> 2 \<and> (policy_on t = 1 \<longrightarrow> well_logged s t)"

text \<open>The kernel objects a task owns: none unless its policy is on.\<close>

definition log_objs :: "('m, 'z) kernel_scheme \<Rightarrow> task \<Rightarrow> nat set" where
  "log_objs s t = (if policy_on t = 0 then {} else
     case logArray t of
       Ptr a \<Rightarrow> (case kobjs s a of
                  Some (LogStruct la) \<Rightarrow> insert a (case larray la of Ptr b \<Rightarrow> {b} | _ \<Rightarrow> {})
                | _ \<Rightarrow> {a})
     | _ \<Rightarrow> {})"

definition log_objs_at :: "('m, 'z) kernel_scheme \<Rightarrow> int \<Rightarrow> nat set" where
  "log_objs_at s p = (case tasks s p of None \<Rightarrow> {} | Some t \<Rightarrow> log_objs s t)"

definition policy_inv :: "('m, 'z) kernel_scheme \<Rightarrow> bool" where
  "policy_inv s \<longleftrightarrow>
     (\<forall>p t. tasks s p = Some t \<longrightarrow> task_ok s t) \<and>
     (\<forall>p q. p \<noteq> q \<longrightarrow> log_objs_at s p \<inter> log_objs_at s q = {}) \<and>
     dom (kobjs s) = (\<Union>p. log_objs_at s p)"

lemma well_logged_cong:
  assumes "\<And>x. x \<in> log_objs s t \<Longrightarrow> kobjs s' x = kobjs s x" and "policy_on t \<noteq> 0"
  shows "well_logged s t \<Longrightarrow> well_logged s' t"
  using assms by (fastforce simp: well_logged_def log_objs_def)

lemma log_objs_cong:
  assumes "\<And>x. x \<in> log_objs s t \<Longrightarrow> kobjs s' x = kobjs s x"
  shows "log_objs s' t = log_objs s t"
proof (cases "logArray t")
  case (Ptr a)
  then have "kobjs s' a = kobjs s a" if "policy_on t \<noteq> 0"
    using that assms [of a] by (simp add: log_objs_def split: option.split kobj.split)
  then show ?thesis using Ptr by (simp add: log_objs_def)
qed (simp_all add: log_objs_def)

lemma policy_inv_task: "policy_inv s \<Longrightarrow> tasks s p = Some t \<Longrightarrow> task_ok s t"
  by (auto simp: policy_inv_def)

lemma log_objs_dom:
  assumes "policy_inv s" "tasks s p = Some t"
  shows "log_objs s t \<subseteq> dom (kobjs s)"
proof -
  have "log_objs_at s p \<subseteq> (\<Union>q. log_objs_at s q)" by blast
  moreover have "log_objs_at s p = log_objs s t" using assms(2) by (simp add: log_objs_at_def)
  moreover have "dom (kobjs s) = (\<Union>q. log_objs_at s q)"
    using assms(1) unfolding policy_inv_def by (elim conjE)
  ultimately show ?thesis by simp
qed

text \<open>
  The one preservation rule: a step that changes a single task and only objects that task
  owned before or owns afterwards keeps the invariant.
\<close>

lemma policy_inv_local:
  assumes inv: "policy_inv s"
    and others: "\<And>q. q \<noteq> p \<Longrightarrow> tasks s' q = tasks s q"
    and frame: "\<And>x. x \<notin> log_objs_at s p \<Longrightarrow> x \<notin> log_objs_at s' p \<Longrightarrow> kobjs s' x = kobjs s x"
    and fresh: "log_objs_at s' p \<inter> dom (kobjs s) \<subseteq> log_objs_at s p"
    and dom: "dom (kobjs s') = dom (kobjs s) - log_objs_at s p \<union> log_objs_at s' p"
    and ok: "\<And>t. tasks s' p = Some t \<Longrightarrow> task_ok s' t"
  shows "policy_inv s'"
proof -
  let ?O = "log_objs_at s p" and ?N = "log_objs_at s' p"
  have domU: "dom (kobjs s) = (\<Union>q. log_objs_at s q)"
    and disj: "\<And>q r. q \<noteq> r \<Longrightarrow> log_objs_at s q \<inter> log_objs_at s r = {}"
    using inv by (auto simp: policy_inv_def)
  have sep: "log_objs_at s q \<inter> ?O = {}" "log_objs_at s q \<inter> ?N = {}" if "q \<noteq> p" for q
  proof -
    show O: "log_objs_at s q \<inter> ?O = {}" by (rule disj [OF that])
    have "log_objs_at s q \<subseteq> dom (kobjs s)" using domU by blast
    with O fresh show "log_objs_at s q \<inter> ?N = {}" by blast
  qed
  have same: "kobjs s' x = kobjs s x" if "q \<noteq> p" "x \<in> log_objs_at s q" for q x
    using that sep [OF that(1)] by (intro frame) auto
  have objs: "log_objs_at s' q = log_objs_at s q" if "q \<noteq> p" for q
    using others [OF that] same [OF that] log_objs_cong [of s _ s']
    by (cases "tasks s q") (simp_all add: log_objs_at_def)
  have "task_ok s' t" if "tasks s' q = Some t" for q t
  proof (cases "q = p")
    case False
    then have t: "tasks s q = Some t" "task_ok s t"
      using that others inv by (auto intro: policy_inv_task)
    have "kobjs s' x = kobjs s x" if "x \<in> log_objs s t" for x
      using that t(1) same [OF False] by (simp add: log_objs_at_def)
    then show ?thesis using t(2) well_logged_cong [of s t s'] by (auto simp: task_ok_def)
  qed (use ok that in simp)
  moreover have "log_objs_at s' q \<inter> log_objs_at s' r = {}" if "q \<noteq> r" for q r
  proof -
    have ne: "log_objs_at s' q \<inter> log_objs_at s' r = {}" if "q \<noteq> p" "q \<noteq> r" for q r
      using that objs [of q] objs [of r] sep(2) [of q] disj [of q r] by (cases "r = p") auto
    show ?thesis
    proof (cases "q = p")
      case True
      then show ?thesis using that ne [of r q] by blast
    qed (rule ne [OF _ that])
  qed
  moreover have "dom (kobjs s') = (\<Union>q. log_objs_at s' q)"
  proof -
    have U: "(UNIV :: int set) = insert p (-{p})" by auto
    have "(\<Union>q. log_objs_at s' q) = (\<Union>q\<in>insert p (-{p}). log_objs_at s' q)"
      by (subst U) (rule refl)
    also have "\<dots> = ?N \<union> (\<Union>q\<in>-{p}. log_objs_at s' q)" by (rule UN_insert)
    also have "(\<Union>q\<in>-{p}. log_objs_at s' q) = (\<Union>q\<in>-{p}. log_objs_at s q)"
      using objs by simp
    also have "\<dots> = dom (kobjs s) - ?O"
      using sep(1) by (auto simp: domU disjoint_iff)
    finally have "(\<Union>q. log_objs_at s' q) = ?N \<union> (dom (kobjs s) - ?O)" .
    then show ?thesis by (subst dom) (simp only: Un_commute)
  qed
  ultimately show ?thesis unfolding policy_inv_def by blast
qed

lemma log_objs_simps:
  "policy_on t = 0 \<Longrightarrow> log_objs s t = {}"
  "policy_on t \<noteq> 0 \<Longrightarrow> logArray t = Ptr a \<Longrightarrow> kobjs s a = Some (LogStruct la) \<Longrightarrow> larray la = Ptr b \<Longrightarrow>
     log_objs s t = {a, b}"
  "policy_on t \<noteq> 0 \<Longrightarrow> logArray t = Ptr a \<Longrightarrow> kobjs s a = Some (LogStruct la) \<Longrightarrow> larray la = Uninit \<Longrightarrow>
     log_objs s t = {a}"
  by (simp_all add: log_objs_def)

lemma log_objs_at_simps [simp]:
  "tasks s p = None \<Longrightarrow> log_objs_at s p = {}"
  "tasks s p = Some t \<Longrightarrow> log_objs_at s p = log_objs s t"
  by (simp_all add: log_objs_at_def)

text \<open>A policed task of a state with the invariant: an empty-capacity log or a ring.\<close>

lemma policed_cases:
  assumes "policy_inv s" "tasks s p = Some t" "policy_on t \<noteq> 0"
  obtains (zero) a la where "logArray t = Ptr a" "kobjs s a = Some (LogStruct la)" "lsize la = 0"
      "indexWrite la = 0" "indexRead la = 0" "full la = 0" "larray la = Uninit" "log_objs s t = {a}"
  | (ring) a la b buf where "logArray t = Ptr a" "kobjs s a = Some (LogStruct la)" "larray la = Ptr b"
      "kobjs s b = Some (LogBuf buf)" "log_inv la buf" "lsize la * 12 < 4294967296" "a \<noteq> b"
      "log_objs s t = {a, b}"
proof -
  have "well_logged s t"
    using policy_inv_task [OF assms(1,2)] assms(3) by (auto simp: task_ok_def)
  then show thesis
    using assms(3) unfolding well_logged_def
    by (elim exE conjE disjE) (fastforce intro: zero ring simp: log_objs_simps)+
qed

lemma buf_room_eq:
  assumes "0 \<le> n" "n * 12 < 4294967296"
  shows "buf_room n = nat n"
  using assms by (simp add: buf_room_def buf_bytes_def u32_id)

lemma log_inv_fresh:
  assumes "0 < n" "n * 12 < 4294967296"
  shows "log_inv \<lparr>indexWrite = 0, indexRead = 0, lsize = n, full = 0, larray = arr\<rparr>
           (replicate (buf_room n) None)"
  using assms by (simp add: log_inv_def buf_room_eq log_list_def log_count_def)

subsection \<open>The abstract policy\<close>

text \<open>
  What a user of the interface sees of a process: whether its policy is on and, if so, its
  level, the capacity of its log, the records in it, oldest first, and whether it has never been
  overrun, the assumption the comments in the three hooks state. \<open>view s p\<close> is \<open>None\<close> for a
  process that does not exist and \<open>Some None\<close> for one without a policy.
\<close>

record pview =
  pv_level :: int
  pv_capacity :: int
  pv_log :: "forbidden_activity_info list"
  pv_exact :: bool

definition view_task :: "('m, 'z) kernel_scheme \<Rightarrow> task \<Rightarrow> pview option" where
  "view_task s t = (if policy_on t = 0 then None else
     case kload_log (logArray t) s of
       Inl _ \<Rightarrow> None
     | Inr la \<Rightarrow> Some \<lparr>pv_level = policy_level t, pv_capacity = lsize la,
         pv_log = (case kload_buf (larray la) s of
                     Inl _ \<Rightarrow> [] | Inr buf \<Rightarrow> map the (log_list la buf)),
         pv_exact = log_exact la\<rparr>)"

definition view :: "('m, 'z) kernel_scheme \<Rightarrow> int \<Rightarrow> pview option option" where
  "view s p = map_option (view_task s) (tasks s p)"

text \<open>The abstract calls. Allocation may fail, so \<open>enable\<close> and \<open>get\<close> are relations.\<close>

type_synonym pviews = "int \<Rightarrow> pview option option"

definition spec_enable :: "int \<Rightarrow> int \<Rightarrow> int \<Rightarrow> pviews \<Rightarrow> int \<Rightarrow> pviews \<Rightarrow> bool" where
  "spec_enable pd sz password v r v' \<longleftrightarrow>
     (if v pd = None then r = - ESRCH \<and> v' = v
      else if password \<noteq> 234123 \<or> v pd \<noteq> Some None \<or> sz < 0 then r = - EINVAL \<and> v' = v
      else (r = - ENOMEM \<and> v' = v) \<or>
           (r = 0 \<and> v' = v(pd \<mapsto> Some \<lparr>pv_level = 2, pv_capacity = sz, pv_log = [], pv_exact = True\<rparr>)))"

definition spec_disable :: "int \<Rightarrow> int \<Rightarrow> pviews \<Rightarrow> int \<times> pviews" where
  "spec_disable pd password v =
     (if v pd = None then (- ESRCH, v)
      else if v pd = Some None \<or> password \<noteq> 234123 then (- EINVAL, v)
      else (0, v(pd \<mapsto> None)))"

definition spec_set_capabilities :: "int \<Rightarrow> int \<Rightarrow> int \<Rightarrow> pviews \<Rightarrow> int \<times> pviews" where
  "spec_set_capabilities pd new_level password v =
     (case v pd of
        None \<Rightarrow> (- ESRCH, v)
      | Some None \<Rightarrow> (- EINVAL, v)
      | Some (Some pv) \<Rightarrow>
          if new_level > 2 \<or> new_level < 0 \<or> password \<noteq> 234123 then (- EINVAL, v)
          else (0, v(pd \<mapsto> Some (pv\<lparr>pv_level := new_level\<rparr>))))"

definition spec_get_log ::
  "bool \<Rightarrow> int \<Rightarrow> int \<Rightarrow> pviews \<Rightarrow> int \<Rightarrow> forbidden_activity_info list \<Rightarrow> pviews \<Rightarrow> bool" where
  "spec_get_log user_ok pd sz v r out v' \<longleftrightarrow>
     (case v pd of
        None \<Rightarrow> r = - ESRCH \<and> out = [] \<and> v' = v
      | Some None \<Rightarrow> r = - EINVAL \<and> out = [] \<and> v' = v
      | Some (Some pv) \<Rightarrow>
          if sz < 0 \<or> int (length (pv_log pv)) < sz then r = - EINVAL \<and> out = [] \<and> v' = v
          else (r = - ENOMEM \<and> out = [] \<and> v' = v) \<or>
               (if user_ok
                then r = 0 \<and> out = take (nat sz) (pv_log pv) \<and>
                     v' = v(pd \<mapsto> Some (pv\<lparr>pv_log := drop (nat sz) (pv_log pv)\<rparr>))
                else r = - ENOMEM \<and> v' = v \<and> (\<exists>k \<le> nat sz. out = take k (pv_log pv))))"

definition spec_check :: "int \<Rightarrow> int \<Rightarrow> int \<Rightarrow> pviews \<Rightarrow> int option \<times> pviews" where
  "spec_check req cur now v =
     (case v cur of
        Some (Some pv) \<Rightarrow>
          if pv_level pv < req
          then (Some (- EINVAL), v(cur \<mapsto> Some (pv\<lparr>pv_log := pv_log pv @
                 [\<lparr>syscall_req_level = req, proc_level = pv_level pv, time = now\<rparr>]\<rparr>)))
          else (None, v)
      | _ \<Rightarrow> (None, v))"

lemma view_task_zero:
  assumes "policy_on t \<noteq> 0" "logArray t = Ptr a" "kobjs s a = Some (LogStruct la)" "larray la = Uninit"
    "full la = 0"
  shows "view_task s t = Some \<lparr>pv_level = policy_level t, pv_capacity = lsize la, pv_log = [], pv_exact = True\<rparr>"
  using assms by (simp add: view_task_def kmem_defs log_exact_def)

lemma view_task_ring:
  assumes "policy_on t \<noteq> 0" "logArray t = Ptr a" "kobjs s a = Some (LogStruct la)"
    "larray la = Ptr b" "kobjs s b = Some (LogBuf buf)"
  shows "view_task s t = Some \<lparr>pv_level = policy_level t, pv_capacity = lsize la,
           pv_log = map the (log_list la buf), pv_exact = log_exact la\<rparr>"
  using assms by (simp add: view_task_def kmem_defs)

lemma view_task_off [simp]: "policy_on t = 0 \<Longrightarrow> view_task s t = None"
  by (simp add: view_task_def)

lemma view_task_on:
  assumes "policy_inv s" "tasks s p = Some t" "policy_on t \<noteq> 0"
  shows "view_task s t \<noteq> None"
  using assms by (elim policed_cases) (auto simp: view_task_zero view_task_ring)

lemma view_task_cong:
  assumes "\<And>x. x \<in> log_objs s t \<Longrightarrow> kobjs s' x = kobjs s x"
  shows "view_task s' t = view_task s t"
proof (cases "logArray t")
  case (Ptr a)
  show ?thesis
  proof (cases "policy_on t = 0")
    case False
    then have a: "kobjs s' a = kobjs s a"
      using Ptr assms [of a] by (simp add: log_objs_def split: option.split kobj.split)
    have "kobjs s' b = kobjs s b" if "kobjs s a = Some (LogStruct la)" "larray la = Ptr b" for la b
      using that False Ptr assms [of b] by (simp add: log_objs_def)
    then show ?thesis
      using a Ptr by (auto simp: view_task_def kmem_defs split: option.split kobj.split ptr.split)
  qed simp
qed (simp_all add: view_task_def kmem_defs)

text \<open>Steps that stay within one task's objects leave the view of every other task alone.\<close>

lemma view_local:
  assumes "policy_inv s" and others: "\<And>q. q \<noteq> p \<Longrightarrow> tasks s' q = tasks s q"
    and frame: "\<And>x. x \<in> dom (kobjs s) \<Longrightarrow> x \<notin> log_objs_at s p \<Longrightarrow> kobjs s' x = kobjs s x"
  shows "view s' = (view s)(p := map_option (view_task s') (tasks s' p))"
proof
  fix q
  show "view s' q = ((view s)(p := map_option (view_task s') (tasks s' p))) q"
  proof (cases "q = p")
    case False
    have "view_task s' t = view_task s t" if t: "tasks s q = Some t" for t
    proof (rule view_task_cong)
      fix x assume "x \<in> log_objs s t"
      then have x: "x \<in> log_objs_at s q" using t by simp
      moreover have "log_objs_at s q \<inter> log_objs_at s p = {}" "log_objs_at s q \<subseteq> dom (kobjs s)"
        using assms(1) False by (auto simp: policy_inv_def)
      ultimately show "kobjs s' x = kobjs s x" by (intro frame) auto
    qed
    then show ?thesis using False others by (cases "tasks s q") (auto simp: view_def)
  qed (simp add: view_def)
qed

subsection \<open>What the calls do, over any allocator\<close>

definition mem_ok :: "('m \<Rightarrow> nat set) \<Rightarrow> ('m \<Rightarrow> bool) \<Rightarrow> ('m, 'z) kernel_scheme \<Rightarrow> bool" where
  "mem_ok live mem_inv s \<longleftrightarrow> mem_inv (kmem s) \<and> dom (kobjs s) \<subseteq> live (kmem s)"

definition kernel_ok :: "('m \<Rightarrow> nat set) \<Rightarrow> ('m \<Rightarrow> bool) \<Rightarrow> ('m, 'z) kernel_scheme \<Rightarrow> bool" where
  "kernel_ok live mem_inv s \<longleftrightarrow> policy_inv s \<and> mem_ok live mem_inv s"

definition enabled ::
  "('m \<Rightarrow> nat set) \<Rightarrow> ('m \<Rightarrow> bool) \<Rightarrow> int \<Rightarrow> int \<Rightarrow> ('m, 'z) kernel_scheme \<Rightarrow> int \<Rightarrow> ('m, 'z) kernel_scheme \<Rightarrow> bool" where
  "enabled live mem_inv pd sz s r s' \<longleftrightarrow> kernel_ok live mem_inv s' \<and>
     (r = - ENOMEM \<and> view s' = view s \<or>
      r = 0 \<and> view s' = (view s)(pd \<mapsto> Some \<lparr>pv_level = 2, pv_capacity = sz, pv_log = [], pv_exact = True\<rparr>))"

lemma policy_inv_same:
  assumes "tasks s' = tasks s" "kobjs s' = kobjs s"
  shows "policy_inv s' = policy_inv s" "view s' = view s"
proof -
  have "log_objs s' t = log_objs s t" for t
    by (rule log_objs_cong) (simp add: assms(2))
  then have "log_objs_at s' = log_objs_at s"
    using assms(1) by (intro ext) (simp add: log_objs_at_def split: option.split)
  moreover have "task_ok s' = task_ok s"
    using assms by (intro ext) (simp add: task_ok_def well_logged_def)
  ultimately show "policy_inv s' = policy_inv s"
    using assms by (simp add: policy_inv_def)
  have "view_task s' t = view_task s t" for t
    by (rule view_task_cong) (simp add: assms(2))
  then have "view_task s' = view_task s" by (rule ext)
  then show "view s' = view s" using assms by (intro ext) (simp add: view_def)
qed

lemma mem_ok_set_task [simp]: "mem_ok live mem_inv (set_task p t s) = mem_ok live mem_inv s"
  by (simp add: mem_ok_def)

context allocator
begin

lemma kalloc_Some:
  assumes "mem_ok live mem_inv s" and "kalloc kmalloc n s = (Some a, s')"
  shows "a \<notin> live (kmem s)" "a \<notin> dom (kobjs s)" "tasks s' = tasks s" "jiffies s' = jiffies s"
    "kobjs s' = (kobjs s)(a \<mapsto> Raw n)" "mem_ok live mem_inv s'"
    "live (kmem s') = insert a (live (kmem s))"
  using assms kmalloc_Some [of "kmem s" n a]
  by (auto simp: kalloc_def mem_ok_def subset_iff domIff split: prod.splits option.splits if_splits)

lemma kalloc_None:
  assumes "mem_ok live mem_inv s" and "kalloc kmalloc n s = (None, s')"
  shows "tasks s' = tasks s" "jiffies s' = jiffies s" "kobjs s' = kobjs s" "mem_ok live mem_inv s'"
    "live (kmem s') = live (kmem s)"
  using assms kmalloc_None [of "kmem s" n]
  by (auto simp: kalloc_def mem_ok_def subset_iff domIff split: prod.splits option.splits)

lemma krelease_live:
  assumes "mem_ok live mem_inv s" and "kobjs s a = Some ob"
  shows "krelease kfree (Ptr a) s = Inr (s\<lparr>kmem := kfree a (kmem s), kobjs := (kobjs s)(a := None)\<rparr>)"
    "mem_ok live mem_inv (s\<lparr>kmem := kfree a (kmem s), kobjs := (kobjs s)(a := None)\<rparr>)"
    "live (kfree a (kmem s)) = live (kmem s) - {a}"
proof -
  have "a \<in> live (kmem s)" using assms by (auto simp: mem_ok_def)
  then show "mem_ok live mem_inv (s\<lparr>kmem := kfree a (kmem s), kobjs := (kobjs s)(a := None)\<rparr>)"
    "live (kfree a (kmem s)) = live (kmem s) - {a}"
    using assms(1) kfree_live [of "kmem s" a] by (auto simp: mem_ok_def)
qed (use assms(2) in \<open>simp add: krelease_def\<close>)

text \<open>A step on task \<open>p\<close> that leaves no object of \<open>p\<close> behind and none in its view.\<close>

lemma kernel_ok_quiet:
  assumes "kernel_ok live mem_inv s" "tasks s p = Some t" "policy_on t = 0"
    and "tasks s' = (tasks s)(p \<mapsto> t')" "policy_on t' = 0" "0 \<le> policy_level t'" "policy_level t' \<le> 2"
    and "kobjs s' = kobjs s" "mem_ok live mem_inv s'"
  shows "kernel_ok live mem_inv s' \<and> view s' = view s"
proof -
  have "policy_inv s'"
    using assms by (intro policy_inv_local [of s p s']) (auto simp: kernel_ok_def log_objs_simps task_ok_def)
  moreover have "view s' = (view s)(p := map_option (view_task s') (tasks s' p))"
    using assms by (intro view_local) (auto simp: kernel_ok_def)
  moreover have "view s p = Some None" using assms(2,3) by (simp add: view_def)
  ultimately show ?thesis
    using assms(4,5,9) by (simp add: kernel_ok_def fun_upd_idem)
qed

lemma enable_gets_log:
  assumes ok: "kernel_ok live mem_inv s" and t: "tasks s p = Some t" "policy_on t = 0"
    and new: "a \<notin> dom (kobjs s)" "b \<notin> dom (kobjs s)" "a \<noteq> b"
    and n: "0 < n" "n * 12 < 4294967296"
    and s': "tasks s' = (tasks s)(p \<mapsto> t\<lparr>logArray := Ptr a, policy_level := 2, policy_on := 1\<rparr>)"
    "kobjs s' = (kobjs s)(a \<mapsto> LogStruct \<lparr>indexWrite = 0, indexRead = 0, lsize = n, full = 0, larray = Ptr b\<rparr>,
       b \<mapsto> LogBuf (replicate (buf_room n) None))" "mem_ok live mem_inv s'"
  shows "kernel_ok live mem_inv s' \<and>
    view s' = (view s)(p \<mapsto> Some \<lparr>pv_level = 2, pv_capacity = n, pv_log = [], pv_exact = True\<rparr>)"
proof -
  let ?t = "t\<lparr>logArray := Ptr a, policy_level := 2, policy_on := 1\<rparr>"
  let ?la = "\<lparr>indexWrite = 0, indexRead = 0, lsize = n, full = 0, larray = Ptr b\<rparr>"
  have a: "kobjs s' a = Some (LogStruct ?la)" and b: "kobjs s' b = Some (LogBuf (replicate (buf_room n) None))"
    using s'(2) new(3) by auto
  have o: "log_objs s' ?t = {a, b}" using a by (simp add: log_objs_def)
  have ok': "task_ok s' ?t"
    using a b n log_inv_fresh [OF n] by (auto simp: task_ok_def well_logged_def)
  have "policy_inv s'"
    by (rule policy_inv_local [of s p])
      (use ok t new s' o ok' in \<open>auto simp: kernel_ok_def log_objs_simps split: if_splits\<close>)
  moreover have "view s' = (view s)(p := map_option (view_task s') (tasks s' p))"
    using ok t s' new by (intro view_local) (auto simp: kernel_ok_def)
  moreover have "view_task s' ?t = Some \<lparr>pv_level = 2, pv_capacity = n, pv_log = [], pv_exact = True\<rparr>"
    using view_task_ring [of ?t a s' ?la b, OF _ _ a _ b] by (simp add: log_list_def log_count_def log_exact_def)
  ultimately show ?thesis using s' by (simp add: kernel_ok_def)
qed

lemma enable_gets_empty_log:
  assumes ok: "kernel_ok live mem_inv s" and t: "tasks s p = Some t" "policy_on t = 0"
    and new: "a \<notin> dom (kobjs s)"
    and s': "tasks s' = (tasks s)(p \<mapsto> t\<lparr>logArray := Ptr a, policy_level := 2, policy_on := 1\<rparr>)"
    "kobjs s' = (kobjs s)(a \<mapsto> LogStruct \<lparr>indexWrite = 0, indexRead = 0, lsize = 0, full = 0, larray = Uninit\<rparr>)"
    "mem_ok live mem_inv s'"
  shows "kernel_ok live mem_inv s' \<and>
    view s' = (view s)(p \<mapsto> Some \<lparr>pv_level = 2, pv_capacity = 0, pv_log = [], pv_exact = True\<rparr>)"
proof -
  let ?t = "t\<lparr>logArray := Ptr a, policy_level := 2, policy_on := 1\<rparr>"
  have a: "kobjs s' a = Some (LogStruct \<lparr>indexWrite = 0, indexRead = 0, lsize = 0, full = 0, larray = Uninit\<rparr>)"
    using s'(2) by simp
  have o: "log_objs s' ?t = {a}" using a by (simp add: log_objs_def)
  have ok': "task_ok s' ?t" using a by (auto simp: task_ok_def well_logged_def)
  have "policy_inv s'"
    by (rule policy_inv_local [of s p])
      (use ok t new s' o ok' in \<open>auto simp: kernel_ok_def log_objs_simps split: if_splits\<close>)
  moreover have "view s' = (view s)(p := map_option (view_task s') (tasks s' p))"
    using ok t s' new by (intro view_local) (auto simp: kernel_ok_def)
  ultimately show ?thesis
    using s' view_task_zero [of ?t a s', OF _ _ a] by (simp add: kernel_ok_def)
qed

text \<open>
  Enabling: the three ways the allocations can go. \<open>enabled\<close> is what a call that passed its checks
  may do: give up with \<^verbatim>\<open>-ENOMEM\<close> and nothing changed, or switch the policy on.
\<close>

lemma enable_array:
  assumes ok: "kernel_ok live mem_inv s" and t: "tasks s pd = Some t" "policy_on t = 0"
    and sz: "0 < sz" "sz * 12 < 4294967296"
    and k1: "kalloc kmalloc 20 s = (Some a, s1)"
  shows "\<exists>r s'. sys_enable_policy kmalloc kfree pd sz 234123 s = Inr (r, s') \<and>
    enabled live mem_inv pd sz s r s'"
proof -
  have mem: "mem_ok live mem_inv s" and lvl: "0 \<le> policy_level t" "policy_level t \<le> 2"
    using ok t policy_inv_task by (auto simp: kernel_ok_def task_ok_def)
  note n = kalloc_Some [OF mem k1]
  let ?s2 = "set_task pd (t\<lparr>logArray := Ptr a\<rparr>) s1"
  have mem2: "mem_ok live mem_inv ?s2" using n by simp
  obtain x2 s3 where k2: "kalloc kmalloc (buf_bytes sz) ?s2 = (x2, s3)"
    by (cases "kalloc kmalloc (buf_bytes sz) ?s2") auto
  show ?thesis
  proof (cases x2)
    case None
    note m = kalloc_None [OF mem2 k2 [unfolded None]]
    have "kobjs s3 a = Some (Raw 20)" using m n by simp
    note f = krelease_live [OF m(4) this]
    let ?s' = "s3\<lparr>kmem := kfree a (kmem s3), kobjs := (kobjs s3)(a := None)\<rparr>"
    have "sys_enable_policy kmalloc kfree pd sz 234123 s = Inr (- ENOMEM, ?s')"
      using k1 t sz k2 None f by (simp add: sys_enable_policy_def task_by_pid_def Let_def)
    moreover have "kernel_ok live mem_inv ?s' \<and> view ?s' = view s"
      by (rule kernel_ok_quiet [OF ok t, where t' = "t\<lparr>logArray := Ptr a\<rparr>"])
        (use n m t lvl f in \<open>simp_all add: fun_upd_idem domIff\<close>)
    ultimately show ?thesis by (auto simp: enabled_def)
  next
    case (Some b)
    note m = kalloc_Some [OF mem2 k2 [unfolded Some]]
    let ?la = "\<lparr>indexWrite = 0, indexRead = 0, lsize = sz, full = 0, larray = Ptr b\<rparr>"
    let ?s4 = "s3\<lparr>kobjs := (kobjs s3)(b \<mapsto> LogBuf (replicate (buf_room sz) None))\<rparr>"
    let ?s' = "set_task pd (t\<lparr>logArray := Ptr a, policy_level := 2, policy_on := 1\<rparr>)
      (?s4\<lparr>kobjs := (kobjs ?s4)(a \<mapsto> LogStruct ?la)\<rparr>)"
    have ab: "a \<noteq> b" "b \<notin> dom (kobjs s)" using m n by (auto split: if_splits)
    have "sys_enable_policy kmalloc kfree pd sz 234123 s = Inr (0, ?s')"
      using k1 t sz k2 Some n m ab by (simp add: sys_enable_policy_def task_by_pid_def kstore_def Let_def)
    moreover have mem': "mem_ok live mem_inv ?s'" using n m mem by (auto simp: mem_ok_def)
    have "kernel_ok live mem_inv ?s' \<and> view ?s' = (view s)(pd \<mapsto> Some \<lparr>pv_level = 2, pv_capacity = sz, pv_log = [], pv_exact = True\<rparr>)"
      by (rule enable_gets_log [OF ok t n(2) ab(2,1)])
        (use n m mem' ab sz in \<open>simp_all add: fun_upd_twist\<close>)
    ultimately show ?thesis by (auto simp: enabled_def)
  qed
qed

lemma enable_allocs:
  assumes ok: "kernel_ok live mem_inv s" and t: "tasks s pd = Some t" "policy_on t = 0"
    and sz: "0 \<le> sz" "sz * 12 < 4294967296"
  shows "\<exists>r s'. sys_enable_policy kmalloc kfree pd sz 234123 s = Inr (r, s') \<and>
    enabled live mem_inv pd sz s r s'"
proof -
  have mem: "mem_ok live mem_inv s" and lvl: "0 \<le> policy_level t" "policy_level t \<le> 2"
    using ok t policy_inv_task by (auto simp: kernel_ok_def task_ok_def)
  obtain x1 s1 where k1: "kalloc kmalloc 20 s = (x1, s1)" by (cases "kalloc kmalloc 20 s") auto
  show ?thesis
  proof (cases x1)
    case None
    note n = kalloc_None [OF mem k1 [unfolded None]]
    have "kernel_ok live mem_inv (set_task pd (t\<lparr>logArray := NULL\<rparr>) s1) \<and>
        view (set_task pd (t\<lparr>logArray := NULL\<rparr>) s1) = view s"
      by (rule kernel_ok_quiet [OF ok t, where t' = "t\<lparr>logArray := NULL\<rparr>"]) (use n t lvl in simp_all)
    then show ?thesis
      using k1 None t sz by (auto simp: sys_enable_policy_def task_by_pid_def enabled_def)
  next
    case (Some a)
    note n = kalloc_Some [OF mem k1 [unfolded Some]]
    show ?thesis
    proof (cases "sz = 0")
      case True
      let ?la = "\<lparr>indexWrite = 0, indexRead = 0, lsize = 0, full = 0, larray = Uninit\<rparr>"
      let ?s2 = "set_task pd (t\<lparr>logArray := Ptr a\<rparr>) s1"
      let ?s' = "set_task pd (t\<lparr>logArray := Ptr a, policy_level := 2, policy_on := 1\<rparr>)
        (?s2\<lparr>kobjs := (kobjs ?s2)(a \<mapsto> LogStruct ?la)\<rparr>)"
      have "sys_enable_policy kmalloc kfree pd sz 234123 s = Inr (0, ?s')"
        using k1 Some t True n by (simp add: sys_enable_policy_def task_by_pid_def kstore_def Let_def)
      moreover have mem': "mem_ok live mem_inv ?s'" using n mem by (auto simp: mem_ok_def)
      have "kernel_ok live mem_inv ?s' \<and> view ?s' = (view s)(pd \<mapsto> Some \<lparr>pv_level = 2, pv_capacity = sz, pv_log = [], pv_exact = True\<rparr>)"
        unfolding True by (rule enable_gets_empty_log [OF ok t n(2)]) (use n mem' in simp_all)
      ultimately show ?thesis by (auto simp: enabled_def)
    qed (use sz enable_array [OF ok t _ sz(2) k1 [unfolded Some]] in simp)
  qed
qed

lemma enable_correct:
  assumes ok: "kernel_ok live mem_inv s" and "sz * 12 < 4294967296"
  shows "\<exists>r s'. sys_enable_policy kmalloc kfree pd sz password s = Inr (r, s') \<and>
    kernel_ok live mem_inv s' \<and> spec_enable pd sz password (view s) r (view s')"
proof (cases "tasks s pd")
  case None
  then show ?thesis
    using ok by (simp add: sys_enable_policy_def task_by_pid_def spec_enable_def view_def)
next
  case (Some t)
  have on: "policy_on t = 0 \<or> policy_on t = 1"
    using policy_inv_task ok Some by (auto simp: kernel_ok_def task_ok_def)
  have v: "view s pd = Some None \<longleftrightarrow> policy_on t = 0"
    using view_task_on [of s pd t] ok Some
    by (cases "policy_on t = 0") (auto simp: kernel_ok_def view_def)
  have v2: "view s pd \<noteq> None" using Some by (simp add: view_def)
  show ?thesis
  proof (cases "password = 234123 \<and> policy_on t = 0 \<and> 0 \<le> sz")
    case True
    then show ?thesis
      using enable_allocs [OF ok Some _ _ assms(2)] v v2 by (auto simp: spec_enable_def enabled_def)
  next
    case False
    then have "sys_enable_policy kmalloc kfree pd sz password s = Inr (- EINVAL, s)"
      using Some on by (auto simp: sys_enable_policy_def task_by_pid_def)
    then show ?thesis using False ok v v2 by (auto simp: spec_enable_def)
  qed
qed

text \<open>Freeing the log of a policed task, as \<^verbatim>\<open>sys_disable_policy\<close> and \<^verbatim>\<open>release_task\<close> do.\<close>

lemma free_log:
  assumes ok: "kernel_ok live mem_inv s" and t: "tasks s p = Some t" "policy_on t \<noteq> 0"
    and s1: "kobjs s1 = kobjs s" "kmem s1 = kmem s"
  obtains la s2 s3 where "kload_log (logArray t) s1 = Inr la" "0 \<le> lsize la"
    "(if lsize la \<noteq> 0 then krelease kfree (larray la) s1 else Inr s1) = Inr s2"
    "krelease kfree (logArray t) s2 = Inr s3"
    "tasks s3 = tasks s1" "kobjs s3 = kobjs s |` (- log_objs s t)" "mem_ok live mem_inv s3"
proof -
  have inv: "policy_inv s" and mem: "mem_ok live mem_inv s1"
    using ok s1 by (auto simp: kernel_ok_def mem_ok_def)
  from inv t show thesis
  proof (cases rule: policed_cases)
    case (zero a la)
    note f = krelease_live [OF mem, of a "LogStruct la", unfolded s1(1), OF zero(2)]
    show ?thesis
      by (rule that [of la s1, OF _ _ _ f(1) [folded zero(1)]])
        (use zero s1 f in \<open>auto simp: kmem_defs restrict_map_def fun_eq_iff\<close>)
  next
    case (ring a la b buf)
    note f = krelease_live [OF mem, of b "LogBuf buf", unfolded s1(1), OF ring(4)]
    let ?s2 = "s1\<lparr>kmem := kfree b (kmem s1), kobjs := (kobjs s)(b := None)\<rparr>"
    have "kobjs ?s2 a = Some (LogStruct la)" using ring by simp
    note g = krelease_live [OF f(2) this]
    show ?thesis
      by (rule that [of la ?s2, OF _ _ _ g(1) [folded ring(1)]])
        (use ring s1 f g in \<open>auto simp: kmem_defs restrict_map_def fun_eq_iff log_inv_def\<close>)
  qed
qed

lemma kernel_ok_dropped:
  assumes ok: "kernel_ok live mem_inv s" and t: "tasks s p = Some t"
    and s': "tasks s' = (tasks s)(p := ot)" "kobjs s' = kobjs s |` (- log_objs s t)"
      "mem_ok live mem_inv s'"
    and ot: "\<And>t'. ot = Some t' \<Longrightarrow> policy_on t' = 0 \<and> 0 \<le> policy_level t' \<and> policy_level t' \<le> 2"
  shows "kernel_ok live mem_inv s' \<and> view s' = (view s)(p := map_option (\<lambda>_. None) ot)"
proof -
  have N: "log_objs_at s' p = {}" using s'(1) ot by (cases ot) (auto simp: log_objs_simps)
  have "policy_inv s'"
    by (rule policy_inv_local [of s p])
      (use ok t s' ot N in \<open>auto simp: kernel_ok_def task_ok_def restrict_map_def split: if_splits\<close>)
  moreover have "view s' = (view s)(p := map_option (view_task s') (tasks s' p))"
    using ok t s' by (intro view_local) (auto simp: kernel_ok_def)
  moreover have "map_option (view_task s') (tasks s' p) = map_option (\<lambda>_. None) ot"
    using s'(1) ot by (cases ot) auto
  ultimately show ?thesis using s'(3) by (simp add: kernel_ok_def)
qed

lemma disable_correct:
  assumes ok: "kernel_ok live mem_inv s"
  shows "\<exists>s'. sys_disable_policy kfree pd password s = Inr (fst (spec_disable pd password (view s)), s') \<and>
    kernel_ok live mem_inv s' \<and> view s' = snd (spec_disable pd password (view s))"
proof (cases "tasks s pd")
  case None
  then show ?thesis
    using ok by (simp add: sys_disable_policy_def task_by_pid_def spec_disable_def view_def)
next
  case (Some t)
  have v: "view s pd = Some None \<longleftrightarrow> policy_on t = 0" "view s pd \<noteq> None"
    using view_task_on [of s pd t] ok Some
    by (cases "policy_on t = 0"; auto simp: kernel_ok_def view_def)+
  show ?thesis
  proof (cases "policy_on t = 0 \<or> password \<noteq> 234123")
    case True
    then show ?thesis
      using Some ok v by (auto simp: sys_disable_policy_def task_by_pid_def spec_disable_def)
  next
    case False
    let ?t = "t\<lparr>policy_on := 0, policy_level := 2\<rparr>"
    let ?s1 = "set_task pd ?t s"
    have on: "policy_on t \<noteq> 0" using False by simp
    have k: "kobjs ?s1 = kobjs s" "kmem ?s1 = kmem s" by simp_all
    obtain la s2 s3 where f: "kload_log (logArray t) ?s1 = Inr la" "0 \<le> lsize la"
      "(if lsize la \<noteq> 0 then krelease kfree (larray la) ?s1 else Inr ?s1) = Inr s2"
      "krelease kfree (logArray t) s2 = Inr s3"
      "tasks s3 = tasks ?s1" "kobjs s3 = kobjs s |` (- log_objs s t)" "mem_ok live mem_inv s3"
      by (rule free_log [OF ok Some on k])
    have "kernel_ok live mem_inv s3 \<and> view s3 = (view s)(pd := map_option (\<lambda>_. None) (Some ?t))"
      by (rule kernel_ok_dropped [OF ok Some]) (use f in simp_all)
    moreover have "sys_disable_policy kfree pd password s = Inr (0, s3)"
      using Some False f by (simp add: sys_disable_policy_def task_by_pid_def Let_def)
    ultimately show ?thesis using False v by (simp add: spec_disable_def)
  qed
qed

lemma release_log_correct:
  assumes ok: "kernel_ok live mem_inv s" and t: "tasks s p = Some t"
  shows "\<exists>s'. release_log kfree t s = Inr s' \<and>
    kernel_ok live mem_inv (s'\<lparr>tasks := (tasks s')(p := None)\<rparr>) \<and>
    view (s'\<lparr>tasks := (tasks s')(p := None)\<rparr>) = (view s)(p := None)"
proof (cases "policy_on t = 0")
  case True
  let ?s = "s\<lparr>tasks := (tasks s)(p := None)\<rparr>"
  have "kernel_ok live mem_inv ?s \<and> view ?s = (view s)(p := map_option (\<lambda>_. None) (None :: task option))"
    by (rule kernel_ok_dropped [OF ok t, where ot = None])
      (use ok True in \<open>auto simp: kernel_ok_def mem_ok_def log_objs_simps\<close>)
  then show ?thesis using True by (simp add: release_log_def)
next
  case False
  obtain la s2 s3 where f: "kload_log (logArray t) s = Inr la" "0 \<le> lsize la"
    "(if lsize la \<noteq> 0 then krelease kfree (larray la) s else Inr s) = Inr s2"
    "krelease kfree (logArray t) s2 = Inr s3"
    "tasks s3 = tasks s" "kobjs s3 = kobjs s |` (- log_objs s t)" "mem_ok live mem_inv s3"
    by (rule free_log [OF ok t False refl refl])
  let ?s = "s3\<lparr>tasks := (tasks s3)(p := None)\<rparr>"
  have "kernel_ok live mem_inv ?s \<and> view ?s = (view s)(p := map_option (\<lambda>_. None) (None :: task option))"
    by (rule kernel_ok_dropped [OF ok t, where ot = None]) (use f in \<open>auto simp: mem_ok_def\<close>)
  moreover have "release_log kfree t s = Inr s3"
    using False f by (auto simp: release_log_def split: if_splits)
  ultimately show ?thesis by simp
qed

text \<open>A task keeps its log: only its level or the contents of its own ring change.\<close>

lemma kernel_ok_ring_update:
  assumes ok: "kernel_ok live mem_inv s" and t: "tasks s p = Some t" "policy_on t \<noteq> 0"
    and log: "logArray t = Ptr a" "kobjs s a = Some (LogStruct la)" "larray la = Ptr b"
      "kobjs s b = Some (LogBuf buf)" "a \<noteq> b" "lsize la * 12 < 4294967296"
    and new: "log_inv la' buf'" "larray la' = Ptr b" "lsize la' = lsize la"
    and s': "tasks s' = tasks s" "kobjs s' = (kobjs s)(b \<mapsto> LogBuf buf', a \<mapsto> LogStruct la')"
      "mem_ok live mem_inv s'"
  shows "kernel_ok live mem_inv s' \<and>
    view s' = (view s)(p \<mapsto> Some \<lparr>pv_level = policy_level t, pv_capacity = lsize la,
                               pv_log = map the (log_list la' buf'), pv_exact = log_exact la'\<rparr>)"
proof -
  have a': "kobjs s' a = Some (LogStruct la')" and b': "kobjs s' b = Some (LogBuf buf')"
    using s'(2) log(5) by auto
  have O: "log_objs s t = {a, b}" and N: "log_objs s' t = {a, b}"
    using t(2) log a' new(2) by (simp_all add: log_objs_simps)
  have "task_ok s t" using ok t policy_inv_task by (auto simp: kernel_ok_def)
  then have ok': "task_ok s' t"
    using log new a' b' by (auto simp: task_ok_def well_logged_def)
  have "policy_inv s'"
    by (rule policy_inv_local [of s p])
      (use ok t s' O N ok' log in \<open>auto simp: kernel_ok_def split: if_splits\<close>)
  moreover have "view s' = (view s)(p := map_option (view_task s') (tasks s' p))"
    using ok t s' O by (intro view_local) (auto simp: kernel_ok_def)
  moreover have "view_task s' t = Some \<lparr>pv_level = policy_level t, pv_capacity = lsize la,
      pv_log = map the (log_list la' buf'), pv_exact = log_exact la'\<rparr>"
    using view_task_ring [OF t(2) log(1) a' new(2) b'] new(3) by simp
  ultimately show ?thesis using s' t by (simp add: kernel_ok_def)
qed

lemma capabilities_correct:
  assumes ok: "kernel_ok live mem_inv s"
  shows "\<exists>s'. sys_set_process_capabilities pd lvl password s =
      Inr (fst (spec_set_capabilities pd lvl password (view s)), s') \<and>
    kernel_ok live mem_inv s' \<and> view s' = snd (spec_set_capabilities pd lvl password (view s))"
proof (cases "tasks s pd")
  case None
  then show ?thesis
    using ok by (simp add: sys_set_process_capabilities_def task_by_pid_def
        spec_set_capabilities_def view_def)
next
  case (Some t)
  show ?thesis
  proof (cases "policy_on t \<noteq> 0 \<and> 0 \<le> lvl \<and> lvl \<le> 2 \<and> password = 234123")
    case True
    then have on: "policy_on t \<noteq> 0" by simp
    let ?t = "t\<lparr>policy_level := lvl\<rparr>" and ?s = "set_task pd (t\<lparr>policy_level := lvl\<rparr>) s"
    have o: "log_objs ?s ?t = log_objs s t" by (cases "logArray t") (simp_all add: log_objs_def)
    have "task_ok s t" using ok Some policy_inv_task by (auto simp: kernel_ok_def)
    then have ok': "task_ok ?s ?t" using True by (simp add: task_ok_def well_logged_def)
    have inv: "policy_inv ?s"
      by (rule policy_inv_local [of s pd])
        (use ok Some o ok' log_objs_dom [OF _ Some] in \<open>auto simp: kernel_ok_def\<close>)
    obtain pv where pv: "view_task s t = Some pv"
      using view_task_on [OF _ Some on] ok by (auto simp: kernel_ok_def)
    have vt: "view_task ?s ?t = Some (pv\<lparr>pv_level := lvl\<rparr>)"
      using pv on by (cases "kload_log (logArray t) s") (auto simp: view_task_def)
    have "view ?s = (view s)(pd := map_option (view_task ?s) (tasks ?s pd))"
      using ok Some by (intro view_local) (auto simp: kernel_ok_def)
    then have "view ?s = (view s)(pd \<mapsto> Some (pv\<lparr>pv_level := lvl\<rparr>))" using vt by simp
    then show ?thesis
      using True Some ok inv pv
      by (simp add: sys_set_process_capabilities_def task_by_pid_def
          spec_set_capabilities_def view_def kernel_ok_def)
  next
    case False
    then show ?thesis
      using Some ok
      by (auto simp: sys_set_process_capabilities_def task_by_pid_def
          spec_set_capabilities_def view_def split: option.split)
  qed
qed

lemma check_ring:
  assumes ok: "kernel_ok live mem_inv s" and t: "tasks s cur = Some t" "policy_on t \<noteq> 0"
    and log: "logArray t = Ptr a" "kobjs s a = Some (LogStruct la)" "larray la = Ptr b"
      "kobjs s b = Some (LogBuf buf)" "log_inv la buf" "a \<noteq> b" "lsize la * 12 < 4294967296"
    and lvl: "policy_level t < req"
    and w: "log_write \<lparr>syscall_req_level = req, proc_level = policy_level t, time = s32 (jiffies s)\<rparr>
       la buf = Inr (la', buf')"
  shows "\<exists>s'. policy_check req cur s = Inr (Some (- EINVAL), s') \<and> kernel_ok live mem_inv s' \<and>
    view s' = (view s)(cur \<mapsto> Some \<lparr>pv_level = policy_level t, pv_capacity = lsize la,
                               pv_log = map the (log_list la' buf'), pv_exact = log_exact la'\<rparr>) \<and>
    tasks s' = tasks s \<and> kobjs s' = (kobjs s)(b \<mapsto> LogBuf buf', a \<mapsto> LogStruct la')"
proof -
  let ?s' = "s\<lparr>kobjs := (kobjs s)(b \<mapsto> LogBuf buf', a \<mapsto> LogStruct la')\<rparr>"
  have on: "policy_on t = 1"
    using ok t policy_inv_task by (auto simp: kernel_ok_def task_ok_def)
  have la': "larray la' = Ptr b" "lsize la' = lsize la"
    using w log by (auto simp: log_write_eq)
  have e: "policy_check req cur s = Inr (Some (- EINVAL), ?s')"
    using on t log lvl w by (simp add: policy_check_def task_by_pid_def kmem_defs)
  have mem: "mem_ok live mem_inv ?s'" using ok log by (auto simp: kernel_ok_def mem_ok_def)
  have "kernel_ok live mem_inv ?s' \<and>
    view ?s' = (view s)(cur \<mapsto> Some \<lparr>pv_level = policy_level t, pv_capacity = lsize la,
                               pv_log = map the (log_list la' buf'), pv_exact = log_exact la'\<rparr>)"
    by (rule kernel_ok_ring_update [OF ok t log(1-4,6,7) log_inv_write [OF log(5) w] la'])
      (use mem in simp_all)
  then show ?thesis using e by auto
qed

lemma check_passes:
  assumes "tasks s cur = Some t" and "policy_on t \<noteq> 1 \<or> req \<le> policy_level t"
  shows "policy_check req cur s = Inr (None, s)"
  using assms by (auto simp: policy_check_def task_by_pid_def)

text \<open>With room for one more record the check is the abstract one.\<close>

lemma check_correct:
  assumes ok: "kernel_ok live mem_inv s" and t: "tasks s cur = Some t"
    and room: "\<And>pv. view s cur = Some (Some pv) \<Longrightarrow> pv_level pv < req \<Longrightarrow>
                 int (length (pv_log pv)) < pv_capacity pv"
  shows "\<exists>s'. policy_check req cur s = Inr (fst (spec_check req cur (s32 (jiffies s)) (view s)), s') \<and>
    kernel_ok live mem_inv s' \<and> view s' = snd (spec_check req cur (s32 (jiffies s)) (view s))"
proof (cases "policy_on t \<noteq> 0 \<and> policy_level t < req")
  case False
  have "policy_on t = 0 \<or> policy_on t = 1"
    using policy_inv_task ok t by (auto simp: kernel_ok_def task_ok_def)
  with False have "policy_check req cur s = Inr (None, s)" by (intro check_passes [OF t]) auto
  moreover have "pv_level pv = policy_level t" if "view_task s t = Some pv" for pv
    using that by (auto simp: view_task_def split: if_splits sum.splits)
  ultimately show ?thesis
    using False ok t by (auto simp: spec_check_def view_def split: option.split)
next
  case True
  then have on: "policy_on t \<noteq> 0" and lvl: "policy_level t < req" by auto
  from ok have inv: "policy_inv s" by (simp add: kernel_ok_def)
  from inv t on show ?thesis
  proof (cases rule: policed_cases)
    case (zero a la)
    then show ?thesis
      using room view_task_zero [OF on zero(1,2,7,6)] lvl t by (simp add: view_def)
  next
    case (ring a la b buf)
    note v = view_task_ring [OF on ring(1-4)]
    have "int (nat (log_count la)) < lsize la" using room v lvl t by (simp add: view_def)
    then have nf: "full la \<noteq> 1" by (auto simp: log_count_def split: if_splits)
    let ?r = "\<lparr>syscall_req_level = req, proc_level = policy_level t, time = s32 (jiffies s)\<rparr>"
    obtain la' buf' where w: "log_write ?r la buf = Inr (la', buf')"
      using log_write_eq [OF ring(5), of ?r] by auto
    from check_ring [OF ok t on ring(1-5,7,6) lvl w] show ?thesis
      using v t lvl log_list_write_room [OF ring(5) nf w] log_exact_write_room [OF ring(5) nf w]
      by (auto simp: spec_check_def view_def)
  qed
qed

text \<open>
  Without room the check still refuses the call, stays inside the ring and keeps the
  invariant; only a log of capacity zero makes it fault.
\<close>

lemma check_safe:
  assumes ok: "kernel_ok live mem_inv s" and t: "tasks s cur = Some t"
    and cap: "\<And>pv. view s cur = Some (Some pv) \<Longrightarrow> pv_level pv < req \<Longrightarrow> pv_capacity pv \<noteq> 0"
  shows "\<exists>s'. policy_check req cur s = Inr (fst (spec_check req cur (s32 (jiffies s)) (view s)), s') \<and>
    kernel_ok live mem_inv s'"
proof (cases "policy_on t \<noteq> 0 \<and> policy_level t < req")
  case False
  have "policy_on t = 0 \<or> policy_on t = 1"
    using policy_inv_task ok t by (auto simp: kernel_ok_def task_ok_def)
  with False have "policy_check req cur s = Inr (None, s)" by (intro check_passes [OF t]) auto
  moreover have "pv_level pv = policy_level t" if "view_task s t = Some pv" for pv
    using that by (auto simp: view_task_def split: if_splits sum.splits)
  ultimately show ?thesis
    using False ok t by (auto simp: spec_check_def view_def split: option.split)
next
  case True
  then have on: "policy_on t \<noteq> 0" and lvl: "policy_level t < req" by auto
  from ok have inv: "policy_inv s" by (simp add: kernel_ok_def)
  from inv t on show ?thesis
  proof (cases rule: policed_cases)
    case (zero a la)
    then show ?thesis
      using cap view_task_zero [OF on zero(1,2,7,6)] lvl t by (simp add: view_def)
  next
    case (ring a la b buf)
    let ?r = "\<lparr>syscall_req_level = req, proc_level = policy_level t, time = s32 (jiffies s)\<rparr>"
    obtain la' buf' where w: "log_write ?r la buf = Inr (la', buf')"
      using log_write_eq [OF ring(5), of ?r] by auto
    from check_ring [OF ok t on ring(1-5,7,6) lvl w] show ?thesis
      using view_task_ring [OF on ring(1-4)] t lvl by (auto simp: spec_check_def view_def)
  qed
qed

text \<open>Allocating the temporary array and freeing it again leaves the log objects as they were.\<close>

lemma tmp_roundtrip:
  assumes "mem_ok live mem_inv s" and "kalloc kmalloc n s = (Some tmp, s1)"
  obtains s2 where "krelease kfree (Ptr tmp) s1 = Inr s2" "tasks s2 = tasks s" "kobjs s2 = kobjs s"
    "mem_ok live mem_inv s2"
proof -
  note n = kalloc_Some [OF assms]
  have "kobjs s1 tmp = Some (Raw n)" using n by simp
  note f = krelease_live [OF n(6) this]
  have "(kobjs s)(tmp := None) = kobjs s" using n(2) by (simp add: fun_upd_idem domIff)
  then show thesis by (intro that [OF f(1)]) (use n f in simp_all)
qed

lemma copy_to_user_take:
  assumes "length xs \<le> n"
  shows "\<exists>k \<le> n. copy_to_user left xs = take k xs"
  using assms by (intro exI [of _ "(length xs * 12 - left) div 12"]) (auto simp: copy_to_user_def)

lemma copy_to_user_all [simp]: "copy_to_user 0 xs = xs"
  by (simp add: copy_to_user_def)

lemma get_ring:
  assumes ok: "kernel_ok live mem_inv s" and t: "tasks s pd = Some t" "policy_on t \<noteq> 0"
    and log: "logArray t = Ptr a" "kobjs s a = Some (LogStruct la)" "larray la = Ptr b"
      "kobjs s b = Some (LogBuf buf)" "log_inv la buf" "a \<noteq> b" "lsize la * 12 < 4294967296"
    and exact: "log_exact la" and sz: "0 \<le> sz" "sz \<le> log_count la" "0 < sz \<or> full la \<noteq> 1"
    and k: "kalloc kmalloc (buf_bytes sz) s = (Some tmp, s1)"
  shows "\<exists>out s'. sys_get_process_log kmalloc kfree left pd sz s =
      Inr (if left = 0 then 0 else - ENOMEM, map Some out, s') \<and>
    kernel_ok live mem_inv s' \<and>
    (if left = 0
     then out = map the (take (nat sz) (log_list la buf)) \<and>
       view s' = (view s)(pd \<mapsto> Some \<lparr>pv_level = policy_level t, pv_capacity = lsize la,
          pv_log = map the (drop (nat sz) (log_list la buf)), pv_exact = True\<rparr>)
     else (\<exists>j \<le> nat sz. out = map the (take j (log_list la buf))) \<and> view s' = view s)"
proof -
  have mem: "mem_ok live mem_inv s" using ok by (simp add: kernel_ok_def)
  note n = kalloc_Some [OF mem k]
  obtain s2 where f: "krelease kfree (Ptr tmp) s1 = Inr s2" "tasks s2 = tasks s" "kobjs s2 = kobjs s"
    "mem_ok live mem_inv s2"
    by (rule tmp_roundtrip [OF mem k])
  let ?L = "log_list la buf" and ?la = "la\<lparr>indexRead := (indexRead la + sz) mod lsize la\<rparr>"
  have nn: "None \<notin> set ?L" using log(5) by (simp add: log_inv_def)
  have someall: "map (Some \<circ> the) xs = xs" if "set xs \<subseteq> set ?L" for xs
  proof -
    have "Some (the x) = x" if "x \<in> set xs" for x
      using that \<open>set xs \<subseteq> set ?L\<close> nn by (metis option.collapse subsetD)
    then show ?thesis by (simp add: map_idI)
  qed
  have "sz * 12 < 4294967296"
    using sz(2) log(7) log_count_range [OF log(5)] by linarith
  then have c: "log_copy (nat sz) (buf_room sz) la buf [] = Inr (?la, take (nat sz) ?L)"
    using log_copy_list [OF log(5) sz(1,2)] buf_room_eq [OF sz(1)] by simp
  have tb: "kload_buf (larray la) s1 = Inr buf"
    using log n by (auto simp: kmem_defs)
  have copied: "(if sz = 0 then Inr (la, []) else kbind (kload_buf (larray la) s1)
      (\<lambda>buf. log_copy (nat sz) (buf_room sz) la buf [])) = Inr (?la, take (nat sz) ?L)"
    using c tb sz log(5) by (auto simp: log_inv_def mod_pos_pos_trivial)
  have unfold: "sys_get_process_log kmalloc kfree left pd sz s =
      kbind (kstore (Ptr a) (LogStruct (if left = 0 then log_consume sz ?la else la)) s2)
        (\<lambda>s3. Inr (if left = 0 then 0 else - ENOMEM, copy_to_user left (take (nat sz) ?L), s3))"
    using t log k f copied sz log_can_read_iff [OF log(5)]
    by (simp add: sys_get_process_log_def task_by_pid_def kload_log_def kload_def)
  let ?la' = "if left = 0 then log_consume sz ?la else la"
  let ?s' = "s2\<lparr>kobjs := (kobjs s2)(a \<mapsto> LogStruct ?la')\<rparr>"
  have e: "sys_get_process_log kmalloc kfree left pd sz s =
      Inr (if left = 0 then 0 else - ENOMEM, copy_to_user left (take (nat sz) ?L), ?s')"
    using unfold f log by (simp add: kstore_def)
  have mem': "mem_ok live mem_inv ?s'" using f log by (auto simp: mem_ok_def)
  have la': "log_inv ?la' buf" "larray ?la' = Ptr b" "lsize ?la' = lsize la"
    using log log_inv_consume [OF log(5) sz(1,2)] by (auto simp: log_consume_def Let_def)
  have upd: "kernel_ok live mem_inv ?s' \<and> view ?s' = (view s)(pd \<mapsto> Some \<lparr>pv_level = policy_level t,
      pv_capacity = lsize la, pv_log = map the (log_list ?la' buf), pv_exact = log_exact ?la'\<rparr>)"
    by (rule kernel_ok_ring_update [OF ok t log(1-4,6,7) la'])
      (use f log mem' in \<open>simp_all add: fun_upd_idem\<close>)
  show ?thesis
  proof (cases "left = 0")
    case True
    then show ?thesis
      using e upd log_list_consume [OF log(5) exact sz]
      by (intro exI [of _ "map the (take (nat sz) ?L)"] exI [of _ ?s'])
        (simp add: someall set_take_subset)
  next
    case False
    obtain j where j: "j \<le> nat sz" "copy_to_user left (take (nat sz) ?L) = take j (take (nat sz) ?L)"
      using copy_to_user_take [of "take (nat sz) ?L" "nat sz" left] by auto
    have "view ?s' = view s"
      using upd False t log view_task_ring [OF t(2) log(1-4)] by (simp add: view_def fun_upd_idem)
    then show ?thesis
      using False e upd j
      by (intro exI [of _ "map the (take j ?L)"] exI [of _ ?s'])
        (auto simp: someall set_take_subset min_def)
  qed
qed

text \<open>The memory for the copy is not there: the call gives up with nothing changed.\<close>

lemma get_oom:
  assumes ok: "kernel_ok live mem_inv s" and k: "kalloc kmalloc n s = (None, s1)"
  shows "kernel_ok live mem_inv s1 \<and> view s1 = view s"
proof -
  have mem: "mem_ok live mem_inv s" using ok by (simp add: kernel_ok_def)
  show ?thesis
    using kalloc_None [OF mem k] ok policy_inv_same [of s1 s] by (simp add: kernel_ok_def)
qed

text \<open>A log of capacity zero has nothing to read but accepts a read of no records.\<close>

lemma get_zero:
  assumes ok: "kernel_ok live mem_inv s" and t: "tasks s pd = Some t" "policy_on t \<noteq> 0"
    and log: "logArray t = Ptr a" "kobjs s a = Some (LogStruct la)" "lsize la = 0"
      "indexWrite la = 0" "indexRead la = 0" "full la = 0" "larray la = Uninit"
  shows "\<exists>r out s'. sys_get_process_log kmalloc kfree left pd sz s = Inr (r, map Some out, s') \<and>
    kernel_ok live mem_inv s' \<and> spec_get_log (left = 0) pd sz (view s) r out (view s')"
proof -
  have inv: "policy_inv s" and mem: "mem_ok live mem_inv s" using ok by (auto simp: kernel_ok_def)
  have vs: "view s pd = Some (Some \<lparr>pv_level = policy_level t, pv_capacity = 0, pv_log = [], pv_exact = True\<rparr>)"
    using view_task_zero [OF t(2) log(1,2,7,6)] t(1) log(3) by (simp add: view_def)
  have cr: "log_can_read sz la \<longleftrightarrow> sz = 0" using log by (auto simp: log_can_read_def)
  obtain x s1 where k: "kalloc kmalloc (buf_bytes sz) s = (x, s1)"
    by (cases "kalloc kmalloc (buf_bytes sz) s") auto
  consider "sz \<noteq> 0" | "sz = 0" "x = None" | tmp where "sz = 0" "x = Some tmp" by (cases x) auto
  then show ?thesis
  proof cases
    case 1
    then have "sys_get_process_log kmalloc kfree left pd sz s = Inr (- EINVAL, [], s)"
      using t log cr by (simp add: sys_get_process_log_def task_by_pid_def kmem_defs)
    then show ?thesis using 1 ok vs by (auto simp: spec_get_log_def)
  next
    case 2
    then have "sys_get_process_log kmalloc kfree left pd sz s = Inr (- ENOMEM, [], s1)"
      using t log k cr by (simp add: sys_get_process_log_def task_by_pid_def kmem_defs)
    then show ?thesis using get_oom [OF ok k [unfolded 2(2)]] 2 vs by (auto simp: spec_get_log_def)
  next
    case 3
    obtain s2 where f: "krelease kfree (Ptr tmp) s1 = Inr s2" "tasks s2 = tasks s" "kobjs s2 = kobjs s"
      "mem_ok live mem_inv s2"
      by (rule tmp_roundtrip [OF mem k [unfolded 3(2)]])
    have c: "log_consume 0 la = la" "la\<lparr>indexRead := 0\<rparr> = la"
      using log by (simp_all add: log_consume_def)
    let ?s' = "s2\<lparr>kobjs := (kobjs s2)(a \<mapsto> LogStruct la)\<rparr>"
    have "sys_get_process_log kmalloc kfree left pd sz s = Inr (if left = 0 then 0 else - ENOMEM, [], ?s')"
      using 3 t log k f cr
      by (simp add: c sys_get_process_log_def task_by_pid_def kmem_defs copy_to_user_def)
    moreover have "kernel_ok live mem_inv ?s' \<and> view ?s' = view s"
      using f log inv policy_inv_same [of ?s' s] by (auto simp: kernel_ok_def fun_upd_idem mem_ok_def)
    ultimately show ?thesis using 3 vs by (auto simp: spec_get_log_def fun_upd_idem)
  qed
qed

lemma get_correct:
  assumes ok: "kernel_ok live mem_inv s"
    and exact: "\<And>pv. view s pd = Some (Some pv) \<Longrightarrow> pv_exact pv"
    and nonzero: "\<And>pv. view s pd = Some (Some pv) \<Longrightarrow> sz = 0 \<Longrightarrow>
      int (length (pv_log pv)) < pv_capacity pv \<or> pv_capacity pv = 0"
  shows "\<exists>r out s'. sys_get_process_log kmalloc kfree left pd sz s = Inr (r, map Some out, s') \<and>
    kernel_ok live mem_inv s' \<and> spec_get_log (left = 0) pd sz (view s) r out (view s')"
proof -
  have inv: "policy_inv s" using ok by (simp add: kernel_ok_def)
  obtain x s1 where k: "kalloc kmalloc (buf_bytes sz) s = (x, s1)"
    by (cases "kalloc kmalloc (buf_bytes sz) s") auto
  consider "tasks s pd = None" | t where "tasks s pd = Some t" "policy_on t = 0"
    | t where "tasks s pd = Some t" "policy_on t \<noteq> 0" by blast
  then show ?thesis
  proof cases
    case 3
    note on = 3(2)
    from inv 3 show ?thesis
    proof (cases rule: policed_cases)
      case (zero a la)
      then show ?thesis by (intro get_zero [OF ok 3])
    next
      case (ring a la b buf)
      have vs: "view s pd = Some (Some \<lparr>pv_level = policy_level t, pv_capacity = lsize la,
          pv_log = map the (log_list la buf), pv_exact = log_exact la\<rparr>)"
        using view_task_ring [OF on ring(1-4)] 3 by (simp add: view_def)
      have cr: "log_can_read sz la \<longleftrightarrow> 0 \<le> sz \<and> sz \<le> log_count la"
        by (rule log_can_read_iff [OF ring(5)])
      have ex: "log_exact la" using exact [OF vs] by simp
      have cnt: "int (nat (log_count la)) = log_count la" using log_count_range [OF ring(5)] by simp
      have nz: "0 < sz \<or> full la \<noteq> 1" if "0 \<le> sz"
        using that nonzero [OF vs] ring(5) cnt by (auto simp: log_count_def log_inv_def)
      consider "\<not> (0 \<le> sz \<and> sz \<le> log_count la)" | "0 \<le> sz" "sz \<le> log_count la" "x = None"
        | tmp where "0 \<le> sz" "sz \<le> log_count la" "x = Some tmp" by (cases x) auto
      then show ?thesis
      proof cases
        case 1
        then have "sys_get_process_log kmalloc kfree left pd sz s = Inr (- EINVAL, [], s)"
          using 3 ring cr by (simp add: sys_get_process_log_def task_by_pid_def kmem_defs)
        then show ?thesis using 1 ok vs cnt by (auto simp: spec_get_log_def)
      next
        case 2
        then have "sys_get_process_log kmalloc kfree left pd sz s = Inr (- ENOMEM, [], s1)"
          using 3 ring k cr by (simp add: sys_get_process_log_def task_by_pid_def kmem_defs)
        then show ?thesis
          using get_oom [OF ok k [unfolded 2(3)]] 2 vs cnt by (auto simp: spec_get_log_def)
      next
        case x: 3
        from get_ring [OF ok 3 ring(1-5,7,6) ex x(1,2) nz [OF x(1)] k [unfolded x(3)], of left]
        obtain out s' where g: "sys_get_process_log kmalloc kfree left pd sz s =
            Inr (if left = 0 then 0 else - ENOMEM, map Some out, s')" "kernel_ok live mem_inv s'"
          and c: "if left = 0
            then out = map the (take (nat sz) (log_list la buf)) \<and>
              view s' = (view s)(pd \<mapsto> Some \<lparr>pv_level = policy_level t, pv_capacity = lsize la,
                pv_log = map the (drop (nat sz) (log_list la buf)), pv_exact = True\<rparr>)
            else (\<exists>j \<le> nat sz. out = map the (take j (log_list la buf))) \<and> view s' = view s"
          by blast
        have "spec_get_log (left = 0) pd sz (view s) (if left = 0 then 0 else - ENOMEM) out (view s')"
          using c x cnt ex by (cases "left = 0") (auto simp: spec_get_log_def vs take_map drop_map)
        with g show ?thesis by blast
      qed
    qed
  qed (use ok in \<open>simp_all add: sys_get_process_log_def task_by_pid_def spec_get_log_def view_def\<close>)
qed

text \<open>
  Outside the promises. The check faults exactly when it refuses a process whose log has
  capacity zero: \<^verbatim>\<open>array\<close> was never set. Reading no records from a full log empties it. A size
  whose byte count wraps gives an array too short for its first record.
\<close>

lemma check_faults_iff:
  assumes ok: "kernel_ok live mem_inv s" and t: "tasks s cur = Some t"
  shows "policy_check req cur s = Inl f \<longleftrightarrow>
    f = WildDeref \<and> (\<exists>pv. view s cur = Some (Some pv) \<and> pv_level pv < req \<and> pv_capacity pv = 0)"
proof (cases "\<exists>pv. view s cur = Some (Some pv) \<and> pv_level pv < req \<and> pv_capacity pv = 0")
  case False
  then show ?thesis using check_safe [OF ok t, of req] by fastforce
next
  case True
  then obtain pv where pv: "view_task s t = Some pv" "pv_level pv < req" "pv_capacity pv = 0"
    using t by (auto simp: view_def)
  then have on: "policy_on t \<noteq> 0" by (auto simp: view_task_def split: if_splits)
  then have on1: "policy_on t = 1"
    using ok t policy_inv_task by (auto simp: kernel_ok_def task_ok_def)
  from ok have "policy_inv s" by (simp add: kernel_ok_def)
  from this t on have "policy_check req cur s = Inl WildDeref"
  proof (cases rule: policed_cases)
    case (zero a la)
    then have "policy_level t < req" using pv view_task_zero [OF on zero(1,2,7,6)] by auto
    then show ?thesis using zero t on1 by (simp add: policy_check_def task_by_pid_def kmem_defs)
  next
    case (ring a la b buf)
    then show ?thesis using pv view_task_ring [OF on ring(1-4)] by (auto simp: log_inv_def)
  qed
  with True show ?thesis by auto
qed

lemma get_none_from_full:
  assumes ok: "kernel_ok live mem_inv s" and v: "view s pd = Some (Some pv)" and ex: "pv_exact pv"
    and full: "int (length (pv_log pv)) = pv_capacity pv" "pv_capacity pv \<noteq> 0"
    and got: "sys_get_process_log kmalloc kfree 0 pd 0 s = Inr (0, out, s')"
  shows "out = [] \<and> kernel_ok live mem_inv s' \<and> view s' = (view s)(pd \<mapsto> Some (pv\<lparr>pv_log := []\<rparr>))"
proof -
  obtain t where t: "tasks s pd = Some t" and vt: "view_task s t = Some pv"
    using v by (auto simp: view_def)
  then have on: "policy_on t \<noteq> 0" by (auto simp: view_task_def split: if_splits)
  have mem: "mem_ok live mem_inv s" using ok by (simp add: kernel_ok_def)
  from ok have "policy_inv s" by (simp add: kernel_ok_def)
  from this t on show ?thesis
  proof (cases rule: policed_cases)
    case (zero a la)
    then show ?thesis using vt full view_task_zero [OF on zero(1,2,7,6)] by auto
  next
    case (ring a la b buf)
    have pv: "pv = \<lparr>pv_level = policy_level t, pv_capacity = lsize la,
        pv_log = map the (log_list la buf), pv_exact = log_exact la\<rparr>"
      using vt view_task_ring [OF on ring(1-4)] by simp
    have "0 < lsize la" using ring(5) unfolding log_inv_def by blast
    then have "log_count la < lsize la" if "full la \<noteq> 1" using that by (simp add: log_count_def)
    moreover have "log_count la = lsize la" using full pv log_count_range [OF ring(5)] by simp
    ultimately have fl: "full la = 1" by auto
    obtain x s1 where k: "kalloc kmalloc (buf_bytes 0) s = (x, s1)"
      by (cases "kalloc kmalloc (buf_bytes 0) s") auto
    have x: "x \<noteq> None" using got t on ring k fl
      by (cases x) (auto simp: sys_get_process_log_def task_by_pid_def kload_log_def kload_def log_can_read_def log_inv_def)
    then obtain tmp where tmp: "x = Some tmp" by auto
    obtain s2 where f: "krelease kfree (Ptr tmp) s1 = Inr s2" "tasks s2 = tasks s" "kobjs s2 = kobjs s"
      "mem_ok live mem_inv s2"
      by (rule tmp_roundtrip [OF mem k [unfolded tmp]])
    let ?la = "log_consume 0 la" and ?s' = "s2\<lparr>kobjs := (kobjs s2)(a \<mapsto> LogStruct (log_consume 0 la))\<rparr>"
    have e: "out = []" "s' = ?s'"
      using got t on ring k fl tmp f
      by (auto simp: sys_get_process_log_def task_by_pid_def kload_log_def kload_def kstore_def
          log_can_read_def log_inv_def)
    have idx: "la\<lparr>indexRead := (indexRead la + 0) mod lsize la\<rparr> = la"
      using ring(5) by (simp add: log_inv_def mod_pos_pos_trivial)
    have la': "log_inv ?la buf" "larray ?la = Ptr b" "lsize ?la = lsize la"
      using ring(3) log_inv_consume [OF ring(5), of 0] log_count_range [OF ring(5)] idx
      by (auto simp: log_consume_def Let_def)
    have "kernel_ok live mem_inv ?s' \<and> view ?s' = (view s)(pd \<mapsto> Some \<lparr>pv_level = policy_level t,
        pv_capacity = lsize la, pv_log = map the (log_list ?la buf), pv_exact = log_exact ?la\<rparr>)"
      by (rule kernel_ok_ring_update [OF ok t on ring(1-4,7,6) la'])
        (use f ring in \<open>auto simp: fun_upd_idem mem_ok_def\<close>)
    moreover have "log_list ?la buf = []"
      using log_list_consume_zero_full [OF ring(5) _ fl] idx ex pv by simp
    ultimately show ?thesis using e pv ex by simp
  qed
qed

lemma enable_wraps:
  assumes ok: "kernel_ok live mem_inv s" and t: "tasks s pd = Some t" "policy_on t = 0"
    and sz: "0 < sz" "buf_room sz = 0"
    and on: "sys_enable_policy kmalloc kfree pd sz 234123 s = Inr (0, s1)"
    and low: "sys_set_process_capabilities pd lvl 234123 s1 = Inr (0, s2)" "lvl < req"
  shows "policy_check req pd s2 = Inl OutOfRange"
proof -
  have mem: "mem_ok live mem_inv s" using ok by (simp add: kernel_ok_def)
  obtain x1 s' where k1: "kalloc kmalloc 20 s = (x1, s')" by (cases "kalloc kmalloc 20 s") auto
  then obtain a where a: "x1 = Some a"
    using on t sz by (cases x1) (auto simp: sys_enable_policy_def task_by_pid_def)
  note n = kalloc_Some [OF mem k1 [unfolded a]]
  let ?s2 = "set_task pd (t\<lparr>logArray := Ptr a\<rparr>) s'"
  have mem2: "mem_ok live mem_inv ?s2" using n by simp
  obtain x2 s'' where k2: "kalloc kmalloc (buf_bytes sz) ?s2 = (x2, s'')"
    by (cases "kalloc kmalloc (buf_bytes sz) ?s2") auto
  then obtain b where b: "x2 = Some b"
    using on t sz k1 a by (cases x2) (auto simp: sys_enable_policy_def task_by_pid_def Let_def elim!: kbind_eq_InrE)
  note m = kalloc_Some [OF mem2 k2 [unfolded b]]
  have ab: "a \<noteq> b" using m n by (auto split: if_splits)
  have s1: "s1 = set_task pd (t\<lparr>logArray := Ptr a, policy_level := 2, policy_on := 1\<rparr>)
      (s''\<lparr>kobjs := (kobjs s'')(b \<mapsto> LogBuf [],
         a \<mapsto> LogStruct \<lparr>indexWrite = 0, indexRead = 0, lsize = sz, full = 0, larray = Ptr b\<rparr>)\<rparr>)"
    using on k1 a t sz k2 b n m ab
    by (simp add: sys_enable_policy_def task_by_pid_def kstore_def Let_def)
  have "s2 = set_task pd (t\<lparr>logArray := Ptr a, policy_on := 1, policy_level := lvl\<rparr>) s1"
    using low by (auto simp: s1 sys_set_process_capabilities_def split: if_splits)
  then show ?thesis
    using ab low by (simp add: s1 policy_check_def kmem_defs log_write_def)
qed

end

end
