(* ===== verification/Scheduler.thy ===== *)
theory Scheduler
  imports Policy
begin

text \<open>
  The O(1) scheduler of kernel/sched.c on one processor: the run queue with its active and
  expired priority arrays, waking, the timer tick, \<^verbatim>\<open>schedule\<close>, \<^verbatim>\<open>sys_sched_yield\<close> with the policy
  check at its head, and the calls that change priorities. A task is its process id, 0 the idle
  task, which the table of processes does not hold. The clock runs at 512 Hz.
\<close>

subsection \<open>State\<close>

record prio_array =
  nr_active :: int
  abitmap :: "nat \<Rightarrow> bool"
  queue :: "nat \<Rightarrow> int list"

record runqueue =
  nr_running :: int
  nr_switches :: int
  expired_timestamp :: int
  nr_uninterruptible :: int
  curr :: int
  active :: array_id
  expired :: array_id
  arrays :: "array_id \<Rightarrow> prio_array"

record 'm sched = "'m kernel" +
  rq :: runqueue
  idle_task :: task
  kstat_user :: int
  kstat_nice :: int
  kstat_system :: int

abbreviation (input) MAX_RT_PRIO :: int where "MAX_RT_PRIO \<equiv> 100"
abbreviation (input) MAX_PRIO :: int where "MAX_PRIO \<equiv> 140"
abbreviation (input) TASK_RUNNING :: int where "TASK_RUNNING \<equiv> 0"
abbreviation (input) TASK_INTERRUPTIBLE :: int where "TASK_INTERRUPTIBLE \<equiv> 1"
abbreviation (input) TASK_UNINTERRUPTIBLE :: int where "TASK_UNINTERRUPTIBLE \<equiv> 2"
abbreviation (input) SCHED_OTHER :: int where "SCHED_OTHER \<equiv> 0"
abbreviation (input) SCHED_FIFO :: int where "SCHED_FIFO \<equiv> 1"
abbreviation (input) SCHED_RR :: int where "SCHED_RR \<equiv> 2"
abbreviation (input) HZ :: int where "HZ \<equiv> 512"
abbreviation (input) MIN_TIMESLICE :: int where "MIN_TIMESLICE \<equiv> 5"
abbreviation (input) MAX_TIMESLICE :: int where "MAX_TIMESLICE \<equiv> 153"
abbreviation (input) MAX_SLEEP_AVG :: int where "MAX_SLEEP_AVG \<equiv> 1024"
abbreviation (input) STARVATION_LIMIT :: int where "STARVATION_LIMIT \<equiv> 1024"

text \<open>Division of C: towards zero.\<close>

definition cdiv :: "int \<Rightarrow> int \<Rightarrow> int" where
  "cdiv a b = (if a < 0 then - ((- a) div b) else a div b)"

definition sched_task :: "('m, 'z) sched_scheme \<Rightarrow> int \<Rightarrow> task option" where
  "sched_task s p = (if p = 0 then Some (idle_task s) else tasks s p)"

definition put_task :: "int \<Rightarrow> task \<Rightarrow> ('m, 'z) sched_scheme \<Rightarrow> ('m, 'z) sched_scheme" where
  "put_task p t s = (if p = 0 then s\<lparr>idle_task := t\<rparr> else s\<lparr>tasks := (tasks s)(p \<mapsto> t)\<rparr>)"

definition load_task :: "int \<Rightarrow> ('m, 'z) sched_scheme \<Rightarrow> task kres" where
  "load_task p s = (case sched_task s p of None \<Rightarrow> Inl WildDeref | Some t \<Rightarrow> Inr t)"

subsection \<open>Priorities and time slices\<close>

definition NICE_TO_PRIO :: "int \<Rightarrow> int" where
  "NICE_TO_PRIO nice = MAX_RT_PRIO + nice + 20"

definition PRIO_TO_NICE :: "int \<Rightarrow> int" where
  "PRIO_TO_NICE p = p - MAX_RT_PRIO - 20"

definition TASK_NICE :: "task \<Rightarrow> int" where
  "TASK_NICE t = PRIO_TO_NICE (static_prio t)"

definition DELTA :: "task \<Rightarrow> int" where
  "DELTA t = cdiv (TASK_NICE t * 10) 40 + 2"

definition TASK_INTERACTIVE :: "task \<Rightarrow> bool" where
  "TASK_INTERACTIVE t \<longleftrightarrow> prio t \<le> static_prio t - DELTA t"

definition TASK_TIMESLICE :: "task \<Rightarrow> int" where
  "TASK_TIMESLICE t = MIN_TIMESLICE + cdiv ((MAX_TIMESLICE - MIN_TIMESLICE) * (MAX_PRIO - 1 - static_prio t)) 39"

definition rt_task :: "task \<Rightarrow> bool" where
  "rt_task t \<longleftrightarrow> prio t < MAX_RT_PRIO"

definition effective_prio :: "task \<Rightarrow> int" where
  "effective_prio t =
     (let bonus = s32 (u32 (1000 * sleep_avg t) div MAX_SLEEP_AVG div 100 - 5);
          p = static_prio t - bonus;
          p1 = (if p < MAX_RT_PRIO then MAX_RT_PRIO else p)
      in if p1 > MAX_PRIO - 1 then MAX_PRIO - 1 else p1)"

subsection \<open>Priority arrays\<close>

definition upd_array :: "array_id \<Rightarrow> (prio_array \<Rightarrow> prio_array) \<Rightarrow> runqueue \<Rightarrow> runqueue" where
  "upd_array a f r = r\<lparr>arrays := (arrays r)(a := f (arrays r a))\<rparr>"

text \<open>\<^verbatim>\<open>list_del(&p->run_list)\<close>: the task leaves whichever queue it is on.\<close>

definition list_del_run :: "int \<Rightarrow> runqueue \<Rightarrow> runqueue" where
  "list_del_run p r = r\<lparr>arrays := (\<lambda>a. (arrays r a)\<lparr>queue := (\<lambda>i. remove1 p (queue (arrays r a) i))\<rparr>)\<rparr>"

definition dequeue_task :: "int \<Rightarrow> task \<Rightarrow> array_id \<Rightarrow> runqueue \<Rightarrow> runqueue kres" where
  "dequeue_task p t a r =
     (if 0 \<le> prio t \<and> prio t < MAX_PRIO then
        let r1 = list_del_run p (upd_array a (\<lambda>ar. ar\<lparr>nr_active := nr_active ar - 1\<rparr>) r)
        in Inr (if queue (arrays r1 a) (nat (prio t)) = []
                then upd_array a (\<lambda>ar. ar\<lparr>abitmap := (abitmap ar)(nat (prio t) := False)\<rparr>) r1 else r1)
      else Inl OutOfRange)"

definition enqueue_task :: "int \<Rightarrow> task \<Rightarrow> array_id \<Rightarrow> runqueue \<Rightarrow> (task \<times> runqueue) kres" where
  "enqueue_task p t a r =
     (if 0 \<le> prio t \<and> prio t < MAX_PRIO then
        Inr (t\<lparr>run_array := Some a\<rparr>,
             upd_array a (\<lambda>ar. ar\<lparr>queue := (queue ar)(nat (prio t) := queue ar (nat (prio t)) @ [p]),
                                  abitmap := (abitmap ar)(nat (prio t) := True),
                                  nr_active := nr_active ar + 1\<rparr>) r)
      else Inl OutOfRange)"

definition ffs_word :: "(nat \<Rightarrow> bool) \<Rightarrow> nat \<Rightarrow> nat option" where
  "ffs_word b k = find (\<lambda>i. b (32 * k + i)) [0..<32]"

text \<open>\<^verbatim>\<open>_sched_find_first_bit\<close> on the five words of the bit map; \<^verbatim>\<open>__ffs(0)\<close> is undefined.\<close>

definition sched_find_first_bit :: "(nat \<Rightarrow> bool) \<Rightarrow> nat kres" where
  "sched_find_first_bit b =
     (case ffs_word b 0 of Some i \<Rightarrow> Inr i | None \<Rightarrow>
     (case ffs_word b 1 of Some i \<Rightarrow> Inr (i + 32) | None \<Rightarrow>
     (case ffs_word b 2 of Some i \<Rightarrow> Inr (i + 64) | None \<Rightarrow>
     (case ffs_word b 3 of Some i \<Rightarrow> Inr (i + 96) | None \<Rightarrow>
     (case ffs_word b 4 of Some i \<Rightarrow> Inr (i + 128) | None \<Rightarrow> Inl OutOfRange)))))"

subsection \<open>Activation, waking and leaving\<close>

definition activate_task :: "int \<Rightarrow> task \<Rightarrow> ('m, 'z) sched_scheme \<Rightarrow> (task \<times> ('m, 'z) sched_scheme) kres" where
  "activate_task p t s =
     (let sleep_time = u32 (jiffies s - sleep_timestamp t);
          t1 = (if \<not> rt_task t \<and> sleep_time \<noteq> 0
                then let sa = u32 (sleep_avg t + sleep_time);
                         t' = t\<lparr>sleep_avg := (if sa > MAX_SLEEP_AVG then MAX_SLEEP_AVG else sa)\<rparr>
                     in t'\<lparr>prio := effective_prio t'\<rparr>
                else t)
      in kbind (enqueue_task p t1 (active (rq s)) (rq s)) (\<lambda>(t2, r).
           Inr (t2, put_task p t2 (s\<lparr>rq := r\<lparr>nr_running := nr_running r + 1\<rparr>\<rparr>))))"

definition deactivate_task :: "int \<Rightarrow> task \<Rightarrow> ('m, 'z) sched_scheme \<Rightarrow> ('m, 'z) sched_scheme kres" where
  "deactivate_task p t s =
     (let r = rq s;
          r1 = r\<lparr>nr_running := nr_running r - 1\<rparr>;
          r2 = (if state t = TASK_UNINTERRUPTIBLE then r1\<lparr>nr_uninterruptible := nr_uninterruptible r1 + 1\<rparr> else r1)
      in case run_array t of
           None \<Rightarrow> Inl NullDeref
         | Some a \<Rightarrow> kbind (dequeue_task p t a r2) (\<lambda>r3. Inr (put_task p (t\<lparr>run_array := None\<rparr>) (s\<lparr>rq := r3\<rparr>))))"

definition resched_task :: "int \<Rightarrow> ('m, 'z) sched_scheme \<Rightarrow> ('m, 'z) sched_scheme kres" where
  "resched_task p s = kbind (load_task p s) (\<lambda>t. Inr (put_task p (t\<lparr>need_resched := 1\<rparr>) s))"

text \<open>
  \<^verbatim>\<open>try_to_wake_up\<close>; on one processor the branch that migrates a task is never taken.
\<close>

definition try_to_wake_up :: "int \<Rightarrow> ('m, 'z) sched_scheme \<Rightarrow> (bool \<times> ('m, 'z) sched_scheme) kres" where
  "try_to_wake_up p s =
     kbind (load_task p s) (\<lambda>t.
     kbind (case run_array t of
              None \<Rightarrow>
                let s1 = (if state t = TASK_UNINTERRUPTIBLE
                          then s\<lparr>rq := (rq s)\<lparr>nr_uninterruptible := nr_uninterruptible (rq s) - 1\<rparr>\<rparr> else s)
                in kbind (activate_task p t s1) (\<lambda>(t1, s2).
                   kbind (load_task (curr (rq s2)) s2) (\<lambda>c.
                   kbind (if prio t1 < prio c then resched_task (curr (rq s2)) s2 else Inr s2) (\<lambda>s3.
                   Inr (True, s3))))
            | Some _ \<Rightarrow> Inr (False, s)) (\<lambda>(success, s4).
     kbind (load_task p s4) (\<lambda>t4. Inr (success, put_task p (t4\<lparr>state := TASK_RUNNING\<rparr>) s4))))"

text \<open>\<open>cur\<close> is \<^verbatim>\<open>current\<close>, the forking parent.\<close>

definition wake_up_forked_process :: "int \<Rightarrow> int \<Rightarrow> ('m, 'z) sched_scheme \<Rightarrow> ('m, 'z) sched_scheme kres" where
  "wake_up_forked_process cur p s =
     kbind (load_task p s) (\<lambda>t.
     let t1 = t\<lparr>state := TASK_RUNNING\<rparr> in
     kbind (if rt_task t1 then Inr (t1, s)
            else kbind (load_task cur s) (\<lambda>c.
              let s1 = put_task cur (c\<lparr>sleep_avg := u32 (sleep_avg c * 100) div 100\<rparr>) s;
                  t2 = t1\<lparr>sleep_avg := u32 (sleep_avg t1 * 95) div 100\<rparr>
              in Inr (t2\<lparr>prio := effective_prio t2\<rparr>, s1))) (\<lambda>(t3, s2).
     kbind (activate_task p t3 s2) (\<lambda>(_, s3). Inr s3)))"

definition sched_exit :: "int \<Rightarrow> task \<Rightarrow> ('m, 'z) sched_scheme \<Rightarrow> ('m, 'z) sched_scheme kres" where
  "sched_exit cur p s =
     kbind (load_task cur s) (\<lambda>c.
     let c1 = (if first_time_slice p \<noteq> 0
               then let ts = u32 (time_slice c + time_slice p)
                    in c\<lparr>time_slice := (if ts > MAX_TIMESLICE then MAX_TIMESLICE else ts)\<rparr>
               else c);
         c2 = (if sleep_avg p < sleep_avg c1
               then c1\<lparr>sleep_avg := u32 (sleep_avg c1 * 3 + sleep_avg p) div 4\<rparr> else c1)
     in Inr (put_task cur c2 s))"

subsection \<open>The timer tick\<close>

definition EXPIRED_STARVING :: "('m, 'z) sched_scheme \<Rightarrow> bool" where
  "EXPIRED_STARVING s \<longleftrightarrow> expired_timestamp (rq s) \<noteq> 0 \<and>
     u32 (jiffies s - expired_timestamp (rq s)) \<ge> u32 (STARVATION_LIMIT * nr_running (rq s) + 1)"

text \<open>A round-robin real-time task at the end of its slice goes to the end of its queue.\<close>

definition tick_rt :: "int \<Rightarrow> task \<Rightarrow> ('m, 'z) sched_scheme \<Rightarrow> ('m, 'z) sched_scheme kres" where
  "tick_rt p t s =
     (if sched_policy t = SCHED_RR then
        let t1 = t\<lparr>time_slice := u32 (time_slice t - 1)\<rparr>
        in if time_slice t1 = 0 then
             let t2 = t1\<lparr>time_slice := u32 (TASK_TIMESLICE t1), first_time_slice := 0, need_resched := 1\<rparr>
             in kbind (dequeue_task p t2 (active (rq s)) (rq s)) (\<lambda>r1.
                kbind (enqueue_task p t2 (active r1) r1) (\<lambda>(t3, r2).
                Inr (put_task p t3 (s\<lparr>rq := r2\<rparr>))))
           else Inr (put_task p t1 s)
      else Inr s)"

definition tick_other :: "int \<Rightarrow> task \<Rightarrow> ('m, 'z) sched_scheme \<Rightarrow> ('m, 'z) sched_scheme kres" where
  "tick_other p t s =
     (let t1 = t\<lparr>sleep_avg := (if sleep_avg t \<noteq> 0 then sleep_avg t - 1 else 0),
                 time_slice := u32 (time_slice t - 1)\<rparr>
      in if time_slice t1 = 0 then
           kbind (dequeue_task p t1 (active (rq s)) (rq s)) (\<lambda>r1.
             let t2 = t1\<lparr>need_resched := 1, prio := effective_prio t1\<rparr>;
                 t3 = t2\<lparr>first_time_slice := 0, time_slice := u32 (TASK_TIMESLICE t2)\<rparr>
             in if \<not> TASK_INTERACTIVE t3 \<or> EXPIRED_STARVING s then
                  let r2 = (if expired_timestamp r1 = 0 then r1\<lparr>expired_timestamp := jiffies s\<rparr> else r1)
                  in kbind (enqueue_task p t3 (expired r2) r2) (\<lambda>(t4, r3). Inr (put_task p t4 (s\<lparr>rq := r3\<rparr>)))
                else kbind (enqueue_task p t3 (active r1) r1) (\<lambda>(t4, r3). Inr (put_task p t4 (s\<lparr>rq := r3\<rparr>))))
         else Inr (put_task p t1 s))"

text \<open>\<open>nested\<close> says whether the tick interrupted other interrupt work.\<close>

definition scheduler_tick :: "bool \<Rightarrow> int \<Rightarrow> int \<Rightarrow> ('m, 'z) sched_scheme \<Rightarrow> ('m, 'z) sched_scheme kres" where
  "scheduler_tick nested user_tick system s =
     (let p = curr (rq s)
      in if p = 0 then Inr (if nested then s\<lparr>kstat_system := kstat_system s + system\<rparr> else s)
         else kbind (load_task p s) (\<lambda>t.
           let s1 = (if TASK_NICE t > 0 then s\<lparr>kstat_nice := kstat_nice s + user_tick\<rparr>
                     else s\<lparr>kstat_user := kstat_user s + user_tick\<rparr>);
               s2 = s1\<lparr>kstat_system := kstat_system s1 + system\<rparr>
           in if run_array t \<noteq> Some (active (rq s2)) then Inr (put_task p (t\<lparr>need_resched := 1\<rparr>) s2)
              else if rt_task t then tick_rt p t s2
              else tick_other p t s2))"

subsection \<open>\<^verbatim>\<open>schedule\<close>\<close>

text \<open>What happens to the task that gives up the processor.\<close>

definition schedule_prev :: "int \<Rightarrow> ('m, 'z) sched_scheme \<Rightarrow> ('m, 'z) sched_scheme kres" where
  "schedule_prev prev s =
     kbind (load_task prev s) (\<lambda>t0.
       let t = t0\<lparr>sleep_timestamp := jiffies s\<rparr>
       in if state t = TASK_INTERRUPTIBLE \<and> sigpending t \<noteq> 0
          then Inr (put_task prev (t\<lparr>state := TASK_RUNNING\<rparr>) s)
          else if state t = TASK_RUNNING then Inr (put_task prev t s)
          else deactivate_task prev t (put_task prev t s))"

text \<open>The choice of the next task.\<close>

definition schedule_next :: "runqueue \<Rightarrow> (int \<times> runqueue) kres" where
  "schedule_next r =
     (if nr_running r = 0 then Inr (0, r\<lparr>expired_timestamp := 0\<rparr>)
      else let r1 = (if nr_active (arrays r (active r)) = 0
                     then r\<lparr>active := expired r, expired := active r, expired_timestamp := 0\<rparr> else r)
           in kbind (sched_find_first_bit (abitmap (arrays r1 (active r1)))) (\<lambda>idx.
                if idx < 140 then
                  (case queue (arrays r1 (active r1)) idx of [] \<Rightarrow> Inl WildDeref | next # _ \<Rightarrow> Inr (next, r1))
                else Inl OutOfRange))"

definition schedule_pass :: "('m, 'z) sched_scheme \<Rightarrow> ('m, 'z) sched_scheme kres" where
  "schedule_pass s =
     (let prev = curr (rq s)
      in kbind (schedule_prev prev s) (\<lambda>s1.
         kbind (schedule_next (rq s1)) (\<lambda>(next, r).
         kbind (load_task prev s1) (\<lambda>t.
           let s2 = put_task prev (t\<lparr>need_resched := 0\<rparr>) (s1\<lparr>rq := r\<rparr>)
           in Inr (if prev \<noteq> next
                   then s2\<lparr>rq := (rq s2)\<lparr>nr_switches := nr_switches (rq s2) + 1, curr := next\<rparr>\<rparr>
                   else s2)))))"

text \<open>The loop back to \<^verbatim>\<open>need_resched\<close>; two passes are enough.\<close>

fun schedule_loop :: "nat \<Rightarrow> ('m, 'z) sched_scheme \<Rightarrow> ('m, 'z) sched_scheme kres" where
  "schedule_loop 0 s = Inl Fuel"
| "schedule_loop (Suc n) s =
     kbind (schedule_pass s) (\<lambda>s1.
     kbind (load_task (curr (rq s1)) s1) (\<lambda>t.
       if need_resched t \<noteq> 0 then schedule_loop n s1 else Inr s1))"

definition schedule :: "bool \<Rightarrow> ('m, 'z) sched_scheme \<Rightarrow> ('m, 'z) sched_scheme kres" where
  "schedule irq s = (if irq then Inl BUG else schedule_loop 2 s)"

subsection \<open>\<^verbatim>\<open>sys_sched_yield\<close>\<close>

text \<open>\<^verbatim>\<open>list_add(&current->run_list, queue.next)\<close>: behind the first task of the queue.\<close>

definition add_after_first :: "int \<Rightarrow> int list \<Rightarrow> int list" where
  "add_after_first p q = (case q of [] \<Rightarrow> [p] | x # xs \<Rightarrow> x # p # xs)"

definition yield_queue :: "int \<Rightarrow> task \<Rightarrow> array_id \<Rightarrow> runqueue \<Rightarrow> (task \<times> runqueue) kres" where
  "yield_queue p t a r =
     (if \<not> (0 \<le> prio t \<and> prio t < MAX_PRIO) then Inl OutOfRange
      else let k = nat (prio t); r1 = list_del_run p r
      in if rt_task t then
           Inr (t, upd_array a (\<lambda>ar. ar\<lparr>queue := (queue ar)(k := queue ar k @ [p])\<rparr>) r1)
         else if queue (arrays r1 a) k \<noteq> [] then
           Inr (t, upd_array a (\<lambda>ar. ar\<lparr>queue := (queue ar)(k := add_after_first p (queue ar k))\<rparr>) r1)
         else let r2 = upd_array a (\<lambda>ar. ar\<lparr>abitmap := (abitmap ar)(k := False)\<rparr>) r1
              in kbind (sched_find_first_bit (abitmap (arrays r2 a))) (\<lambda>i0.
                   let i = (if i0 = 140 \<or> i0 \<le> k then k else i0);
                       t1 = (if i0 = 140 \<or> i0 \<le> k then t else t\<lparr>prio := int i0\<rparr>)
                   in Inr (t1, upd_array a (\<lambda>ar. ar\<lparr>queue := (queue ar)(i := add_after_first p (queue ar i)),
                                                   abitmap := (abitmap ar)(i := True)\<rparr>) r2)))"

definition sys_sched_yield :: "bool \<Rightarrow> ('m, 'z) sched_scheme \<Rightarrow> (int \<times> ('m, 'z) sched_scheme) kres" where
  "sys_sched_yield irq s =
     (let cur = curr (rq s)
      in kbind (sys_sched_yield_check cur s) (\<lambda>(refused, s1).
         case refused of
           Some e \<Rightarrow> Inr (e, s1)
         | None \<Rightarrow>
             kbind (load_task cur s1) (\<lambda>t.
             case run_array t of
               None \<Rightarrow> Inl NullDeref
             | Some a \<Rightarrow>
                 kbind (yield_queue cur t a (rq s1)) (\<lambda>(t1, r).
                 kbind (schedule irq (put_task cur t1 (s1\<lparr>rq := r\<rparr>))) (\<lambda>s2. Inr (0, s2))))))"

subsection \<open>Changing priorities\<close>

definition set_user_nice :: "int \<Rightarrow> int \<Rightarrow> ('m, 'z) sched_scheme \<Rightarrow> ('m, 'z) sched_scheme kres" where
  "set_user_nice p nice s =
     kbind (load_task p s) (\<lambda>t.
       if TASK_NICE t = nice \<or> nice < -20 \<or> nice > 19 then Inr s
       else if rt_task t then Inr (put_task p (t\<lparr>static_prio := NICE_TO_PRIO nice\<rparr>) s)
       else
         kbind (case run_array t of None \<Rightarrow> Inr (rq s) | Some a \<Rightarrow> dequeue_task p t a (rq s)) (\<lambda>r1.
           let t1 = t\<lparr>static_prio := NICE_TO_PRIO nice, prio := NICE_TO_PRIO nice\<rparr>
           in case run_array t of
                None \<Rightarrow> Inr (put_task p t1 (s\<lparr>rq := r1\<rparr>))
              | Some a \<Rightarrow>
                  kbind (enqueue_task p t1 a r1) (\<lambda>(t2, r2).
                    let s1 = put_task p t2 (s\<lparr>rq := r2\<rparr>)
                    in if NICE_TO_PRIO nice < static_prio t2 \<or> p = curr r2 then resched_task (curr r2) s1
                       else Inr s1)))"

definition sys_nice :: "bool \<Rightarrow> int \<Rightarrow> ('m, 'z) sched_scheme \<Rightarrow> (int \<times> ('m, 'z) sched_scheme) kres" where
  "sys_nice capable increment s =
     (if increment < 0 \<and> \<not> capable then Inr (- EPERM, s)
      else let i1 = (if increment < -40 then -40 else increment);
               i2 = (if i1 > 40 then 40 else i1);
               cur = curr (rq s)
           in kbind (load_task cur s) (\<lambda>t.
                let n = PRIO_TO_NICE (static_prio t) + i2;
                    n1 = (if n < -20 then -20 else n);
                    n2 = (if n1 > 19 then 19 else n1)
                in kbind (set_user_nice cur n2 s) (\<lambda>s1. Inr (0, s1))))"

definition task_prio :: "task \<Rightarrow> int" where
  "task_prio p = prio p - MAX_RT_PRIO"

definition task_nice :: "task \<Rightarrow> int" where
  "task_nice p = TASK_NICE p"

definition idle_cpu :: "('m, 'z) sched_scheme \<Rightarrow> bool" where
  "idle_cpu s \<longleftrightarrow> curr (rq s) = 0"

definition find_process_by_pid :: "('m, 'z) sched_scheme \<Rightarrow> int \<Rightarrow> int option" where
  "find_process_by_pid s p = (if p \<noteq> 0 then (if task_by_pid s p = None then None else Some p) else Some (curr (rq s)))"

text \<open>
  \<open>param\<close> is the user pointer: \<open>None\<close> when it is null, \<open>Some None\<close> when it cannot be read. The
  task is reached as \<open>p\<close> below.
\<close>

definition setscheduler_task ::
  "bool \<Rightarrow> int \<Rightarrow> int \<Rightarrow> int \<Rightarrow> ('m, 'z) sched_scheme \<Rightarrow> (int \<times> ('m, 'z) sched_scheme) kres" where
  "setscheduler_task capable policy0 lp p s =
     kbind (load_task p s) (\<lambda>t.
     kbind (load_task (curr (rq s)) s) (\<lambda>c.
       let policy = (if policy0 < 0 then sched_policy t else policy0)
       in if policy0 \<ge> 0 \<and> policy \<noteq> SCHED_FIFO \<and> policy \<noteq> SCHED_RR \<and> policy \<noteq> SCHED_OTHER then Inr (- EINVAL, s)
          else if lp < 0 \<or> lp > 99 then Inr (- EINVAL, s)
          else if (policy = SCHED_OTHER) \<noteq> (lp = 0) then Inr (- EINVAL, s)
          else if (policy = SCHED_FIFO \<or> policy = SCHED_RR) \<and> \<not> capable then Inr (- EPERM, s)
          else if euid c \<noteq> euid t \<and> euid c \<noteq> uid t \<and> \<not> capable then Inr (- EPERM, s)
          else
            kbind (if run_array t \<noteq> None then deactivate_task p t s else Inr s) (\<lambda>s1.
            kbind (load_task p s1) (\<lambda>t1.
              let t2 = t1\<lparr>sched_policy := policy, rt_priority := lp\<rparr>;
                  t3 = t2\<lparr>prio := (if policy \<noteq> SCHED_OTHER then 99 - lp else static_prio t2)\<rparr>
              in if run_array t \<noteq> None
                 then kbind (activate_task p t3 s1) (\<lambda>(_, s2). Inr (0, s2))
                 else Inr (0, put_task p t3 s1)))))"

definition setscheduler ::
  "bool \<Rightarrow> int \<Rightarrow> int \<Rightarrow> int option option \<Rightarrow> ('m, 'z) sched_scheme \<Rightarrow> (int \<times> ('m, 'z) sched_scheme) kres" where
  "setscheduler capable pd policy param s =
     (if param = None \<or> pd < 0 then Inr (- EINVAL, s)
      else case the param of
             None \<Rightarrow> Inr (- EFAULT, s)
           | Some lp \<Rightarrow> (case find_process_by_pid s pd of
                 None \<Rightarrow> Inr (- ESRCH, s)
               | Some p \<Rightarrow> setscheduler_task capable policy lp p s))"

definition sys_sched_setscheduler ::
  "bool \<Rightarrow> int \<Rightarrow> int \<Rightarrow> int option option \<Rightarrow> ('m, 'z) sched_scheme \<Rightarrow> (int \<times> ('m, 'z) sched_scheme) kres" where
  "sys_sched_setscheduler capable pd policy param s = setscheduler capable pd policy param s"

definition sys_sched_setparam ::
  "bool \<Rightarrow> int \<Rightarrow> int option option \<Rightarrow> ('m, 'z) sched_scheme \<Rightarrow> (int \<times> ('m, 'z) sched_scheme) kres" where
  "sys_sched_setparam capable pd param s = setscheduler capable pd (-1) param s"

definition sys_sched_getscheduler :: "int \<Rightarrow> ('m, 'z) sched_scheme \<Rightarrow> int kres" where
  "sys_sched_getscheduler pd s =
     (if pd < 0 then Inr (- EINVAL)
      else case find_process_by_pid s pd of
             None \<Rightarrow> Inr (- ESRCH)
           | Some p \<Rightarrow> kbind (load_task p s) (\<lambda>t. Inr (sched_policy t)))"

text \<open>
  The calls that copy a result out: \<open>null\<close> says that the user pointer is null, \<open>wr\<close> whether the
  copy succeeds; the second component is what user space then finds at the pointer.
\<close>

definition sys_sched_getparam :: "bool \<Rightarrow> bool \<Rightarrow> int \<Rightarrow> ('m, 'z) sched_scheme \<Rightarrow> (int \<times> int option) kres" where
  "sys_sched_getparam null wr pd s =
     (if null \<or> pd < 0 then Inr (- EINVAL, None)
      else case find_process_by_pid s pd of
             None \<Rightarrow> Inr (- ESRCH, None)
           | Some p \<Rightarrow> kbind (load_task p s) (\<lambda>t.
               Inr (if wr then (0, Some (rt_priority t)) else (- EFAULT, None))))"

definition jiffies_to_timespec :: "int \<Rightarrow> int \<times> int" where
  "jiffies_to_timespec j = (u32 j div HZ, (u32 j mod HZ) * (1000000000 div HZ))"

definition sys_sched_rr_get_interval :: "bool \<Rightarrow> int \<Rightarrow> ('m, 'z) sched_scheme \<Rightarrow> (int \<times> (int \<times> int) option) kres" where
  "sys_sched_rr_get_interval wr pd s =
     (if pd < 0 then Inr (- EINVAL, None)
      else case find_process_by_pid s pd of
             None \<Rightarrow> Inr (- ESRCH, None)
           | Some p \<Rightarrow> kbind (load_task p s) (\<lambda>t.
               let v = jiffies_to_timespec (if and (sched_policy t) SCHED_FIFO \<noteq> 0 then 0 else TASK_TIMESLICE t)
               in Inr (if wr then (0, Some v) else (- EFAULT, None))))"

definition sys_sched_get_priority_max :: "int \<Rightarrow> int" where
  "sys_sched_get_priority_max policy =
     (if policy = SCHED_FIFO \<or> policy = SCHED_RR then 99 else if policy = SCHED_OTHER then 0 else - EINVAL)"

definition sys_sched_get_priority_min :: "int \<Rightarrow> int" where
  "sys_sched_get_priority_min policy =
     (if policy = SCHED_FIFO \<or> policy = SCHED_RR then 1 else if policy = SCHED_OTHER then 0 else - EINVAL)"

subsection \<open>Wait queues\<close>

text \<open>An entry is a task and whether it has \<^verbatim>\<open>WQ_FLAG_EXCLUSIVE\<close>.\<close>

primrec wake_up_common :: "(int \<times> bool) list \<Rightarrow> int \<Rightarrow> int \<Rightarrow> ('m, 'z) sched_scheme \<Rightarrow> ('m, 'z) sched_scheme kres" where
  "wake_up_common [] mode nr s = Inr s"
| "wake_up_common (w # q) mode nr s =
     kbind (load_task (fst w) s) (\<lambda>t.
       if and (state t) mode \<noteq> 0 then
         kbind (try_to_wake_up (fst w) s) (\<lambda>(woken, s1).
           if woken \<and> snd w then
             (if nr - 1 = 0 then Inr s1 else wake_up_common q mode (nr - 1) s1)
           else wake_up_common q mode nr s1)
       else wake_up_common q mode nr s)"

definition wake_up :: "(int \<times> bool) list option \<Rightarrow> int \<Rightarrow> int \<Rightarrow> ('m, 'z) sched_scheme \<Rightarrow> ('m, 'z) sched_scheme kres" where
  "wake_up q mode nr s = (case q of None \<Rightarrow> Inr s | Some q \<Rightarrow> wake_up_common q mode nr s)"

definition complete :: "int \<Rightarrow> (int \<times> bool) list \<Rightarrow> ('m, 'z) sched_scheme \<Rightarrow> (int \<times> ('m, 'z) sched_scheme) kres" where
  "complete dn q s = kbind (wake_up_common q 3 1 s) (\<lambda>s1. Inr (dn + 1, s1))"

subsection \<open>Setting up\<close>

text \<open>
  The loops of \<^verbatim>\<open>sched_init\<close> over the two arrays of the processor, and the boot thread as the
  running and the idle task.
\<close>

definition init_array :: "prio_array \<Rightarrow> prio_array" where
  "init_array ar =
     (let ar1 = fold (\<lambda>k a. a\<lparr>queue := (queue a)(k := []), abitmap := (abitmap a)(k := False)\<rparr>) [0..<140] ar
      in ar1\<lparr>abitmap := (abitmap ar1)(140 := True)\<rparr>)"

definition sched_init :: "runqueue \<Rightarrow> runqueue" where
  "sched_init r = r\<lparr>active := Arr0, expired := Arr1, arrays := (\<lambda>j. init_array (arrays r j)), curr := 0\<rparr>"

end
