(* ===== verification/Scheduler_Inv.thy ===== *)
theory Scheduler_Inv
  imports Scheduler
begin

text \<open>
  The invariant of the run queue and its preservation: every queue holds the runnable tasks of
  its array and priority, each once, the bit maps mark the nonempty queues, and the counters count.
\<close>

subsection \<open>Priority arrays\<close>

definition ntotal :: "prio_array \<Rightarrow> nat" where
  "ntotal ar = (\<Sum>i<140. length (queue ar i))"

text \<open>\<open>T\<close> gives the tasks; a task whose links are being changed is left out of it.\<close>

definition array_ok :: "(int \<Rightarrow> task option) \<Rightarrow> array_id \<Rightarrow> prio_array \<Rightarrow> bool" where
  "array_ok T a ar \<longleftrightarrow>
     (\<forall>i<140. abitmap ar i \<longleftrightarrow> queue ar i \<noteq> []) \<and> abitmap ar 140 \<and>
     (\<forall>i<140. distinct (queue ar i)) \<and>
     (\<forall>i<140. \<forall>p \<in> set (queue ar i). \<exists>t. T p = Some t \<and> prio t = int i \<and> run_array t = Some a) \<and>
     nr_active ar = int (ntotal ar)"

definition arrays_ok :: "(int \<Rightarrow> task option) \<Rightarrow> runqueue \<Rightarrow> bool" where
  "arrays_ok T r \<longleftrightarrow> (\<forall>a. array_ok T a (arrays r a)) \<and>
     (\<forall>p t a. T p = Some t \<longrightarrow> run_array t = Some a \<longrightarrow>
        0 \<le> prio t \<and> prio t < 140 \<and> p \<in> set (queue (arrays r a) (nat (prio t))))"

lemma array_okD:
  assumes "array_ok T a ar"
  shows "i < 140 \<Longrightarrow> abitmap ar i \<longleftrightarrow> queue ar i \<noteq> []" "abitmap ar 140" "i < 140 \<Longrightarrow> distinct (queue ar i)"
    "i < 140 \<Longrightarrow> p \<in> set (queue ar i) \<Longrightarrow> \<exists>t. T p = Some t \<and> prio t = int i \<and> run_array t = Some a"
    "nr_active ar = int (ntotal ar)"
  using assms by (simp_all add: array_ok_def)

lemma arrays_okD:
  assumes "arrays_ok T r"
  shows "array_ok T a (arrays r a)"
    "T p = Some t \<Longrightarrow> run_array t = Some a \<Longrightarrow> 0 \<le> prio t \<and> prio t < 140 \<and> p \<in> set (queue (arrays r a) (nat (prio t)))"
  using assms unfolding arrays_ok_def by blast+

lemma arrays_okI:
  assumes "\<And>a. array_ok T a (arrays r a)"
    and "\<And>p t a. T p = Some t \<Longrightarrow> run_array t = Some a \<Longrightarrow>
      0 \<le> prio t \<and> prio t < 140 \<and> p \<in> set (queue (arrays r a) (nat (prio t)))"
  shows "arrays_ok T r"
  using assms unfolding arrays_ok_def by blast

text \<open>Where a task is queued.\<close>

lemma queued_iff:
  assumes ok: "arrays_ok T r" and i: "i < 140"
  shows "p \<in> set (queue (arrays r a) i) \<longleftrightarrow> (\<exists>t. T p = Some t \<and> prio t = int i \<and> run_array t = Some a)"
  using array_okD(4) [OF arrays_okD(1) [OF ok] i] arrays_okD(2) [OF ok] by fastforce

lemma total_upd:
  assumes "k < 140" and "\<And>i. i < 140 \<Longrightarrow> queue ar' i = (if i = k then q else queue ar i)"
  shows "ntotal ar' + length (queue ar k) = ntotal ar + length q"
proof -
  have "ntotal ar' = (\<Sum>i<140. if i = k then length q else length (queue ar i))"
    unfolding ntotal_def using assms(2) by (intro sum.cong) auto
  also have "\<dots> = length q + (\<Sum>i\<in>{..<140} - {k}. length (queue ar i))"
    using assms(1) by (subst sum.remove [of _ k]) (auto intro: sum.cong)
  finally show ?thesis
    using assms(1) sum.remove [of "{..<140}" k "\<lambda>i. length (queue ar i)"] by (simp add: ntotal_def)
qed

lemma total_same: "(\<And>i. i < 140 \<Longrightarrow> queue ar' i = queue ar i) \<Longrightarrow> ntotal ar' = ntotal ar"
  unfolding ntotal_def by (intro sum.cong) auto

lemma array_ok_cong:
  assumes "array_ok T a ar" and "\<And>i. i < 140 \<Longrightarrow> queue ar' i = queue ar i" "abitmap ar' = abitmap ar" "nr_active ar' = nr_active ar"
    and "\<And>p t. T p = Some t \<Longrightarrow> run_array t = Some a \<Longrightarrow> \<exists>t'. T' p = Some t' \<and> prio t' = prio t \<and> run_array t' = Some a"
  shows "array_ok T' a ar'"
proof -
  have "\<exists>t'. T' p = Some t' \<and> prio t' = int i \<and> run_array t' = Some a" if "i < 140" "p \<in> set (queue ar i)" for i p
    using array_okD(4) [OF assms(1) that] assms(5) by metis
  then show ?thesis
    using array_okD(1-3,5) [OF assms(1)] assms(2-4) total_same [of ar' ar] by (simp add: array_ok_def)
qed

lemma dequeue_arrays:
  assumes ok: "arrays_ok T r" and t: "T p = Some t" "run_array t = Some a" and t': "prio t' = prio t"
  obtains r' where "dequeue_task p t' a r = Inr r'" "arrays_ok (T(p := None)) r'"
    "\<forall>b. nr_active (arrays r' b) = nr_active (arrays r b) - (if b = a then 1 else 0)"
    "r' = r\<lparr>arrays := arrays r'\<rparr>"
    "\<forall>b i. queue (arrays r' b) i = remove1 p (queue (arrays r b) i)"
    "\<forall>b i. abitmap (arrays r' b) i = (abitmap (arrays r b) i \<and> \<not> (b = a \<and> i = nat (prio t) \<and> remove1 p (queue (arrays r a) i) = []))"
proof -
  define k where "k = nat (prio t)"
  have pk: "0 \<le> prio t" "prio t < 140" "p \<in> set (queue (arrays r a) k)" using arrays_okD(2) [OF ok t] by (auto simp: k_def)
  have k: "k < 140" "int k = prio t" using pk by (auto simp: k_def)
  let ?r1 = "list_del_run p (upd_array a (\<lambda>ar. ar\<lparr>nr_active := nr_active ar - 1\<rparr>) r)"
  define r' where "r' = (if queue (arrays ?r1 a) k = [] then upd_array a (\<lambda>ar. ar\<lparr>abitmap := (abitmap ar)(k := False)\<rparr>) ?r1 else ?r1)"
  have q: "queue (arrays r' b) i = remove1 p (queue (arrays r b) i)" for b i
    by (simp add: r'_def list_del_run_def upd_array_def)
  have other: "p \<notin> set (queue (arrays r b) i)" if "i < 140" "b \<noteq> a \<or> i \<noteq> k" for b i
    using queued_iff [OF ok that(1), of p b] t that(2) k(2) by auto
  have q': "queue (arrays r' b) i = (if b = a \<and> i = k then remove1 p (queue (arrays r a) k) else queue (arrays r b) i)"
    if "i < 140" for b i using that other [of i b] by (auto simp: q remove1_idem)
  have n: "nr_active (arrays r' b) = nr_active (arrays r b) - (if b = a then 1 else 0)" for b
    by (simp add: r'_def list_del_run_def upd_array_def)
  have bm: "abitmap (arrays r' b) i = (abitmap (arrays r b) i \<and> \<not> (b = a \<and> i = k \<and> remove1 p (queue (arrays r a) k) = []))" for b i
    by (simp add: r'_def list_del_run_def upd_array_def)
  have "array_ok (T(p := None)) b (arrays r' b)" for b
  proof (cases "b = a")
    case False
    show ?thesis
      by (rule array_ok_cong [OF arrays_okD(1) [OF ok]]) (use False q' n bm t in \<open>auto simp: fun_eq_iff\<close>)
  next
    case True
    note A = array_okD [OF arrays_okD(1) [OF ok, of a]]
    have "ntotal (arrays r' a) + length (queue (arrays r a) k) = ntotal (arrays r a) + length (remove1 p (queue (arrays r a) k))"
      by (rule total_upd [OF k(1)]) (use q' in auto)
    moreover have "length (remove1 p (queue (arrays r a) k)) + 1 = length (queue (arrays r a) k)"
      using pk(3) length_pos_if_in_set [OF pk(3)] by (simp add: length_remove1)
    ultimately have "ntotal (arrays r' a) + 1 = ntotal (arrays r a)" by linarith
    then have "nr_active (arrays r' a) = int (ntotal (arrays r' a))" using n [of a] A(5) by simp
    moreover have "\<exists>t. (T(p := None)) x = Some t \<and> prio t = int i \<and> run_array t = Some a"
      if "i < 140" "x \<in> set (queue (arrays r' a) i)" for i x
    proof -
      have "x \<noteq> p" using that q' [OF that(1), of a] other [of i a] A(3) [OF k(1)] by (auto split: if_splits)
      moreover have "x \<in> set (queue (arrays r a) i)"
        using that q' [OF that(1), of a] set_remove1_subset [of p "queue (arrays r a) k"] by (auto split: if_splits)
      ultimately show ?thesis using A(4) [OF that(1)] by simp
    qed
    ultimately show ?thesis
      unfolding True array_ok_def using A(1,2,3) q' [of _ a] bm [of a] k(1) by (auto simp: distinct_remove1)
  qed
  moreover have "0 \<le> prio u \<and> prio u < 140 \<and> x \<in> set (queue (arrays r' b) (nat (prio u)))"
    if "(T(p := None)) x = Some u" "run_array u = Some b" for x u b
    using that arrays_okD(2) [OF ok, of x u b] q [of b] by (auto split: if_splits)
  ultimately have "arrays_ok (T(p := None)) r'" by (rule arrays_okI)
  moreover have "dequeue_task p t' a r = Inr r'" using pk t' by (simp add: dequeue_task_def r'_def k_def Let_def)
  moreover have "r' = r\<lparr>arrays := arrays r'\<rparr>" by (simp add: r'_def list_del_run_def upd_array_def)
  moreover have "abitmap (arrays r' b) i = (abitmap (arrays r b) i \<and> \<not> (b = a \<and> i = nat (prio t) \<and> remove1 p (queue (arrays r a) i) = []))" for b i
    using bm [of b i] by (auto simp: k_def)
  ultimately show thesis using n q by (intro that) blast+
qed

text \<open>Putting a task into a queue, at any place.\<close>

lemma insert_arrays:
  assumes ok: "arrays_ok (T(p := None)) r" and k: "k < 140" "prio t = int k" "run_array t = Some a"
    and q: "\<And>b i. i < 140 \<Longrightarrow> queue (arrays r' b) i = (if b = a \<and> i = k then q' else queue (arrays r b) i)"
    and q': "set q' = insert p (set (queue (arrays r a) k))" "distinct q'" "length q' = length (queue (arrays r a) k) + 1"
    and bm: "\<And>b i. abitmap (arrays r' b) i = (abitmap (arrays r b) i \<or> b = a \<and> i = k)"
    and n: "\<And>b. nr_active (arrays r' b) = nr_active (arrays r b) + (if b = a then 1 else 0)"
  shows "arrays_ok (T(p \<mapsto> t)) r'"
proof (rule arrays_okI)
  have new: "p \<notin> set (queue (arrays r b) i)" if "i < 140" for b i
    using queued_iff [OF ok that, of p b] by simp
  show "array_ok (T(p \<mapsto> t)) b (arrays r' b)" for b
  proof (cases "b = a")
    case False
    show ?thesis
      by (rule array_ok_cong [OF arrays_okD(1) [OF ok]]) (use False q bm n in \<open>auto simp: fun_eq_iff split: if_splits\<close>)
  next
    case True
    note A = array_okD [OF arrays_okD(1) [OF ok, of a]]
    have "ntotal (arrays r' a) + length (queue (arrays r a) k) = ntotal (arrays r a) + length q'"
      by (rule total_upd [OF k(1)]) (use q in auto)
    then have "nr_active (arrays r' a) = int (ntotal (arrays r' a))" using n [of a] A(5) q'(3) by simp
    moreover have "\<exists>u. (T(p \<mapsto> t)) x = Some u \<and> prio u = int i \<and> run_array u = Some a"
      if i: "i < 140" and x: "x \<in> set (queue (arrays r' a) i)" for i x
    proof (cases "x = p")
      case True
      then show ?thesis using x new [OF i, of a] k q [OF i, of a] by (auto split: if_splits)
    next
      case False
      then have "x \<in> set (queue (arrays r a) i)" using x q [OF i, of a] q'(1) by (auto split: if_splits)
      then show ?thesis using A(4) [OF i, of x] False by simp
    qed
    moreover have "abitmap (arrays r' a) i \<longleftrightarrow> queue (arrays r' a) i \<noteq> []" if "i < 140" for i
      using A(1) [OF that] q [OF that, of a] bm [of a i] q'(3) by auto
    ultimately show ?thesis
      unfolding True array_ok_def using A(2,3) q [of _ a] bm [of a] q'(2) by auto
  qed
  show "0 \<le> prio u \<and> prio u < 140 \<and> x \<in> set (queue (arrays r' b) (nat (prio u)))"
    if "(T(p \<mapsto> t)) x = Some u" "run_array u = Some b" for x u b
    using that arrays_okD(2) [OF ok, of x u b] k q [of _ b] q'(1) by (auto split: if_splits)
qed

lemma enqueue_arrays:
  assumes ok: "arrays_ok (T(p := None)) r" and t: "0 \<le> prio t" "prio t < 140"
  obtains r' where "enqueue_task p t a r = Inr (t\<lparr>run_array := Some a\<rparr>, r')"
    "arrays_ok (T(p \<mapsto> t\<lparr>run_array := Some a\<rparr>)) r'"
    "\<forall>b. nr_active (arrays r' b) = nr_active (arrays r b) + (if b = a then 1 else 0)"
    "r' = r\<lparr>arrays := arrays r'\<rparr>"
proof -
  let ?t = "t\<lparr>run_array := Some a\<rparr>" and ?k = "nat (prio t)"
  define r' where "r' = upd_array a (\<lambda>ar. ar\<lparr>queue := (queue ar)(?k := queue ar ?k @ [p]),
                                  abitmap := (abitmap ar)(?k := True), nr_active := nr_active ar + 1\<rparr>) r"
  have k: "?k < 140" "prio ?t = int ?k" using t by auto
  have new: "p \<notin> set (queue (arrays r a) ?k)" "distinct (queue (arrays r a) ?k)"
    using queued_iff [OF ok k(1), of p a] array_okD(3) [OF arrays_okD(1) [OF ok] k(1)] by auto
  have F: "queue (arrays r' b) i = (if b = a \<and> i = ?k then queue (arrays r a) ?k @ [p] else queue (arrays r b) i)"
    "abitmap (arrays r' b) i = (abitmap (arrays r b) i \<or> b = a \<and> i = ?k)"
    "nr_active (arrays r' b) = nr_active (arrays r b) + (if b = a then 1 else 0)" for b i
    by (simp_all add: r'_def upd_array_def)
  have "arrays_ok (T(p \<mapsto> ?t)) r'"
    by (rule insert_arrays [OF ok k, of a r' "queue (arrays r a) ?k @ [p]"]) (use F new in auto)
  moreover have "enqueue_task p t a r = Inr (?t, r')" using t by (simp add: r'_def enqueue_task_def)
  moreover have "r' = r\<lparr>arrays := arrays r'\<rparr>" by (simp add: r'_def upd_array_def)
  ultimately show thesis using F(3) by (intro that) blast+
qed

text \<open>The queues only depend on who is runnable where.\<close>

definition queued_at :: "(int \<Rightarrow> task option) \<Rightarrow> int \<Rightarrow> array_id \<Rightarrow> int \<Rightarrow> bool" where
  "queued_at T p a i \<longleftrightarrow> (\<exists>t. T p = Some t \<and> run_array t = Some a \<and> prio t = i)"

lemma arrays_ok_cong:
  assumes ok: "arrays_ok T r" and eq: "queued_at T' = queued_at T"
  shows "arrays_ok T' r"
proof (rule arrays_okI)
  have eq': "(\<exists>t. T' p = Some t \<and> run_array t = Some a \<and> prio t = i) \<longleftrightarrow> (\<exists>t. T p = Some t \<and> run_array t = Some a \<and> prio t = i)" for p a i
    using fun_cong [OF fun_cong [OF fun_cong [OF eq, of p], of a], of i] by (simp add: queued_at_def)
  show "array_ok T' a (arrays r a)" for a
  proof (rule array_ok_cong [OF arrays_okD(1) [OF ok]])
    fix p t assume "T p = Some t" "run_array t = Some a"
    then show "\<exists>t'. T' p = Some t' \<and> prio t' = prio t \<and> run_array t' = Some a" using eq' [of p a "prio t"] by blast
  qed simp_all
  fix p t a assume t: "T' p = Some t" "run_array t = Some a"
  then obtain u where "T p = Some u" "run_array u = Some a" "prio u = prio t" using eq' [of p a "prio t"] by blast
  then show "0 \<le> prio t \<and> prio t < 140 \<and> p \<in> set (queue (arrays r a) (nat (prio t)))"
    using arrays_okD(2) [OF ok, of p u a] by simp
qed

lemma arrays_ok_idle:
  assumes "arrays_ok T r" and "T p = Some t" "run_array t = None"
  shows "arrays_ok (T(p := None)) r" "run_array t' = None \<Longrightarrow> arrays_ok (T(p \<mapsto> t')) r"
  using assms by (auto intro!: arrays_ok_cong [OF assms(1)] simp: queued_at_def fun_eq_iff)

text \<open>A task keeps its priority and its array: nothing changes for the queues.\<close>

lemma arrays_ok_field:
  assumes ok: "arrays_ok T r" and t: "T p = Some t" and t': "prio t' = prio t" "run_array t' = run_array t"
  shows "arrays_ok (T(p \<mapsto> t')) r"
  using t t' by (intro arrays_ok_cong [OF ok]) (auto simp: queued_at_def fun_eq_iff)

subsection \<open>The run queue\<close>

definition task_sane :: "task \<Rightarrow> bool" where
  "task_sane t \<longleftrightarrow> 0 \<le> prio t \<and> prio t < 140 \<and> 100 \<le> static_prio t \<and> static_prio t < 140 \<and>
     0 \<le> sleep_avg t \<and> sleep_avg t \<le> 1024 \<and> 0 < time_slice t \<and> time_slice t \<le> 512"

text \<open>The part about the queues and counters, and the whole invariant.\<close>

definition core :: "(int \<Rightarrow> task option) \<Rightarrow> runqueue \<Rightarrow> bool" where
  "core T r \<longleftrightarrow> arrays_ok T r \<and> nr_running r = nr_active (arrays r Arr0) + nr_active (arrays r Arr1) \<and>
     active r \<noteq> expired r"

definition sched_ok :: "(int \<Rightarrow> task option) \<Rightarrow> runqueue \<Rightarrow> bool" where
  "sched_ok T r \<longleftrightarrow> core T r \<and>
     (\<forall>p t. T p = Some t \<longrightarrow> p \<noteq> 0 \<longrightarrow> task_sane t) \<and>
     (\<exists>t. T 0 = Some t \<and> run_array t = None \<and> state t = 0) \<and>
     (\<exists>t. T (curr r) = Some t \<and> (curr r \<noteq> 0 \<longrightarrow> run_array t \<noteq> None)) \<and>
     (\<forall>p t. T p = Some t \<longrightarrow> run_array t \<noteq> None \<longrightarrow> p \<noteq> curr r \<longrightarrow> state t = 0)"

abbreviation sched_inv :: "('m, 'z) sched_scheme \<Rightarrow> bool" where
  "sched_inv s \<equiv> sched_ok (sched_task s) (rq s)"

lemma sched_okD:
  assumes "sched_ok T r"
  shows "core T r" "arrays_ok T r" "nr_running r = nr_active (arrays r Arr0) + nr_active (arrays r Arr1)"
    "active r \<noteq> expired r" "T p = Some t \<Longrightarrow> p \<noteq> 0 \<Longrightarrow> task_sane t"
    "\<exists>t. T 0 = Some t \<and> run_array t = None \<and> state t = 0"
    "\<exists>t. T (curr r) = Some t \<and> (curr r \<noteq> 0 \<longrightarrow> run_array t \<noteq> None)"
    "T p = Some t \<Longrightarrow> run_array t \<noteq> None \<Longrightarrow> p \<noteq> curr r \<Longrightarrow> state t = 0"
  using assms by (auto simp: sched_ok_def core_def)

text \<open>Changing one task: what has to be shown about it.\<close>

lemma sched_ok_upd:
  assumes ok: "sched_ok T r" and p: "p \<noteq> 0" and core: "core (T(p \<mapsto> t)) r'" and cur: "curr r' = curr r"
    and t: "task_sane t" "p \<noteq> curr r \<Longrightarrow> run_array t \<noteq> None \<Longrightarrow> state t = 0" "p = curr r \<Longrightarrow> run_array t \<noteq> None"
  shows "sched_ok (T(p \<mapsto> t)) r'"
  using sched_okD(5-8) [OF ok] p core cur t unfolding sched_ok_def by auto

lemma array_id_cases: "a = b \<or> a \<noteq> b \<and> (c = a \<or> c = b)" for a b c :: array_id
  by (cases a; cases b; cases c) auto

lemma nr_running_active:
  assumes "active r \<noteq> expired r"
  shows "nr_active (arrays r Arr0) + nr_active (arrays r Arr1) = nr_active (arrays r (active r)) + nr_active (arrays r (expired r))"
  using assms by (cases "active r"; cases "expired r") auto

lemma sched_task_put [simp]: "sched_task (put_task p t s) = (sched_task s)(p \<mapsto> t)"
  by (auto simp: sched_task_def put_task_def fun_eq_iff)

lemma put_task_fields [simp]:
  "rq (put_task p t s) = rq s" "jiffies (put_task p t s) = jiffies s" "kobjs (put_task p t s) = kobjs s" "kmem (put_task p t s) = kmem s"
  by (simp_all add: put_task_def)

lemma put_put_task [simp]: "put_task p t' (put_task p t s) = put_task p t' s"
  by (simp add: put_task_def)

lemma sched_task_rq [simp]: "sched_task (s\<lparr>rq := r\<rparr>) = sched_task s" "put_task p t (s\<lparr>rq := r\<rparr>) = (put_task p t s)\<lparr>rq := r\<rparr>"
  by (auto simp: sched_task_def put_task_def fun_eq_iff)

lemma effective_prio_range [simp]: "100 \<le> effective_prio t" "effective_prio t \<le> 139" "0 \<le> effective_prio t" "effective_prio t < 140"
  by (simp_all add: effective_prio_def Let_def)

lemma core_field:
  assumes "core T r" "T p = Some t" "prio t' = prio t" "run_array t' = run_array t"
  shows "core (T(p \<mapsto> t')) r"
  using assms arrays_ok_field [of T r p t t'] by (simp add: core_def)

lemma core_idle:
  assumes "core T r" "T p = Some t" "run_array t = None" "run_array t' = None"
  shows "core (T(p \<mapsto> t')) r"
  using assms arrays_ok_idle(2) [of T r p t t'] by (simp add: core_def)

text \<open>The queues do not see the other fields of the run queue.\<close>

lemma arrays_ok_arrays: "arrays r' = arrays r \<Longrightarrow> arrays_ok T r' = arrays_ok T r"
  by (simp add: arrays_ok_def)

lemma sum_arrays:
  assumes "\<And>b. n' b = n b + (if b = a then d else (0 :: int))"
  shows "n' Arr0 + n' Arr1 = n Arr0 + n Arr1 + d"
  using assms by (cases a) simp_all

definition same_rest :: "runqueue \<Rightarrow> runqueue \<Rightarrow> bool" where
  "same_rest r r' \<longleftrightarrow> active r' = active r \<and> expired r' = expired r \<and> curr r' = curr r \<and>
     expired_timestamp r' = expired_timestamp r"

lemma same_rest_arrays: "r' = r\<lparr>arrays := A\<rparr> \<Longrightarrow> same_rest r r' \<and> nr_running r' = nr_running r"
  by (simp add: same_rest_def)

lemma activate_correct:
  assumes c: "core (sched_task s) (rq s)" and t0: "sched_task s p = Some t0" "run_array t0 = None" and t: "task_sane t"
  obtains t1 r' where "activate_task p t s = Inr (t1, (put_task p t1 s)\<lparr>rq := r'\<rparr>)"
    "core ((sched_task s)(p \<mapsto> t1)) r'" "task_sane t1" "state t1 = state t" "run_array t1 = Some (active (rq s))"
    "time_slice t1 = time_slice t" "need_resched t1 = need_resched t" "rt_task t \<longrightarrow> prio t1 = prio t"
    "same_rest (rq s) r'"
proof -
  define t2 where "t2 = (if \<not> rt_task t \<and> u32 (jiffies s - sleep_timestamp t) \<noteq> 0
      then let sa = u32 (sleep_avg t + u32 (jiffies s - sleep_timestamp t));
               t' = t\<lparr>sleep_avg := (if sa > 1024 then 1024 else sa)\<rparr>
           in t'\<lparr>prio := effective_prio t'\<rparr> else t)"
  have t2: "task_sane t2" "state t2 = state t" "time_slice t2 = time_slice t" "need_resched t2 = need_resched t"
    "rt_task t \<Longrightarrow> prio t2 = prio t"
    using t by (auto simp: t2_def task_sane_def Let_def u32_def)
  have ok: "arrays_ok ((sched_task s)(p := None)) (rq s)" using arrays_ok_idle(1) t0 c by (auto simp: core_def)
  have pr: "0 \<le> prio t2" "prio t2 < 140" using t2(1) by (auto simp: task_sane_def)
  let ?t1 = "t2\<lparr>run_array := Some (active (rq s))\<rparr>"
  obtain r1 where r1: "enqueue_task p t2 (active (rq s)) (rq s) = Inr (?t1, r1)"
    "arrays_ok ((sched_task s)(p \<mapsto> ?t1)) r1"
    "\<forall>b. nr_active (arrays r1 b) = nr_active (arrays (rq s) b) + (if b = active (rq s) then 1 else 0)"
    "r1 = (rq s)\<lparr>arrays := arrays r1\<rparr>"
    by (rule enqueue_arrays [OF ok pr, of "active (rq s)"])
  let ?r' = "r1\<lparr>nr_running := nr_running r1 + 1\<rparr>"
  have f: "nr_running r1 = nr_running (rq s)" "same_rest (rq s) r1" using same_rest_arrays [OF r1(4)] by auto
  have "core ((sched_task s)(p \<mapsto> ?t1)) ?r'"
    using r1(2) c f sum_arrays [OF r1(3) [rule_format]] arrays_ok_arrays [of ?r' r1] by (simp add: core_def same_rest_def)
  moreover have "activate_task p t s = Inr (?t1, (put_task p ?t1 s)\<lparr>rq := ?r'\<rparr>)"
    using r1(1) unfolding activate_task_def Let_def t2_def [unfolded Let_def, symmetric] by simp
  moreover have "same_rest (rq s) ?r'" using f by (simp add: same_rest_def)
  ultimately show thesis using t2 by (intro that [of ?t1 ?r']) (simp_all add: task_sane_def)
qed

lemma load_task_Some [simp]: "sched_task s p = Some t \<Longrightarrow> load_task p s = Inr t"
  by (simp add: load_task_def)

lemma deactivate_correct:
  assumes c: "core (sched_task s) (rq s)" and t: "sched_task s p = Some t" "run_array t \<noteq> None"
  obtains r' where "deactivate_task p t s = Inr ((put_task p (t\<lparr>run_array := None\<rparr>) s)\<lparr>rq := r'\<rparr>)"
    "core ((sched_task s)(p \<mapsto> t\<lparr>run_array := None\<rparr>)) r'"
    "same_rest (rq s) r'"
proof -
  obtain a where a: "run_array t = Some a" using t(2) by auto
  define r2 where "r2 = (let r1 = (rq s)\<lparr>nr_running := nr_running (rq s) - 1\<rparr>
    in if state t = 2 then r1\<lparr>nr_uninterruptible := nr_uninterruptible r1 + 1\<rparr> else r1)"
  have f: "arrays r2 = arrays (rq s)" "nr_running r2 = nr_running (rq s) - 1" "same_rest (rq s) r2"
    by (simp_all add: r2_def Let_def same_rest_def)
  have ok: "arrays_ok (sched_task s) r2" using c by (simp add: core_def arrays_ok_arrays [OF f(1)])
  obtain r' where r': "dequeue_task p t a r2 = Inr r'"
    "arrays_ok ((sched_task s)(p := None)) r'"
    "\<forall>b. nr_active (arrays r' b) = nr_active (arrays r2 b) - (if b = a then 1 else 0)" "r' = r2\<lparr>arrays := arrays r'\<rparr>"
    "\<forall>b i. queue (arrays r' b) i = remove1 p (queue (arrays r2 b) i)"
    "\<forall>b i. abitmap (arrays r' b) i = (abitmap (arrays r2 b) i \<and> \<not> (b = a \<and> i = nat (prio t) \<and> remove1 p (queue (arrays r2 a) i) = []))"
    by (rule dequeue_arrays [OF ok t(1) a refl])
  have g: "nr_running r' = nr_running r2" "same_rest r2 r'" using same_rest_arrays [OF r'(4)] by auto
  have n: "nr_active (arrays r' b) = nr_active (arrays (rq s) b) + (if b = a then - 1 else 0)" for b
    using r'(3) f(1) by simp
  have "arrays_ok ((sched_task s)(p \<mapsto> t\<lparr>run_array := None\<rparr>)) r'"
    by (rule arrays_ok_cong [OF r'(2)]) (auto simp: queued_at_def fun_eq_iff)
  then have "core ((sched_task s)(p \<mapsto> t\<lparr>run_array := None\<rparr>)) r'"
    using c f g sum_arrays [OF n] by (simp add: core_def same_rest_def)
  moreover have "deactivate_task p t s = Inr ((put_task p (t\<lparr>run_array := None\<rparr>) s)\<lparr>rq := r'\<rparr>)"
    using r'(1) a unfolding deactivate_task_def Let_def r2_def [unfolded Let_def, symmetric] by simp
  moreover have "same_rest (rq s) r'" using f(3) g(2) by (simp add: same_rest_def)
  ultimately show thesis by (intro that)
qed

subsection \<open>Waking\<close>

lemma core_nr: "core T (r\<lparr>nr_uninterruptible := n\<rparr>) = core T r" "core T (r\<lparr>nr_switches := n, curr := c\<rparr>) = core T r"
  "core T (r\<lparr>expired_timestamp := n\<rparr>) = core T r"
  by (simp_all add: core_def arrays_ok_def)

lemma sched_ok_need_resched:
  assumes "sched_ok T r" "T p = Some t"
  shows "sched_ok (T(p \<mapsto> t\<lparr>need_resched := n\<rparr>)) r"
  using assms core_field [OF sched_okD(1) [OF assms(1)] assms(2), of "t\<lparr>need_resched := n\<rparr>"]
  unfolding sched_ok_def by (auto simp: task_sane_def split: if_splits)

text \<open>
  Waking a task makes it runnable and says whether it was not; the current task is told to give
  up the processor when the woken one comes before it.
\<close>

lemma try_to_wake_up_correct:
  assumes inv: "sched_inv s" and p: "p \<noteq> 0" "sched_task s p = Some t"
  obtains s' t' where "try_to_wake_up p s = Inr (run_array t = None, s')" "sched_inv s'"
    "sched_task s' p = Some t'" "state t' = 0" "run_array t' \<noteq> None" "curr (rq s') = curr (rq s)"
    "\<forall>q. q \<noteq> p \<longrightarrow> sched_task s' q = (if q = curr (rq s) \<and> run_array t = None
       then map_option (\<lambda>c. if prio t' < prio c then c\<lparr>need_resched := 1\<rparr> else c) (sched_task s q) else sched_task s q)"
proof (cases "run_array t")
  case (Some a)
  let ?s = "put_task p (t\<lparr>state := 0\<rparr>) s"
  have "try_to_wake_up p s = Inr (False, ?s)" using p Some by (simp add: try_to_wake_up_def)
  moreover have "sched_inv ?s"
    using sched_ok_upd [OF inv p(1), of "t\<lparr>state := 0\<rparr>" "rq s"] core_field [OF sched_okD(1) [OF inv] p(2), of "t\<lparr>state := 0\<rparr>"]
      sched_okD(5) [OF inv p(2,1)] Some by (simp add: task_sane_def)
  ultimately show ?thesis using that [of ?s "t\<lparr>state := 0\<rparr>"] Some by simp
next
  case None
  let ?c = "curr (rq s)"
  obtain c where c: "sched_task s ?c = Some c" "?c \<noteq> 0 \<longrightarrow> run_array c \<noteq> None" using sched_okD(7) [OF inv] by blast
  have pc: "p \<noteq> ?c" using c p None by auto
  define s1 where "s1 = (if state t = 2 then s\<lparr>rq := (rq s)\<lparr>nr_uninterruptible := nr_uninterruptible (rq s) - 1\<rparr>\<rparr> else s)"
  have s1: "sched_task s1 = sched_task s" "curr (rq s1) = ?c" "core (sched_task s1) (rq s1)"
    using sched_okD(1) [OF inv] by (simp_all add: s1_def core_nr)
  obtain t1 r' where a: "activate_task p t s1 = Inr (t1, (put_task p t1 s1)\<lparr>rq := r'\<rparr>)"
    "core ((sched_task s)(p \<mapsto> t1)) r'" "task_sane t1" "run_array t1 = Some (active (rq s1))" "same_rest (rq s1) r'"
    using activate_correct [OF s1(3), of p t t] s1(1) p None sched_okD(5) [OF inv p(2,1)] by metis
  have cr: "curr r' = ?c" using s1(2) a(5) by (simp add: same_rest_def)
  let ?t' = "t1\<lparr>state := 0\<rparr>"
  let ?s' = "if prio t1 < prio c then (put_task p ?t' (put_task ?c (c\<lparr>need_resched := 1\<rparr>) (put_task p t1 s1)))\<lparr>rq := r'\<rparr>
    else (put_task p ?t' (put_task p t1 s1))\<lparr>rq := r'\<rparr>"
  have e: "try_to_wake_up p s = Inr (True, ?s')"
    using p None a(1) cr pc c(1) s1 by (simp add: try_to_wake_up_def Let_def s1_def [symmetric] resched_task_def)
  have "core ((sched_task s)(p \<mapsto> ?t')) r'" using core_field [OF a(2), of p t1 ?t'] by simp
  then have ok: "sched_ok ((sched_task s)(p \<mapsto> ?t')) r'"
    using a(3) pc by (intro sched_ok_upd [OF inv p(1) _ cr]) (simp_all add: task_sane_def)
  have "sched_ok ((sched_task s)(p \<mapsto> ?t', ?c \<mapsto> c\<lparr>need_resched := 1\<rparr>)) r'"
    using sched_ok_need_resched [OF ok, of ?c c 1] c pc by simp
  then have "sched_inv ?s'" using ok pc s1(1) by (simp add: fun_upd_twist)
  moreover have "sched_task ?s' p = Some ?t'" "curr (rq ?s') = ?c" using cr by simp_all
  moreover have "\<forall>q. q \<noteq> p \<longrightarrow> sched_task ?s' q = (if q = ?c
       then map_option (\<lambda>c. if prio ?t' < prio c then c\<lparr>need_resched := 1\<rparr> else c) (sched_task s q) else sched_task s q)"
    using c s1(1) by simp
  ultimately show ?thesis using that [of ?s' ?t'] e None a(4) by simp
qed

subsection \<open>Finding the first queue\<close>

lemma ffs_word_None: "ffs_word b k = None \<longleftrightarrow> (\<forall>j. 32 * k \<le> j \<longrightarrow> j < 32 * k + 32 \<longrightarrow> \<not> b j)"
proof -
  have "ffs_word b k = None \<longleftrightarrow> (\<forall>i<32. \<not> b (32 * k + i))" by (auto simp: ffs_word_def find_None_iff)
  also have "\<dots> \<longleftrightarrow> (\<forall>j. 32 * k \<le> j \<longrightarrow> j < 32 * k + 32 \<longrightarrow> \<not> b j)"
    by (metis add_less_cancel_left le_add1 le_add_diff_inverse)
  finally show ?thesis .
qed

lemma ffs_word_Some:
  assumes "ffs_word b k = Some i"
  shows "i < 32" "b (32 * k + i)" "32 * k \<le> j \<Longrightarrow> j < 32 * k + i \<Longrightarrow> \<not> b j"
proof -
  have h: "i < 32 \<and> b (32 * k + i) \<and> (\<forall>l<i. \<not> b (32 * k + l))"
    using assms unfolding ffs_word_def by (auto simp: find_Some_iff)
  then show "i < 32" "b (32 * k + i)" by auto
  show "\<not> b j" if "32 * k \<le> j" "j < 32 * k + i"
    using h that by (metis add_less_cancel_left le_add_diff_inverse)
qed

text \<open>The word-wise search finds the least bit that is set.\<close>

lemma find_first_bit_correct:
  assumes "\<exists>i<160. b i"
  shows "\<exists>i. sched_find_first_bit b = Inr i \<and> b i \<and> (\<forall>j<i. \<not> b j)"
proof -
  define none where "none k \<longleftrightarrow> (\<forall>j. 32 * k \<le> j \<longrightarrow> j < 32 * k + 32 \<longrightarrow> \<not> b j)" for k
  have pick: "b (32 * k + i) \<and> (\<forall>j<32 * k + i. \<not> b j)" if "ffs_word b k = Some i" "\<forall>l<k. none l" for k i
  proof (intro conjI allI impI)
    show "b (32 * k + i)" using ffs_word_Some(2) [OF that(1)] .
    fix j assume j: "j < 32 * k + i"
    show "\<not> b j"
    proof (cases "32 * k \<le> j")
      case False
      then have "j div 32 < k" by linarith
      then have "none (j div 32)" using that(2) by blast
      moreover have "32 * (j div 32) \<le> j" "j < 32 * (j div 32) + 32" by linarith+
      ultimately show ?thesis unfolding none_def by blast
    qed (use ffs_word_Some(3) [OF that(1)] j in blast)
  qed
  have lt: "(\<forall>l<0. none l)" "(\<forall>l<1. none l) \<longleftrightarrow> none 0" "(\<forall>l<2. none l) \<longleftrightarrow> none 0 \<and> none 1"
    "(\<forall>l<3. none l) \<longleftrightarrow> none 0 \<and> none 1 \<and> none 2" "(\<forall>l<4. none l) \<longleftrightarrow> none 0 \<and> none 1 \<and> none 2 \<and> none 3"
    "(\<forall>l<5. none l) \<longleftrightarrow> none 0 \<and> none 1 \<and> none 2 \<and> none 3 \<and> none 4"
    by (auto simp: less_Suc_eq numeral_eq_Suc)
  have ex: "\<not> (\<forall>l<5. none l)"
  proof
    assume a: "\<forall>l<5. none l"
    obtain i where i: "i < 160" "b i" using assms by blast
    have "i div 32 < 5" using i(1) by linarith
    then have "none (i div 32)" using a by blast
    moreover have "32 * (i div 32) \<le> i" "i < 32 * (i div 32) + 32" by linarith+
    ultimately show False using i(2) unfolding none_def by blast
  qed
  note N = ffs_word_None [of b, folded none_def]
  show ?thesis
    using ex pick [of 0] pick [of 1] pick [of 2] pick [of 3] pick [of 4]
    unfolding sched_find_first_bit_def lt
    by (auto simp: N [symmetric] add.commute split: option.split)
qed

end
