(* ===== verification/Scheduler_Pick.thy ===== *)
theory Scheduler_Pick
  imports Scheduler_Inv
begin

text \<open>
  \<^verbatim>\<open>schedule\<close>: it ends after at most two passes, keeps the invariant, and leaves the processor with
  a runnable task of the best priority in the active array, or with the idle task when no task is
  runnable.
\<close>

lemma none_active:
  assumes ok: "arrays_ok T r"
  shows "nr_active (arrays r a) = 0 \<longleftrightarrow> (\<forall>p t. T p = Some t \<longrightarrow> run_array t \<noteq> Some a)"
proof -
  note A = arrays_okD(1) [OF ok, of a]
  have "nr_active (arrays r a) = 0 \<longleftrightarrow> (\<forall>i<140. queue (arrays r a) i = [])"
    unfolding array_okD(5) [OF A] ntotal_def of_nat_eq_0_iff by auto
  also have "\<dots> \<longleftrightarrow> (\<forall>p t. T p = Some t \<longrightarrow> run_array t \<noteq> Some a)"
  proof
    assume e: "\<forall>i<140. queue (arrays r a) i = []"
    show "\<forall>p t. T p = Some t \<longrightarrow> run_array t \<noteq> Some a"
    proof (intro allI impI notI)
      fix p t assume "T p = Some t" "run_array t = Some a"
      from arrays_okD(2) [OF ok this] e show False by auto
    qed
  next
    assume n: "\<forall>p t. T p = Some t \<longrightarrow> run_array t \<noteq> Some a"
    show "\<forall>i<140. queue (arrays r a) i = []"
    proof (intro allI impI)
      fix i :: nat assume "i < 140"
      then have "p \<notin> set (queue (arrays r a) i)" for p using array_okD(4) [OF A, of i p] n by auto
      then show "queue (arrays r a) i = []" by (cases "queue (arrays r a) i") auto
    qed
  qed
  finally show ?thesis .
qed

lemma nr_active_nonneg: "arrays_ok T r \<Longrightarrow> 0 \<le> nr_active (arrays r a)"
  using array_okD(5) [OF arrays_okD(1), of T r a] by simp

text \<open>A task of the best priority in the active array.\<close>

definition best :: "(int \<Rightarrow> task option) \<Rightarrow> runqueue \<Rightarrow> int \<Rightarrow> bool" where
  "best T r p \<longleftrightarrow>
     (if \<forall>q u. T q = Some u \<longrightarrow> run_array u = None then p = 0
      else \<exists>t. T p = Some t \<and> run_array t = Some (active r) \<and>
             (\<forall>q u. T q = Some u \<longrightarrow> run_array u = Some (active r) \<longrightarrow> prio t \<le> prio u))"

lemma find_queue:
  assumes ok: "arrays_ok T r" and ne: "nr_active (arrays r a) \<noteq> 0"
  obtains i p q t where "sched_find_first_bit (abitmap (arrays r a)) = Inr i" "i < 140"
    "queue (arrays r a) i = p # q" "T p = Some t" "run_array t = Some a"
    "\<forall>x u. T x = Some u \<longrightarrow> run_array u = Some a \<longrightarrow> prio t \<le> prio u"
proof -
  note A = array_okD [OF arrays_okD(1) [OF ok, of a]]
  obtain x u where x: "T x = Some u" "run_array u = Some a" using ne none_active [OF ok, of a] by blast
  note X = arrays_okD(2) [OF ok x]
  have "\<exists>i<160. abitmap (arrays r a) i" using A(2) by (intro exI [of _ 140]) simp
  from find_first_bit_correct [OF this] obtain i where i: "sched_find_first_bit (abitmap (arrays r a)) = Inr i"
    "abitmap (arrays r a) i" "\<And>j. j < i \<Longrightarrow> \<not> abitmap (arrays r a) j" by blast
  have bit: "abitmap (arrays r a) (nat (prio v))" if "T y = Some v" "run_array v = Some a" for y v
    using arrays_okD(2) [OF ok that] A(1) [of "nat (prio v)"] by auto
  have "i \<le> nat (prio u)" using bit [OF x] i(3) by (meson not_le)
  then have i140: "i < 140" using X by linarith
  then obtain p q where pq: "queue (arrays r a) i = p # q" using A(1) i(2) by (cases "queue (arrays r a) i") auto
  then obtain t where t: "T p = Some t" "prio t = int i" "run_array t = Some a" using A(4) [OF i140, of p] by auto
  have "prio t \<le> prio v" if "T y = Some v" "run_array v = Some a" for y v
  proof -
    have "i \<le> nat (prio v)" using bit [OF that] i(3) by (meson not_le)
    then show ?thesis using t(2) arrays_okD(2) [OF ok that] by linarith
  qed
  then show thesis using that [OF i(1) i140 pq t(1,3)] by blast
qed

lemma schedule_next_correct:
  assumes c: "core T r"
  obtains p r' where "schedule_next r = Inr (p, r')" "core T r'" "curr r' = curr r" "best T r' p"
    "p = 0 \<or> (\<exists>t. T p = Some t \<and> run_array t \<noteq> None)"
    "\<forall>n c. schedule_next (r'\<lparr>nr_switches := n, curr := c\<rparr>) = Inr (p, r'\<lparr>nr_switches := n, curr := c\<rparr>)"
proof -
  have ok: "arrays_ok T r" and nr: "nr_running r = nr_active (arrays r (active r)) + nr_active (arrays r (expired r))"
    and ae: "active r \<noteq> expired r"
    using c nr_running_active [of r] by (auto simp: core_def)
  note nn = nr_active_nonneg [OF ok]
  have zero: "nr_running r = 0 \<longleftrightarrow> (\<forall>q u. T q = Some u \<longrightarrow> run_array u = None)"
  proof -
    have "nr_running r = 0 \<longleftrightarrow> nr_active (arrays r (active r)) = 0 \<and> nr_active (arrays r (expired r)) = 0"
      using nr nn [of "active r"] nn [of "expired r"] by auto
    also have "\<dots> \<longleftrightarrow> (\<forall>q u. T q = Some u \<longrightarrow> run_array u \<noteq> Some (active r) \<and> run_array u \<noteq> Some (expired r))"
      using none_active [OF ok] by blast
    finally have "nr_running r = 0 \<longleftrightarrow>
      (\<forall>q u. T q = Some u \<longrightarrow> run_array u \<noteq> Some (active r) \<and> run_array u \<noteq> Some (expired r))" .
    moreover have "run_array u \<noteq> Some (active r) \<and> run_array u \<noteq> Some (expired r) \<longleftrightarrow> run_array u = None" for u
      using ae by (cases "run_array u"; cases "the (run_array u)"; cases "active r"; cases "expired r") auto
    ultimately show ?thesis by metis
  qed
  show thesis
  proof (cases "nr_running r = 0")
    case True
    then have "best T (r\<lparr>expired_timestamp := 0\<rparr>) 0" using zero by (simp add: best_def)
    then show ?thesis
      using True c by (intro that [of 0 "r\<lparr>expired_timestamp := 0\<rparr>"]) (simp_all add: schedule_next_def core_nr)
  next
    case False
    define r1 where "r1 = (if nr_active (arrays r (active r)) = 0
      then r\<lparr>active := expired r, expired := active r, expired_timestamp := 0\<rparr> else r)"
    have f: "arrays r1 = arrays r" "nr_running r1 = nr_running r" "curr r1 = curr r" by (simp_all add: r1_def)
    have c1: "core T r1" using c by (auto simp: core_def r1_def arrays_ok_def)
    have ne: "nr_active (arrays r1 (active r1)) \<noteq> 0" using nr False by (simp add: r1_def)
    have ok1: "arrays_ok T r1" using c1 by (simp add: core_def)
    from ok1 ne obtain i p q t where q: "sched_find_first_bit (abitmap (arrays r1 (active r1))) = Inr i" "i < 140"
      "queue (arrays r1 (active r1)) i = p # q" "T p = Some t" "run_array t = Some (active r1)"
      "\<forall>x u. T x = Some u \<longrightarrow> run_array u = Some (active r1) \<longrightarrow> prio t \<le> prio u" by (rule find_queue)
    have "schedule_next r = Inr (p, r1)"
      using False q(1-3) by (simp add: schedule_next_def Let_def r1_def [symmetric])
    moreover have "best T r1 p" using q(4-6) zero False f(2) by (auto simp: best_def)
    moreover have "schedule_next (r1\<lparr>nr_switches := n, curr := c\<rparr>) = Inr (p, r1\<lparr>nr_switches := n, curr := c\<rparr>)" for n c
      using False f(2) ne q(1-3) by (simp add: schedule_next_def Let_def)
    ultimately show ?thesis using q(4,5) c1 f(3) by (intro that [of p r1]) auto
  qed
qed

text \<open>What becomes of the task that was running: it stays queued only when it is runnable.\<close>

lemma schedule_prev_correct:
  assumes inv: "sched_inv s"
  obtains t1 r1 where "schedule_prev (curr (rq s)) s = Inr ((put_task (curr (rq s)) t1 s)\<lparr>rq := r1\<rparr>)"
    "core ((sched_task s)(curr (rq s) \<mapsto> t1)) r1" "curr r1 = curr (rq s)"
    "curr (rq s) \<noteq> 0 \<longrightarrow> task_sane t1" "run_array t1 = None \<or> state t1 = 0"
    "curr (rq s) = 0 \<longrightarrow> run_array t1 = None \<and> state t1 = 0"
proof -
  let ?c = "curr (rq s)"
  obtain t0 where t0: "sched_task s ?c = Some t0" "?c \<noteq> 0 \<longrightarrow> run_array t0 \<noteq> None" using sched_okD(7) [OF inv] by blast
  have idle: "?c = 0 \<longrightarrow> run_array t0 = None \<and> state t0 = 0" using sched_okD(6) [OF inv] t0(1) by auto
  have sane: "?c \<noteq> 0 \<longrightarrow> task_sane t0" using sched_okD(5) [OF inv t0(1)] by blast
  let ?t = "t0\<lparr>sleep_timestamp := jiffies s\<rparr>"
  have c: "core ((sched_task s)(?c \<mapsto> ?t)) (rq s)" "core ((sched_task s)(?c \<mapsto> ?t\<lparr>state := 0\<rparr>)) (rq s)"
    using core_field [OF sched_okD(1) [OF inv] t0(1)] by simp_all
  consider (sig) "state t0 = 1" "sigpending t0 \<noteq> 0" | (run) "state t0 = 0"
    | (block) "state t0 \<noteq> 0" "\<not> (state t0 = 1 \<and> sigpending t0 \<noteq> 0)" by blast
  then show thesis
  proof cases
    case sig
    then have "schedule_prev ?c s = Inr ((put_task ?c (?t\<lparr>state := 0\<rparr>) s)\<lparr>rq := rq s\<rparr>)"
      using t0(1) by (simp add: schedule_prev_def)
    then show ?thesis
      using c(2) sane idle by (intro that [of "rq s" "?t\<lparr>state := 0\<rparr>"]) (simp_all add: task_sane_def)
  next
    case run
    then have "schedule_prev ?c s = Inr ((put_task ?c ?t s)\<lparr>rq := rq s\<rparr>)"
      using t0(1) by (simp add: schedule_prev_def)
    then show ?thesis using c(1) sane idle run by (intro that [of "rq s" ?t]) (simp_all add: task_sane_def)
  next
    case block
    let ?s = "put_task ?c ?t s"
    have nz: "?c \<noteq> 0" using idle block by auto
    have h: "core (sched_task ?s) (rq ?s)" "sched_task ?s ?c = Some ?t" "run_array ?t \<noteq> None"
      using c(1) t0(2) nz by simp_all
    from h obtain r' where r': "deactivate_task ?c ?t ?s = Inr ((put_task ?c (?t\<lparr>run_array := None\<rparr>) ?s)\<lparr>rq := r'\<rparr>)"
      "core ((sched_task ?s)(?c \<mapsto> ?t\<lparr>run_array := None\<rparr>)) r'" "same_rest (rq ?s) r'" by (rule deactivate_correct)
    have "schedule_prev ?c s = Inr ((put_task ?c (?t\<lparr>run_array := None\<rparr>) s)\<lparr>rq := r'\<rparr>)"
      using t0(1) block r'(1) by (auto simp: schedule_prev_def)
    then show ?thesis
      using r'(2,3) sane nz by (intro that [of r' "?t\<lparr>run_array := None\<rparr>"]) (simp_all add: task_sane_def same_rest_def)
  qed
qed

lemma sched_ok_switch:
  assumes inv: "sched_ok T r" and t1: "curr r \<noteq> 0 \<longrightarrow> task_sane t1" "run_array t1 = None \<or> state t1 = 0"
    "curr r = 0 \<longrightarrow> run_array t1 = None \<and> state t1 = 0"
    and c: "core (T(curr r \<mapsto> t1)) r'" and nx: "n = 0 \<or> (\<exists>t. (T(curr r \<mapsto> t1)) n = Some t \<and> run_array t \<noteq> None)"
    and cur: "curr r' = n"
  shows "sched_ok (T(curr r \<mapsto> t1)) r'"
  using sched_okD(5,6,8) [OF inv] t1 c nx cur unfolding sched_ok_def by (auto split: if_splits)

text \<open>A task that \<^verbatim>\<open>schedule\<close> would choose again.\<close>

definition chosen :: "('m, 'z) sched_scheme \<Rightarrow> bool" where
  "chosen s \<longleftrightarrow> best (sched_task s) (rq s) (curr (rq s)) \<and> schedule_next (rq s) = Inr (curr (rq s), rq s) \<and>
     (\<exists>t. sched_task s (curr (rq s)) = Some t \<and> state t = 0)"

lemma best_queued:
  "best T r p \<longleftrightarrow> (if \<forall>q a i. \<not> queued_at T q a i then p = 0
     else \<exists>i. queued_at T p (active r) i \<and> (\<forall>q j. queued_at T q (active r) j \<longrightarrow> i \<le> j))"
proof -
  have "(\<forall>q u. T q = Some u \<longrightarrow> run_array u = None) \<longleftrightarrow> (\<forall>q a i. \<not> queued_at T q a i)"
  proof (intro iffI allI impI)
    fix q u assume "\<forall>q a i. \<not> queued_at T q a i" "T q = Some u"
    then show "run_array u = None" by (cases "run_array u") (auto simp: queued_at_def)
  qed (auto simp: queued_at_def)
  moreover have "(\<exists>t. T p = Some t \<and> run_array t = Some (active r) \<and>
      (\<forall>q u. T q = Some u \<longrightarrow> run_array u = Some (active r) \<longrightarrow> prio t \<le> prio u)) \<longleftrightarrow>
      (\<exists>i. queued_at T p (active r) i \<and> (\<forall>q j. queued_at T q (active r) j \<longrightarrow> i \<le> j))"
    unfolding queued_at_def by blast
  ultimately show ?thesis by (simp only: best_def)
qed

lemma best_cong: "queued_at T' = queued_at T \<Longrightarrow> active r' = active r \<Longrightarrow> best T' r' n = best T r n"
  by (simp only: best_queued)

lemma queued_at_field:
  assumes "T p = Some t" "prio t' = prio t" "run_array t' = run_array t"
  shows "queued_at (T(p \<mapsto> t')) = queued_at T"
  using assms by (auto simp: queued_at_def fun_eq_iff)

lemma schedule_pass_correct:
  assumes inv: "sched_inv s"
  obtains s' where "schedule_pass s = Inr s'" "sched_inv s'" "chosen s'"
    "curr (rq s') = curr (rq s) \<longrightarrow> (\<forall>t. sched_task s' (curr (rq s')) = Some t \<longrightarrow> need_resched t = 0)"
proof -
  let ?c = "curr (rq s)"
  from inv obtain t1 r1 where p: "schedule_prev ?c s = Inr ((put_task ?c t1 s)\<lparr>rq := r1\<rparr>)"
    "core ((sched_task s)(?c \<mapsto> t1)) r1" "curr r1 = ?c"
    "?c \<noteq> 0 \<longrightarrow> task_sane t1" "run_array t1 = None \<or> state t1 = 0"
    "?c = 0 \<longrightarrow> run_array t1 = None \<and> state t1 = 0" by (rule schedule_prev_correct)
  from p(2) obtain n r' where n: "schedule_next r1 = Inr (n, r')" "core ((sched_task s)(?c \<mapsto> t1)) r'" "curr r' = curr r1"
    "best ((sched_task s)(?c \<mapsto> t1)) r' n" "n = 0 \<or> (\<exists>t. ((sched_task s)(?c \<mapsto> t1)) n = Some t \<and> run_array t \<noteq> None)"
    "\<forall>k c. schedule_next (r'\<lparr>nr_switches := k, curr := c\<rparr>) = Inr (n, r'\<lparr>nr_switches := k, curr := c\<rparr>)"
    by (rule schedule_next_correct)
  define t2 where "t2 = t1\<lparr>need_resched := 0\<rparr>"
  define r2 where "r2 = (if ?c \<noteq> n then r'\<lparr>nr_switches := nr_switches r' + 1, curr := n\<rparr> else r')"
  let ?T = "(sched_task s)(?c \<mapsto> t2)" and ?s = "(put_task ?c t2 s)\<lparr>rq := r2\<rparr>"
  have r2: "curr r2 = n" "active r2 = active r'" using n(3) p(3) by (simp_all add: r2_def)
  have "r' = r'\<lparr>nr_switches := nr_switches r', curr := curr r'\<rparr>" by simp
  then have again: "schedule_next r2 = Inr (n, r2)" using n(6) by (metis r2_def)
  have pass: "schedule_pass s = Inr ?s"
    using p(1) n(1) by (simp add: schedule_pass_def Let_def t2_def r2_def)
  have c2: "core ?T r2"
    using core_field [OF n(2), of ?c t1 t2] unfolding r2_def by (cases "?c = n") (simp_all add: t2_def core_nr)
  have q: "n = 0 \<or> (\<exists>t. ?T n = Some t \<and> run_array t \<noteq> None)" using n(5) by (auto simp: t2_def split: if_splits)
  have ok: "sched_ok ?T r2"
    by (rule sched_ok_switch [OF inv _ _ _ c2 q r2(1)]) (use p(4-6) in \<open>auto simp: t2_def task_sane_def\<close>)
  have b: "best ?T r2 n"
    using n(4) best_cong [of ?T "(sched_task s)(?c \<mapsto> t1)" r2 r' n] r2(2)
      queued_at_field [of "(sched_task s)(?c \<mapsto> t1)" ?c t1 t2] by (simp add: t2_def)
  have st: "\<exists>t. ?T n = Some t \<and> state t = 0"
  proof (cases "n = ?c")
    case True
    then show ?thesis using q p(5,6) sched_okD(6) [OF inv] by (auto simp: t2_def)
  next
    case False
    then show ?thesis using q sched_okD(6) [OF inv] sched_okD(8) [OF inv, of n] by (auto split: if_splits)
  qed
  have "chosen ?s" using b again st r2(1) by (simp add: chosen_def)
  then show thesis using pass ok r2(1) by (intro that [of ?s]) (simp_all add: t2_def)
qed

text \<open>A second pass, forced by \<^verbatim>\<open>need_resched\<close> of the chosen task, chooses it again.\<close>

lemma schedule_pass_again:
  assumes "chosen s"
  obtains s' where "schedule_pass s = Inr s'" "curr (rq s') = curr (rq s)"
proof -
  obtain t where t: "schedule_next (rq s) = Inr (curr (rq s), rq s)" "sched_task s (curr (rq s)) = Some t" "state t = 0"
    using assms by (auto simp: chosen_def)
  then have "schedule_pass s = Inr (put_task (curr (rq s)) (t\<lparr>sleep_timestamp := jiffies s, need_resched := 0\<rparr>) s)"
    by (simp add: schedule_pass_def schedule_prev_def Let_def)
  then show thesis by (rule that) simp
qed

lemma schedule_correct:
  assumes inv: "sched_inv s"
  obtains s' t where "schedule False s = Inr s'" "sched_inv s'" "chosen s'"
    "sched_task s' (curr (rq s')) = Some t" "need_resched t = 0"
proof -
  from inv obtain s1 where s1: "schedule_pass s = Inr s1" "sched_inv s1" "chosen s1"
    "curr (rq s1) = curr (rq s) \<longrightarrow> (\<forall>t. sched_task s1 (curr (rq s1)) = Some t \<longrightarrow> need_resched t = 0)"
    by (rule schedule_pass_correct)
  obtain t1 where t1: "sched_task s1 (curr (rq s1)) = Some t1" using sched_okD(7) [OF s1(2)] by blast
  show thesis
  proof (cases "need_resched t1 = 0")
    case True
    then have "schedule False s = Inr s1" using s1(1) t1 by (simp add: schedule_def eval_nat_numeral)
    then show ?thesis using that s1(2,3) t1 True by blast
  next
    case False
    from s1(2) obtain s2 where s2: "schedule_pass s1 = Inr s2" "sched_inv s2" "chosen s2"
      "curr (rq s2) = curr (rq s1) \<longrightarrow> (\<forall>t. sched_task s2 (curr (rq s2)) = Some t \<longrightarrow> need_resched t = 0)"
      by (rule schedule_pass_correct)
    have same: "curr (rq s2) = curr (rq s1)" by (rule schedule_pass_again [OF s1(3)]) (use s2(1) in simp)
    obtain t2 where t2: "sched_task s2 (curr (rq s2)) = Some t2" using sched_okD(7) [OF s2(2)] by blast
    then have z: "need_resched t2 = 0" using s2(4) same by blast
    then have "schedule False s = Inr s2" using s1(1) t1 False s2(1) t2 by (simp add: schedule_def eval_nat_numeral)
    then show ?thesis using that s2(2,3) t2 z by blast
  qed
qed

end
