(* ===== verification/Scheduler_Ops.thy ===== *)
theory Scheduler_Ops
  imports Scheduler_Pick
begin

text \<open>
  The remaining operations of the scheduler keep its invariant and never fault: the timer tick,
  \<^verbatim>\<open>sys_sched_yield\<close>, the changes of priority and the wait queues.
\<close>

subsection \<open>The timer tick\<close>

lemma timeslice_range:
  assumes "100 \<le> static_prio t" "static_prio t < 140"
  shows "5 \<le> TASK_TIMESLICE t" "TASK_TIMESLICE t \<le> 153"
proof -
  let ?x = "148 * (139 - static_prio t)"
  have "0 \<le> ?x" "?x \<le> 148 * 39" using assms by auto
  then have "0 \<le> ?x div 39" "?x div 39 \<le> 148" by linarith+
  then show "5 \<le> TASK_TIMESLICE t" "TASK_TIMESLICE t \<le> 153" using \<open>0 \<le> ?x\<close> by (simp_all add: TASK_TIMESLICE_def cdiv_def)
qed

lemma requeue:
  assumes c: "core T r" and t: "T p = Some t" "run_array t = Some a" and t': "prio t' = prio t"
    and t2: "0 \<le> prio t2" "prio t2 < 140"
  obtains r1 where "dequeue_task p t' a r = Inr r1" "same_rest r r1" "nr_running r1 = nr_running r"
    "\<forall>x b. \<exists>r2. enqueue_task p t2 b (r1\<lparr>expired_timestamp := x\<rparr>) = Inr (t2\<lparr>run_array := Some b\<rparr>, r2) \<and>
       core (T(p \<mapsto> t2\<lparr>run_array := Some b\<rparr>)) r2 \<and> same_rest (r1\<lparr>expired_timestamp := x\<rparr>) r2"
proof -
  have ok: "arrays_ok T r" using c by (simp add: core_def)
  obtain r1 where r1: "dequeue_task p t' a r = Inr r1" "arrays_ok (T(p := None)) r1"
    "\<forall>b. nr_active (arrays r1 b) = nr_active (arrays r b) - (if b = a then 1 else 0)" "r1 = r\<lparr>arrays := arrays r1\<rparr>"
    "\<forall>b i. queue (arrays r1 b) i = remove1 p (queue (arrays r b) i)"
    "\<forall>b i. abitmap (arrays r1 b) i = (abitmap (arrays r b) i \<and> \<not> (b = a \<and> i = nat (prio t) \<and> remove1 p (queue (arrays r a) i) = []))"
    by (rule dequeue_arrays [OF ok t t'])
  have s1: "same_rest r r1" "nr_running r1 = nr_running r" using same_rest_arrays [OF r1(4)] by auto
  have "\<exists>r2. enqueue_task p t2 b (r1\<lparr>expired_timestamp := x\<rparr>) = Inr (t2\<lparr>run_array := Some b\<rparr>, r2) \<and>
       core (T(p \<mapsto> t2\<lparr>run_array := Some b\<rparr>)) r2 \<and> same_rest (r1\<lparr>expired_timestamp := x\<rparr>) r2" for x b
  proof -
    let ?r = "r1\<lparr>expired_timestamp := x\<rparr>"
    have ok1: "arrays_ok (T(p := None)) ?r" using r1(2) by (simp add: arrays_ok_def)
    obtain r2 where r2: "enqueue_task p t2 b ?r = Inr (t2\<lparr>run_array := Some b\<rparr>, r2)"
      "arrays_ok (T(p \<mapsto> t2\<lparr>run_array := Some b\<rparr>)) r2"
      "\<forall>d. nr_active (arrays r2 d) = nr_active (arrays ?r d) + (if d = b then 1 else 0)" "r2 = ?r\<lparr>arrays := arrays r2\<rparr>"
      by (rule enqueue_arrays [OF ok1 t2, of b])
    have s2: "same_rest ?r r2" "nr_running r2 = nr_running ?r" using same_rest_arrays [OF r2(4)] by auto
    have n1: "nr_active (arrays r1 d) = nr_active (arrays r d) + (if d = a then - 1 else 0)" for d using r1(3) by simp
    have n2: "nr_active (arrays r2 d) = nr_active (arrays r1 d) + (if d = b then 1 else 0)" for d using r2(3) by simp
    have "core (T(p \<mapsto> t2\<lparr>run_array := Some b\<rparr>)) r2"
      using c r2(2) s1 s2 sum_arrays [OF n1] sum_arrays [OF n2] by (simp add: core_def same_rest_def)
    then show ?thesis using r2(1) s2(1) by blast
  qed
  then show thesis using that [OF r1(1) s1] by blast
qed

lemma requeue_same:
  assumes "\<forall>x b. \<exists>r2. P b (r1\<lparr>expired_timestamp := x\<rparr>) r2"
  shows "\<exists>r2. P b r1 r2"
proof -
  have "r1\<lparr>expired_timestamp := expired_timestamp r1\<rparr> = r1" by simp
  then show ?thesis using assms by metis
qed

lemma sane_simps [simp]:
  "task_sane (t\<lparr>run_array := x\<rparr>) = task_sane t" "task_sane (t\<lparr>need_resched := n\<rparr>) = task_sane t"
  "task_sane (t\<lparr>first_time_slice := n\<rparr>) = task_sane t" "task_sane (t\<lparr>state := n\<rparr>) = task_sane t"
  by (simp_all add: task_sane_def)

lemma tick_rt_correct:
  assumes inv: "sched_inv s" and p: "p = curr (rq s)" "p \<noteq> 0" "sched_task s p = Some t" "run_array t = Some (active (rq s))"
  shows "\<exists>s'. tick_rt p t s = Inr s' \<and> sched_inv s' \<and> curr (rq s') = curr (rq s)"
proof -
  have sane: "task_sane t" by (rule sched_okD(5) [OF inv p(3,2)])
  have c: "core (sched_task s) (rq s)" by (rule sched_okD(1) [OF inv])
  let ?t1 = "t\<lparr>time_slice := u32 (time_slice t - 1)\<rparr>"
  have u: "u32 (time_slice t - 1) = time_slice t - 1" using sane by (simp add: task_sane_def u32_id)
  consider "sched_policy t \<noteq> 2" | "sched_policy t = 2" "time_slice t - 1 \<noteq> 0" | "sched_policy t = 2" "time_slice t - 1 = 0" by blast
  then show ?thesis
  proof cases
    case 1
    then show ?thesis using inv by (simp add: tick_rt_def)
  next
    case 2
    have "core ((sched_task s)(p \<mapsto> ?t1)) (rq s)" by (rule core_field [OF c p(3)]) simp_all
    then have "sched_inv (put_task p ?t1 s)"
      using sched_ok_upd [OF inv p(2), of ?t1 "rq s"] sane u 2 p(1,4) by (simp add: task_sane_def)
    then show ?thesis using 2 u by (simp add: tick_rt_def)
  next
    case 3
    let ?t2 = "?t1\<lparr>time_slice := u32 (TASK_TIMESLICE ?t1), first_time_slice := 0, need_resched := 1\<rparr>"
    have ts: "5 \<le> TASK_TIMESLICE ?t1" "TASK_TIMESLICE ?t1 \<le> 153"
      using timeslice_range [of ?t1] sane by (simp_all add: task_sane_def)
    have sane2: "task_sane ?t2" using sane ts by (simp add: task_sane_def u32_id)
    have pr: "prio ?t2 = prio t" "0 \<le> prio ?t2" "prio ?t2 < 140" using sane by (simp_all add: task_sane_def)
    obtain r1 where r1: "dequeue_task p ?t2 (active (rq s)) (rq s) = Inr r1" "same_rest (rq s) r1" "nr_running r1 = nr_running (rq s)"
      "\<forall>x b. \<exists>r2. enqueue_task p ?t2 b (r1\<lparr>expired_timestamp := x\<rparr>) = Inr (?t2\<lparr>run_array := Some b\<rparr>, r2) \<and>
        core ((sched_task s)(p \<mapsto> ?t2\<lparr>run_array := Some b\<rparr>)) r2 \<and> same_rest (r1\<lparr>expired_timestamp := x\<rparr>) r2"
      by (rule requeue [OF c p(3,4) pr])
    obtain r2 where r2: "enqueue_task p ?t2 (active r1) r1 = Inr (?t2\<lparr>run_array := Some (active r1)\<rparr>, r2)"
      "core ((sched_task s)(p \<mapsto> ?t2\<lparr>run_array := Some (active r1)\<rparr>)) r2" "same_rest r1 r2"
      using requeue_same [OF r1(4), of "active r1"] by blast
    have cur: "curr r2 = curr (rq s)" using r1(2) r2(3) by (simp add: same_rest_def)
    have "sched_ok ((sched_task s)(p \<mapsto> ?t2\<lparr>run_array := Some (active r1)\<rparr>)) r2"
      using p(1) sane2 by (intro sched_ok_upd [OF inv p(2) r2(2) cur]) simp_all
    then show ?thesis using 3 u r1(1) r2(1) cur by (simp add: tick_rt_def Let_def)
  qed
qed

text \<open>
  A task whose slice ends gets a new slice and priority and goes to the expired array, or back
  to the active one when it is interactive and the expired tasks do not starve.
\<close>

lemma tick_other_correct:
  assumes inv: "sched_inv s" and p: "p = curr (rq s)" "p \<noteq> 0" "sched_task s p = Some t" "run_array t = Some (active (rq s))"
  shows "\<exists>s' t'. tick_other p t s = Inr s' \<and> sched_inv s' \<and> curr (rq s') = curr (rq s) \<and> sched_task s' p = Some t' \<and>
    (if time_slice t = 1
     then need_resched t' = 1 \<and> time_slice t' = TASK_TIMESLICE t' \<and> prio t' = effective_prio t' \<and>
       run_array t' = Some (if \<not> TASK_INTERACTIVE t' \<or> EXPIRED_STARVING s then expired (rq s) else active (rq s))
     else time_slice t' = time_slice t - 1 \<and> run_array t' = run_array t \<and> prio t' = prio t)"
proof -
  have sane: "task_sane t" by (rule sched_okD(5) [OF inv p(3,2)])
  have c: "core (sched_task s) (rq s)" by (rule sched_okD(1) [OF inv])
  define t1 where "t1 = t\<lparr>sleep_avg := (if sleep_avg t \<noteq> 0 then sleep_avg t - 1 else 0), time_slice := u32 (time_slice t - 1)\<rparr>"
  have u: "time_slice t1 = time_slice t - 1" using sane by (simp add: t1_def task_sane_def u32_id)
  have sa: "0 \<le> sleep_avg t1" "sleep_avg t1 \<le> 1024" "prio t1 = prio t" "run_array t1 = run_array t" "static_prio t1 = static_prio t"
    using sane by (auto simp: t1_def task_sane_def)
  show ?thesis
  proof (cases "time_slice t = 1")
    case False
    have "core ((sched_task s)(p \<mapsto> t1)) (rq s)" by (rule core_field [OF c p(3)]) (simp_all add: sa)
    moreover have "task_sane t1" using sane sa u False by (simp add: task_sane_def)
    ultimately have "sched_inv (put_task p t1 s)"
      using sched_ok_upd [OF inv p(2), of t1 "rq s"] p(1,4) sa by simp
    moreover have "tick_other p t s = Inr (put_task p t1 s)"
      using False u by (simp add: tick_other_def Let_def t1_def [symmetric])
    ultimately show ?thesis using False u sa by auto
  next
    case True
    define t3 where "t3 = t1\<lparr>need_resched := 1, prio := effective_prio t1, first_time_slice := 0,
      time_slice := u32 (TASK_TIMESLICE t1)\<rparr>"
    have ts: "5 \<le> TASK_TIMESLICE t1" "TASK_TIMESLICE t1 \<le> 153" using timeslice_range [of t1] sane sa by (simp_all add: task_sane_def)
    have eff: "effective_prio t3 = effective_prio t1" "TASK_TIMESLICE t3 = TASK_TIMESLICE t1"
      by (simp_all add: t3_def effective_prio_def TASK_TIMESLICE_def)
    have t3: "task_sane t3" "time_slice t3 = TASK_TIMESLICE t3" "prio t3 = effective_prio t3" "need_resched t3 = 1"
      "0 \<le> prio t3" "prio t3 < 140"
      using sane sa ts by (simp_all add: eff) (simp_all add: t3_def task_sane_def u32_id)
    obtain r1 where r1: "dequeue_task p t1 (active (rq s)) (rq s) = Inr r1" "same_rest (rq s) r1" "nr_running r1 = nr_running (rq s)"
      "\<forall>x b. \<exists>r2. enqueue_task p t3 b (r1\<lparr>expired_timestamp := x\<rparr>) = Inr (t3\<lparr>run_array := Some b\<rparr>, r2) \<and>
        core ((sched_task s)(p \<mapsto> t3\<lparr>run_array := Some b\<rparr>)) r2 \<and> same_rest (r1\<lparr>expired_timestamp := x\<rparr>) r2"
      by (rule requeue [OF c p(3,4) sa(3) t3(5,6)])
    let ?out = "\<not> TASK_INTERACTIVE t3 \<or> EXPIRED_STARVING s"
    let ?b = "if ?out then expired (rq s) else active (rq s)"
    let ?x = "if ?out \<and> expired_timestamp r1 = 0 then jiffies s else expired_timestamp r1"
    obtain r2 where r2: "enqueue_task p t3 ?b (r1\<lparr>expired_timestamp := ?x\<rparr>) = Inr (t3\<lparr>run_array := Some ?b\<rparr>, r2)"
      "core ((sched_task s)(p \<mapsto> t3\<lparr>run_array := Some ?b\<rparr>)) r2" "same_rest (r1\<lparr>expired_timestamp := ?x\<rparr>) r2"
      using r1(4) by blast
    have cur: "curr r2 = curr (rq s)" "active r1 = active (rq s)" "expired r1 = expired (rq s)"
      using r1(2) r2(3) by (simp_all add: same_rest_def)
    have ok: "sched_ok ((sched_task s)(p \<mapsto> t3\<lparr>run_array := Some ?b\<rparr>)) r2"
      using p(1) t3 by (intro sched_ok_upd [OF inv p(2) r2(2) cur(1)]) simp_all
    have e: "tick_other p t s = Inr ((put_task p (t3\<lparr>run_array := Some ?b\<rparr>) s)\<lparr>rq := r2\<rparr>)"
    proof -
      have x: "r1\<lparr>expired_timestamp := ?x\<rparr> = (if ?out \<and> expired_timestamp r1 = 0 then r1\<lparr>expired_timestamp := jiffies s\<rparr> else r1)"
        by simp
      have "t1\<lparr>need_resched := 1, prio := effective_prio t1, first_time_slice := 0,
          time_slice := u32 (TASK_TIMESLICE (t1\<lparr>need_resched := 1, prio := effective_prio t1\<rparr>))\<rparr> = t3"
        by (simp add: t3_def TASK_TIMESLICE_def)
      then show ?thesis
        using True u r1(1) r2(1) [unfolded x] cur(2,3)
        unfolding tick_other_def Let_def t1_def [symmetric] by (cases ?out) auto
    qed
    have ti: "TASK_INTERACTIVE (t3\<lparr>run_array := x\<rparr>) = TASK_INTERACTIVE t3" "TASK_TIMESLICE (t3\<lparr>run_array := x\<rparr>) = TASK_TIMESLICE t3"
      "effective_prio (t3\<lparr>run_array := x\<rparr>) = effective_prio t3" for x
      by (simp_all add: TASK_INTERACTIVE_def DELTA_def TASK_NICE_def TASK_TIMESLICE_def effective_prio_def)
    show ?thesis using True e ok cur t3(2-4) by (auto simp: ti)
  qed
qed

lemma sched_task_kstat [simp]:
  "sched_task (s\<lparr>kstat_user := n\<rparr>) = sched_task s" "sched_task (s\<lparr>kstat_nice := n\<rparr>) = sched_task s"
  "sched_task (s\<lparr>kstat_system := n\<rparr>) = sched_task s"
  by (auto simp: sched_task_def fun_eq_iff)

lemma scheduler_tick_correct:
  assumes inv: "sched_inv s"
  shows "\<exists>s'. scheduler_tick nested u sys s = Inr s' \<and> sched_inv s' \<and> curr (rq s') = curr (rq s)"
proof (cases "curr (rq s) = 0")
  case True
  then show ?thesis using inv by (simp add: scheduler_tick_def)
next
  case False
  let ?p = "curr (rq s)"
  obtain t where t: "sched_task s ?p = Some t" "run_array t \<noteq> None" using sched_okD(7) [OF inv] False by blast
  define s2 where "s2 = (let s1 = (if TASK_NICE t > 0 then s\<lparr>kstat_nice := kstat_nice s + u\<rparr> else s\<lparr>kstat_user := kstat_user s + u\<rparr>)
    in s1\<lparr>kstat_system := kstat_system s1 + sys\<rparr>)"
  have s2: "sched_task s2 = sched_task s" "rq s2 = rq s" by (simp_all add: s2_def Let_def)
  have inv2: "sched_inv s2" using inv s2 by simp
  have e: "scheduler_tick nested u sys s =
      (if run_array t \<noteq> Some (active (rq s2)) then Inr (put_task ?p (t\<lparr>need_resched := 1\<rparr>) s2)
       else if rt_task t then tick_rt ?p t s2 else tick_other ?p t s2)"
    using False t(1) unfolding scheduler_tick_def Let_def s2_def by simp
  show ?thesis
  proof (cases "run_array t = Some (active (rq s2))")
    case True
    then show ?thesis
      using e tick_rt_correct [OF inv2, of ?p t] tick_other_correct [OF inv2, of ?p t] False t(1) s2 by (cases "rt_task t") auto
  next
    case no: False
    have "sched_inv (put_task ?p (t\<lparr>need_resched := 1\<rparr>) s2)" using sched_ok_need_resched [OF inv t(1)] s2 by simp
    then show ?thesis using e no s2 by simp
  qed
qed

subsection \<open>Yielding\<close>

lemma add_after_first: "set (add_after_first p q) = insert p (set q)" "length (add_after_first p q) = length q + 1"
  "distinct (add_after_first p q) = (p \<notin> set q \<and> distinct q)"
  by (auto simp: add_after_first_def split: list.split)

text \<open>
  The queues after a yield: the current task is behind others of its priority or, when it was the
  only one, of the next priority in its array that has any.
\<close>

lemma yield_queue_correct:
  assumes c: "core T r" and t: "T p = Some t" "run_array t = Some a"
  obtains t1 r' where "yield_queue p t a r = Inr (t1, r')" "core (T(p \<mapsto> t1)) r'" "same_rest r r'"
    "prio t \<le> prio t1" "prio t1 < 140" "t1 = t\<lparr>prio := prio t1\<rparr>" "rt_task t \<longrightarrow> prio t1 = prio t"
proof -
  have ok: "arrays_ok T r" using c by (simp add: core_def)
  have pr: "0 \<le> prio t" "prio t < 140" and mem: "p \<in> set (queue (arrays r a) (nat (prio t)))"
    using arrays_okD(2) [OF ok t] by auto
  obtain d where d: "dequeue_task p t a r = Inr d" "arrays_ok (T(p := None)) d"
    "\<forall>b. nr_active (arrays d b) = nr_active (arrays r b) - (if b = a then 1 else 0)" "d = r\<lparr>arrays := arrays d\<rparr>"
    "\<forall>b i. queue (arrays d b) i = remove1 p (queue (arrays r b) i)"
    "\<forall>b i. abitmap (arrays d b) i = (abitmap (arrays r b) i \<and> \<not> (b = a \<and> i = nat (prio t) \<and> remove1 p (queue (arrays r a) i) = []))"
    by (rule dequeue_arrays [OF ok t refl])
  define k where "k = nat (prio t)"
  have k: "k < 140" "int k = prio t" using pr by (auto simp: k_def)
  have bk: "abitmap (arrays r a) k"
    using array_okD(1) [OF arrays_okD(1) [OF ok, of a] k(1)] mem unfolding k_def [symmetric] by (metis empty_iff empty_set)
  let ?r1 = "list_del_run p r"
  have fin: "core (T(p \<mapsto> u)) r' \<and> same_rest r r'"
    if u: "prio u = int i" "i < 140" "run_array u = Some a"
      and r': "r' = upd_array a (\<lambda>ar. ar\<lparr>queue := (queue ar)(i := q'), abitmap := (abitmap ar)(k := bv, i := True)\<rparr>) ?r1"
      and bv: "i \<noteq> k \<Longrightarrow> bv = (queue (arrays d a) k \<noteq> [])"
      and q': "set q' = insert p (set (queue (arrays d a) i))" "distinct q'" "length q' = length (queue (arrays d a) i) + 1"
    for u r' q' i bv
  proof -
    have F: "queue (arrays r' b) j = (if b = a \<and> j = i then q' else queue (arrays d b) j)"
      "nr_active (arrays r' b) = nr_active (arrays r b)" for b j
      by (simp_all add: r' upd_array_def list_del_run_def d(5))
    have B: "abitmap (arrays r' b) j = (abitmap (arrays d b) j \<or> b = a \<and> j = i)" for b j
    proof (cases "b = a")
      case True
      then show ?thesis using bk bv d(5) [rule_format, of a k]
        by (cases "j = k") (auto simp: r' upd_array_def list_del_run_def d(6) k_def [symmetric])
    qed (simp add: r' upd_array_def list_del_run_def d(6))
    have "arrays_ok (T(p \<mapsto> u)) r'"
      by (rule insert_arrays [OF d(2) u(2,1,3), of r' q']) (use F B q' d(3) in auto)
    then show ?thesis using c F(2) by (simp add: core_def same_rest_def r' upd_array_def list_del_run_def)
  qed
  have Q: "set (queue (arrays d a) j @ [p]) = insert p (set (queue (arrays d a) j))" "distinct (queue (arrays d a) j @ [p])"
    "set (add_after_first p (queue (arrays d a) j)) = insert p (set (queue (arrays d a) j))"
    "distinct (add_after_first p (queue (arrays d a) j))"
    "length (add_after_first p (queue (arrays d a) j)) = length (queue (arrays d a) j) + 1" if "j < 140" for j
    using queued_iff [OF d(2) that, of p a] array_okD(3) [OF arrays_okD(1) [OF d(2), of a] that] by (auto simp: add_after_first)
  have same: "queue (arrays ?r1 a) j = queue (arrays d a) j" "abitmap (arrays ?r1 a) = abitmap (arrays r a)" for j
    by (simp_all add: list_del_run_def d(5))
  show thesis
  proof (cases "rt_task t \<or> queue (arrays d a) k \<noteq> []")
    case True
    define q where "q = (if rt_task t then queue (arrays d a) k @ [p] else add_after_first p (queue (arrays d a) k))"
    let ?r = "upd_array a (\<lambda>ar. ar\<lparr>queue := (queue ar)(k := q), abitmap := (abitmap ar)(k := True, k := True)\<rparr>) ?r1"
    have "(arrays ?r1 a)\<lparr>queue := x, abitmap := (abitmap (arrays ?r1 a))(k := True)\<rparr> = (arrays ?r1 a)\<lparr>queue := x\<rparr>" for x
      using bk by (simp add: list_del_run_def fun_upd_idem)
    then have "?r = upd_array a (\<lambda>ar. ar\<lparr>queue := (queue ar)(k := q)\<rparr>) ?r1" by (simp add: upd_array_def)
    then have "yield_queue p t a r = Inr (t, ?r)"
      using True pr by (auto simp: yield_queue_def k_def [symmetric] q_def same(1) upd_array_def Let_def)
    moreover have "core (T(p \<mapsto> t)) ?r \<and> same_rest r ?r"
      by (rule fin [where i = k and q' = q and bv = True]) (use k t Q [OF k(1)] in \<open>auto simp: q_def\<close>)
    ultimately show thesis by (intro that) (use pr in auto)
  next
    case False
    define b where "b = (abitmap (arrays r a))(k := False)"
    have b140: "b 140" using array_okD(2) [OF arrays_okD(1) [OF ok, of a]] k(1) by (simp add: b_def)
    have "\<exists>i<160. b i" using b140 by (intro exI [of _ 140]) simp
    from find_first_bit_correct [OF this]
    obtain i0 where i0: "sched_find_first_bit b = Inr i0" "b i0" "\<forall>j<i0. \<not> b j" by blast
    have "i0 \<le> 140" using i0(3) b140 by (meson not_le)
    define i where "i = (if i0 = 140 \<or> i0 \<le> k then k else i0)"
    define t1 where "t1 = (if i0 = 140 \<or> i0 \<le> k then t else t\<lparr>prio := int i0\<rparr>)"
    have i: "i < 140" "k \<le> i" "prio t1 = int i" "run_array t1 = Some a" "t1 = t\<lparr>prio := prio t1\<rparr>"
      using \<open>i0 \<le> 140\<close> k t by (auto simp: i_def t1_def)
    let ?q = "add_after_first p (queue (arrays d a) i)"
    let ?r = "upd_array a (\<lambda>ar. ar\<lparr>queue := (queue ar)(i := ?q), abitmap := (abitmap ar)(k := False, i := True)\<rparr>) ?r1"
    have y: "yield_queue p t a r = Inr (t1, ?r)"
      using False pr i0(1) by (simp add: yield_queue_def k_def [symmetric] same upd_array_def b_def Let_def i_def [symmetric] t1_def [symmetric])
    have "core (T(p \<mapsto> t1)) ?r \<and> same_rest r ?r"
      by (rule fin [where i = i and q' = ?q and bv = False]) (use i False Q [OF i(1)] in auto)
    then show thesis using y by (intro that) (use i k False in auto)
  qed
qed

text \<open>A permitted yield of a task that is queued leaves the processor to the task the scheduler chooses.\<close>

lemma sys_sched_yield_correct:
  assumes inv: "sched_inv s" and cur: "curr (rq s) \<noteq> 0" "sched_task s (curr (rq s)) = Some t"
    and allowed: "policy_on t \<noteq> 1 \<or> 1 \<le> policy_level t"
  obtains s' where "sys_sched_yield False s = Inr (0, s')" "sched_inv s'" "chosen s'"
proof -
  let ?p = "curr (rq s)"
  obtain a where a: "run_array t = Some a" using sched_okD(7) [OF inv] cur by auto
  obtain t1 r where y: "yield_queue ?p t a (rq s) = Inr (t1, r)" "core ((sched_task s)(?p \<mapsto> t1)) r" "same_rest (rq s) r"
    "prio t \<le> prio t1" "prio t1 < 140" "t1 = t\<lparr>prio := prio t1\<rparr>" "rt_task t \<longrightarrow> prio t1 = prio t"
    by (rule yield_queue_correct [OF sched_okD(1) [OF inv] cur(2) a])
  have "task_sane t" using sched_okD(5) [OF inv cur(2,1)] .
  then have sane: "task_sane t1" using y(4,5) by (subst y(6)) (simp add: task_sane_def)
  have ra: "run_array t1 = Some a" using a by (subst y(6)) simp
  let ?s1 = "put_task ?p t1 (s\<lparr>rq := r\<rparr>)"
  have cr: "curr r = ?p" using y(3) by (simp add: same_rest_def)
  have "sched_inv ?s1" using sched_ok_upd [OF inv cur(1) y(2) cr sane] ra by simp
  then obtain s2 u where s2: "schedule False ?s1 = Inr s2" "sched_inv s2" "chosen s2"
    "sched_task s2 (curr (rq s2)) = Some u" "need_resched u = 0" by (rule schedule_correct)
  have "tasks s ?p = Some t" using cur by (simp add: sched_task_def)
  then have "sys_sched_yield_check ?p s = Inr (None, s)"
    using allowed by (auto simp: sys_sched_yield_check_def policy_check_def task_by_pid_def)
  then have "sys_sched_yield False s = Inr (0, s2)"
    using cur(2) a y(1) s2(1) by (simp add: sys_sched_yield_def)
  then show thesis using s2 by (intro that)
qed

subsection \<open>Changing the nice value\<close>

text \<open>
  The task gets the nice value and is queued at the new priority. No other task is changed: the
  running task is asked to reschedule only when it is the one reniced.
\<close>

lemma set_user_nice_correct:
  assumes inv: "sched_inv s" and p: "p \<noteq> 0" "sched_task s p = Some t"
  obtains s' t' where "set_user_nice p nice s = Inr s'" "sched_inv s'" "sched_task s' p = Some t'"
    "-20 \<le> nice \<and> nice \<le> 19 \<longrightarrow> TASK_NICE t' = nice" "\<not> (-20 \<le> nice \<and> nice \<le> 19) \<longrightarrow> s' = s"
    "state t' = state t" "run_array t' = run_array t" "curr (rq s') = curr (rq s)"
    "\<forall>q. q \<noteq> p \<longrightarrow> sched_task s' q = sched_task s q"
proof (cases "TASK_NICE t = nice \<or> nice < -20 \<or> nice > 19")
  case True
  then have "set_user_nice p nice s = Inr s" using p by (simp add: set_user_nice_def)
  then show ?thesis using True inv p by (intro that [of s t]) auto
next
  case False
  define sp where "sp = NICE_TO_PRIO nice"
  have sp: "100 \<le> sp" "sp < 140" using False by (auto simp: sp_def NICE_TO_PRIO_def)
  have nice: "TASK_NICE (t\<lparr>static_prio := sp\<rparr>) = nice"
    by (simp add: sp_def NICE_TO_PRIO_def TASK_NICE_def PRIO_TO_NICE_def)
  have sane: "task_sane t" using sched_okD(5) [OF inv p(2,1)] .
  note cur = sched_okD(7) [OF inv]
  show ?thesis
  proof (cases "rt_task t \<or> run_array t = None")
    case True
    define t' where "t' = (if rt_task t then t\<lparr>static_prio := sp\<rparr> else t\<lparr>static_prio := sp, prio := sp\<rparr>)"
    have t': "task_sane t'" "state t' = state t" "run_array t' = run_array t" "TASK_NICE t' = nice"
      using sane sp nice by (auto simp: t'_def task_sane_def TASK_NICE_def)
    have "set_user_nice p nice s = Inr (put_task p t' s)"
      using False True p by (auto simp: set_user_nice_def t'_def sp_def Let_def)
    moreover have "core ((sched_task s)(p \<mapsto> t')) (rq s)"
    proof (cases "rt_task t")
      case True
      then show ?thesis using core_field [OF sched_okD(1) [OF inv] p(2), of t'] by (simp add: t'_def)
    next
      case False
      then show ?thesis using \<open>rt_task t \<or> run_array t = None\<close> core_idle [OF sched_okD(1) [OF inv] p(2), of t'] t'(3) by simp
    qed
    then have "sched_inv (put_task p t' s)"
      using sched_ok_upd [OF inv p(1) _ refl t'(1)] sched_okD(8) [OF inv p(2)] t'(2,3) cur p
      by (cases "p = curr (rq s)") auto
    ultimately show ?thesis using t' False by (intro that [of "put_task p t' s" t']) (auto simp: p)
  next
    case queued: False
    then obtain a where a: "run_array t = Some a" by auto
    let ?t1 = "t\<lparr>static_prio := sp, prio := sp\<rparr>"
    have r1p: "0 \<le> prio ?t1" "prio ?t1 < 140" using sp by auto
    obtain r1 where r1: "dequeue_task p t a (rq s) = Inr r1" "same_rest (rq s) r1" "nr_running r1 = nr_running (rq s)"
      "\<forall>x b. \<exists>r2. enqueue_task p ?t1 b (r1\<lparr>expired_timestamp := x\<rparr>) = Inr (?t1\<lparr>run_array := Some b\<rparr>, r2) \<and>
         core ((sched_task s)(p \<mapsto> ?t1\<lparr>run_array := Some b\<rparr>)) r2 \<and> same_rest (r1\<lparr>expired_timestamp := x\<rparr>) r2"
      by (rule requeue [OF sched_okD(1) [OF inv] p(2) a refl r1p])
    from requeue_same [OF r1(4), of a]
    obtain r2 where r2: "enqueue_task p ?t1 a r1 = Inr (?t1\<lparr>run_array := Some a\<rparr>, r2)"
      "core ((sched_task s)(p \<mapsto> ?t1\<lparr>run_array := Some a\<rparr>)) r2" "same_rest r1 r2" by blast
    let ?t2 = "?t1\<lparr>run_array := Some a\<rparr>"
    have cr: "curr r2 = curr (rq s)" using r1(2) r2(3) by (simp add: same_rest_def)
    let ?s1 = "put_task p ?t2 (s\<lparr>rq := r2\<rparr>)"
    have sane2: "task_sane ?t2" using sane sp by (simp add: task_sane_def)
    have ok1: "sched_inv ?s1"
      using sched_ok_upd [OF inv p(1) r2(2) cr sane2] sched_okD(8) [OF inv p(2)] a by simp
    define t' where "t' = (if p = curr (rq s) then ?t2\<lparr>need_resched := 1\<rparr> else ?t2)"
    let ?s' = "put_task p t' (s\<lparr>rq := r2\<rparr>)"
    have "set_user_nice p nice s = Inr ?s'"
      using False queued p a r1(1) r2(1) cr
      by (auto simp: set_user_nice_def sp_def [symmetric] resched_task_def t'_def Let_def)
    moreover have "sched_inv ?s'"
      using ok1 sched_ok_need_resched [OF ok1, of p ?t2 1] by (auto simp: t'_def)
    ultimately show ?thesis
      using False nice a cr by (intro that [of ?s' t']) (auto simp: t'_def TASK_NICE_def)
  qed
qed

subsection \<open>Wait queues\<close>

definition runnable :: "('m, 'z) sched_scheme \<Rightarrow> int \<Rightarrow> bool" where
  "runnable s p \<longleftrightarrow> (\<exists>t. sched_task s p = Some t \<and> state t = 0)"

text \<open>What waking keeps: the invariant, the tasks, the running task, and what was runnable.\<close>

definition wakes :: "('m, 'z) sched_scheme \<Rightarrow> ('m, 'z) sched_scheme \<Rightarrow> bool" where
  "wakes s s' \<longleftrightarrow> sched_inv s' \<and> dom (sched_task s') = dom (sched_task s) \<and> curr (rq s') = curr (rq s) \<and>
     (\<forall>p. runnable s p \<longrightarrow> runnable s' p)"

lemma wakes_trans: "wakes s s1 \<Longrightarrow> wakes s1 s2 \<Longrightarrow> wakes s s2"
  by (auto simp: wakes_def)

lemma try_to_wake_up_wakes:
  assumes inv: "sched_inv s" and p: "p \<noteq> 0" "sched_task s p = Some t"
  obtains s' where "try_to_wake_up p s = Inr (run_array t = None, s')" "wakes s s'" "runnable s' p"
    "\<forall>q. q \<noteq> p \<longrightarrow> q \<noteq> curr (rq s) \<longrightarrow> sched_task s' q = sched_task s q"
proof -
  obtain s' t' where w: "try_to_wake_up p s = Inr (run_array t = None, s')" "sched_inv s'"
    "sched_task s' p = Some t'" "state t' = 0" "run_array t' \<noteq> None" "curr (rq s') = curr (rq s)"
    "\<forall>q. q \<noteq> p \<longrightarrow> sched_task s' q = (if q = curr (rq s) \<and> run_array t = None
       then map_option (\<lambda>c. if prio t' < prio c then c\<lparr>need_resched := 1\<rparr> else c) (sched_task s q) else sched_task s q)"
    by (rule try_to_wake_up_correct [OF inv p])
  have "sched_task s' q = None \<longleftrightarrow> sched_task s q = None" for q
    using w(3,7) p by (cases "q = p") auto
  then have "dom (sched_task s') = dom (sched_task s)" by (auto simp: dom_def)
  moreover have "runnable s' q" if q: "runnable s q" for q
  proof (cases "q = p")
    case False
    obtain u where u: "sched_task s q = Some u" "state u = 0" using q by (auto simp: runnable_def)
    have "sched_task s' q = Some (if q = curr (rq s) \<and> run_array t = None \<and> prio t' < prio u
        then u\<lparr>need_resched := 1\<rparr> else u)"
      unfolding w(7) [rule_format, OF False] u(1) by simp
    then show ?thesis using u(2) by (simp add: runnable_def)
  qed (use w in \<open>simp add: runnable_def\<close>)
  ultimately have "wakes s s'" using w by (simp add: wakes_def)
  then show thesis using w by (intro that) (auto simp: runnable_def)
qed

text \<open>
  Waking a queue of existing tasks ends; the waiters in \<open>mode\<close> that come before the first exclusive
  one all become runnable.
\<close>

lemma wake_up_common_correct:
  assumes "sched_inv s" and "\<forall>(p, e) \<in> set q. p \<noteq> 0 \<and> sched_task s p \<noteq> None"
  shows "\<exists>s'. wake_up_common q mode nr s = Inr s' \<and> wakes s s' \<and>
    (\<forall>(p, e) \<in> set (takeWhile (\<lambda>x. \<not> snd x) q). p \<noteq> curr (rq s) \<longrightarrow>
       (\<forall>t. sched_task s p = Some t \<longrightarrow> and (state t) mode \<noteq> 0 \<longrightarrow> runnable s' p))"
  using assms
proof (induction q arbitrary: nr s)
  case Nil
  then show ?case by (simp add: wakes_def)
next
  case (Cons x q)
  obtain p e where x: "x = (p, e)" by (cases x)
  obtain t where t: "p \<noteq> 0" "sched_task s p = Some t" using Cons.prems(2) x by auto
  show ?case
  proof (cases "and (state t) mode = 0")
    case True
    have "\<forall>(p, e) \<in> set q. p \<noteq> 0 \<and> sched_task s p \<noteq> None" using Cons.prems(2) by simp
    from Cons.IH [OF Cons.prems(1) this, of nr]
    obtain s' where "wake_up_common q mode nr s = Inr s'" "wakes s s'"
      "\<forall>(p, e) \<in> set (takeWhile (\<lambda>x. \<not> snd x) q). p \<noteq> curr (rq s) \<longrightarrow>
         (\<forall>t. sched_task s p = Some t \<longrightarrow> and (state t) mode \<noteq> 0 \<longrightarrow> runnable s' p)"
      by blast
    then show ?thesis using True t x by (auto split: if_splits)
  next
    case False
    obtain s1 where s1: "try_to_wake_up p s = Inr (run_array t = None, s1)" "wakes s s1" "runnable s1 p"
      "\<forall>q. q \<noteq> p \<longrightarrow> q \<noteq> curr (rq s) \<longrightarrow> sched_task s1 q = sched_task s q"
      by (rule try_to_wake_up_wakes [OF Cons.prems(1) t])
    have c: "curr (rq s1) = curr (rq s)" using s1(2) by (simp add: wakes_def)
    show ?thesis
    proof (cases "run_array t = None \<and> e \<and> nr = 1")
      case True
      then show ?thesis using False s1 t x by auto
    next
      case go: False
      let ?nr = "if run_array t = None \<and> e then nr - 1 else nr"
      have "sched_inv s1" "\<forall>(p, e) \<in> set q. p \<noteq> 0 \<and> sched_task s1 p \<noteq> None"
        using s1(2) Cons.prems(2) by (auto simp: wakes_def dom_def)
      from Cons.IH [OF this, of ?nr] obtain s' where s': "wake_up_common q mode ?nr s1 = Inr s'" "wakes s1 s'"
        "\<forall>(p, e) \<in> set (takeWhile (\<lambda>x. \<not> snd x) q). p \<noteq> curr (rq s1) \<longrightarrow>
           (\<forall>t. sched_task s1 p = Some t \<longrightarrow> and (state t) mode \<noteq> 0 \<longrightarrow> runnable s' p)" by blast
      have "runnable s' p" using s1(3) s'(2) by (simp add: wakes_def)
      moreover have "wake_up_common (x # q) mode nr s = Inr s'" using False go s'(1) s1(1) t x by auto
      moreover have "runnable s' q'" if "(q', e') \<in> set (takeWhile (\<lambda>x. \<not> snd x) q)" "q' \<noteq> curr (rq s)"
        "sched_task s q' = Some u" "and (state u) mode \<noteq> 0" for q' e' u
      proof (cases "q' = p")
        case False
        then have "sched_task s1 q' = Some u" using s1(4) that by simp
        then show ?thesis using s'(3) that c by fastforce
      qed (use \<open>runnable s' p\<close> in simp)
      ultimately show ?thesis using wakes_trans [OF s1(2) s'(2)] x
        by (intro exI [of _ s']) (auto split: if_splits)
    qed
  qed
qed

subsection \<open>Changing the scheduling policy\<close>

definition setscheduler_refuses :: "bool \<Rightarrow> int \<Rightarrow> int \<Rightarrow> task \<Rightarrow> task \<Rightarrow> bool" where
  "setscheduler_refuses capable policy lp t c \<longleftrightarrow> policy \<notin> {SCHED_FIFO, SCHED_RR, SCHED_OTHER} \<or> lp < 0 \<or> lp > 99 \<or>
     (policy = SCHED_OTHER) \<noteq> (lp = 0) \<or> \<not> capable \<and> (policy \<noteq> SCHED_OTHER \<or> euid c \<noteq> euid t \<and> euid c \<noteq> uid t)"

lemma activate_policy:
  assumes "activate_task p t s = Inr (t1, s')"
  shows "sched_policy t1 = sched_policy t" "rt_priority t1 = rt_priority t"
  using assms by (auto simp: activate_task_def enqueue_task_def Let_def split: if_splits)

text \<open>
  A refused request changes nothing; a granted one gives the task the policy, its priority, and the
  same place with respect to running or not.
\<close>

lemma setscheduler_task_correct:
  assumes inv: "sched_inv s" and p: "p \<noteq> 0" "sched_task s p = Some t" and c: "sched_task s (curr (rq s)) = Some c"
    and pol: "0 \<le> policy"
  obtains r s' t' where "setscheduler_task capable policy lp p s = Inr (r, s')" "sched_inv s'" "sched_task s' p = Some t'"
    "r \<noteq> 0 \<longleftrightarrow> setscheduler_refuses capable policy lp t c" "r \<noteq> 0 \<longrightarrow> s' = s"
    "r = 0 \<longrightarrow> sched_policy t' = policy \<and> rt_priority t' = lp \<and> (run_array t' = None \<longleftrightarrow> run_array t = None) \<and>
       (policy \<noteq> SCHED_OTHER \<longrightarrow> prio t' = 99 - lp)"
proof (cases "setscheduler_refuses capable policy lp t c")
  case True
  then have "\<exists>r. setscheduler_task capable policy lp p s = Inr (r, s) \<and> r \<noteq> 0"
    using p c pol by (auto simp: setscheduler_task_def setscheduler_refuses_def Let_def)
  then show ?thesis using True that inv p by blast
next
  case False
  define g where "g u = u\<lparr>sched_policy := policy, rt_priority := lp, prio := (if policy \<noteq> SCHED_OTHER then 99 - lp else static_prio u)\<rparr>" for u :: task
  have sane: "task_sane t" using sched_okD(5) [OF inv p(2,1)] .
  have lp: "0 \<le> lp" "lp \<le> 99" using False by (auto simp: setscheduler_refuses_def)
  show ?thesis
  proof (cases "run_array t")
    case None
    let ?s' = "put_task p (g t) s"
    have "setscheduler_task capable policy lp p s = Inr (0, ?s')"
      using p c pol False None by (auto simp: setscheduler_task_def setscheduler_refuses_def Let_def g_def)
    moreover have "sched_inv ?s'"
    proof -
      have "core ((sched_task s)(p \<mapsto> g t)) (rq s)"
        using core_idle [OF sched_okD(1) [OF inv] p(2) None, of "g t"] None by (simp add: g_def)
      moreover have "task_sane (g t)" using sane lp by (simp add: g_def task_sane_def)
      ultimately show ?thesis
        using sched_ok_upd [OF inv p(1), of "g t" "rq s"] sched_okD(7) [OF inv] p None by (simp add: g_def) fastforce
    qed
    ultimately show ?thesis using False None by (intro that [of 0 ?s' "g t"]) (auto simp: g_def)
  next
    case (Some a)
    then have "run_array t \<noteq> None" by simp
    with sched_okD(1) [OF inv] p(2) obtain r1 where r1:
      "deactivate_task p t s = Inr ((put_task p (t\<lparr>run_array := None\<rparr>) s)\<lparr>rq := r1\<rparr>)"
      "core ((sched_task s)(p \<mapsto> t\<lparr>run_array := None\<rparr>)) r1" "same_rest (rq s) r1"
      by (rule deactivate_correct)
    let ?s1 = "(put_task p (t\<lparr>run_array := None\<rparr>) s)\<lparr>rq := r1\<rparr>" and ?t3 = "g (t\<lparr>run_array := None\<rparr>)"
    have t3: "task_sane ?t3" "sched_task ?s1 p = Some (t\<lparr>run_array := None\<rparr>)" "core (sched_task ?s1) (rq ?s1)"
      using sane lp r1(2) by (simp_all add: g_def task_sane_def)
    obtain t1 r' where a: "activate_task p ?t3 ?s1 = Inr (t1, (put_task p t1 ?s1)\<lparr>rq := r'\<rparr>)"
      "core ((sched_task ?s1)(p \<mapsto> t1)) r'" "task_sane t1" "state t1 = state ?t3" "run_array t1 = Some (active (rq ?s1))"
      "time_slice t1 = time_slice ?t3" "need_resched t1 = need_resched ?t3" "rt_task ?t3 \<longrightarrow> prio t1 = prio ?t3"
      "same_rest (rq ?s1) r'"
      by (rule activate_correct [OF t3(3,2) _ t3(1)]) simp
    let ?s' = "(put_task p t1 ?s1)\<lparr>rq := r'\<rparr>"
    have "setscheduler_task capable policy lp p s = Inr (0, ?s')"
      using p c pol False Some r1(1) a(1) by (auto simp: setscheduler_task_def setscheduler_refuses_def Let_def g_def)
    moreover have "sched_inv ?s'"
      using sched_ok_upd [OF inv p(1), of t1 r'] a r1 sched_okD(8) [OF inv p(2)] Some
      by (simp add: same_rest_def g_def)
    moreover have "sched_policy t1 = policy \<and> rt_priority t1 = lp" using activate_policy [OF a(1)] by (simp add: g_def)
    ultimately show ?thesis using False Some a lp by (intro that [of 0 ?s' t1]) (auto simp: g_def rt_task_def)
  qed
qed

subsection \<open>The start\<close>

lemma init_array_fields:
  "nr_active (init_array ar) = nr_active ar"
  "k < 140 \<Longrightarrow> queue (init_array ar) k = []" "k < 140 \<Longrightarrow> \<not> abitmap (init_array ar) k" "abitmap (init_array ar) 140"
proof -
  let ?f = "\<lambda>k a. a\<lparr>queue := (queue a)(k := []), abitmap := (abitmap a)(k := False)\<rparr>"
  have *: "nr_active (fold ?f ks a) = nr_active a \<and>
    (\<forall>k. queue (fold ?f ks a) k = (if k \<in> set ks then [] else queue a k)) \<and>
    (\<forall>k. abitmap (fold ?f ks a) k = (k \<notin> set ks \<and> abitmap a k))" for ks :: "nat list" and a :: prio_array
    by (induction ks arbitrary: a) auto
  show "nr_active (init_array ar) = nr_active ar" "abitmap (init_array ar) 140"
    using * [of "[0..<140]" ar] by (auto simp: init_array_def Let_def)
  show "queue (init_array ar) k = []" "\<not> abitmap (init_array ar) k" if "k < 140"
    using * [of "[0..<140]" ar] that by (auto simp: init_array_def Let_def)
qed

text \<open>The run queue of a zeroed processor: nothing runs but the idle task.\<close>

lemma sched_init_ok:
  assumes z: "nr_running r = 0" "\<And>a. nr_active (arrays r a) = 0"
    and T: "\<And>p t. T p = Some t \<Longrightarrow> run_array t = None \<and> (p \<noteq> 0 \<longrightarrow> task_sane t)" "T 0 = Some i" "state i = 0"
  shows "sched_ok T (sched_init r)"
proof -
  have "ntotal (init_array (arrays r a)) = 0" for a by (simp add: ntotal_def init_array_fields)
  then have "array_ok T a (arrays (sched_init r) a)" for a
    by (simp add: array_ok_def sched_init_def init_array_fields z)
  then have "arrays_ok T (sched_init r)" using T(1) by (intro arrays_okI) auto
  then show ?thesis
    using T z by (auto simp: sched_ok_def core_def sched_init_def init_array_fields)
qed

text \<open>The values a priority can be shown as: 0 to 39 for a task that is not a real-time one.\<close>

lemma task_prio_range:
  assumes "task_sane t" "\<not> rt_task t"
  shows "0 \<le> task_prio t" "task_prio t \<le> 39"
  using assms by (auto simp: task_sane_def rt_task_def task_prio_def)

end
