(* ===== verification/Policy_Runs.thy ===== *)
theory Policy_Runs
  imports Policy
begin

text \<open>
  Sequences of policy calls. \<open>exec_call\<close> runs one call of the interface, one guarded call or the
  end of a process on the kernel state, \<open>spec_call\<close> is what the call promises on the views of
  the processes, and \<open>reachable\<close> are the states some sequence of calls leads to. The lemmas show
  that every reachable state has the invariant, and that from a reachable state every admissible
  call returns, without a fault, what it promises.
\<close>

datatype policy_call =
    EnablePolicy int int int
  | DisablePolicy int int
  | SetCapabilities int int int
  | GetLog nat int int
  | Fork int int
  | Wait4 int
  | SchedYield int
  | Release int

text \<open>\<open>Allowed\<close> is a guarded call that passes its check; for \<open>Fork\<close> the child is then there.\<close>

datatype call_result = Returned int | Records int "forbidden_activity_info option list" | Allowed

definition hook_result ::
  "(int option \<times> ('m, 'z) kernel_scheme) kres \<Rightarrow> (call_result \<times> ('m, 'z) kernel_scheme) kres" where
  "hook_result x = kbind x (\<lambda>(r, s). Inr (case r of None \<Rightarrow> Allowed | Some e \<Rightarrow> Returned e, s))"

definition fork_child ::
  "int \<Rightarrow> int \<Rightarrow> ('m, 'z) kernel_scheme \<Rightarrow> (call_result \<times> ('m, 'z) kernel_scheme) kres" where
  "fork_child cur child s = kbind (do_fork_check cur s) (\<lambda>(r, s1).
     case r of
       Some e \<Rightarrow> Inr (Returned e, s1)
     | None \<Rightarrow> (case task_by_pid s1 cur of
                  None \<Rightarrow> Inl NullDeref
                | Some current \<Rightarrow> Inr (Allowed, set_task child (fork_task current\<lparr>pid := child\<rparr>) s1)))"

definition release_process ::
  "'m kfree_fn \<Rightarrow> int \<Rightarrow> ('m, 'z) kernel_scheme \<Rightarrow> (call_result \<times> ('m, 'z) kernel_scheme) kres" where
  "release_process kfree p s = (case task_by_pid s p of
       None \<Rightarrow> Inl NullDeref
     | Some t \<Rightarrow> kbind (release_log kfree t s) (\<lambda>s1. Inr (Returned 0, s1\<lparr>tasks := (tasks s1)(p := None)\<rparr>)))"

definition exec_call ::
  "'m kmalloc_fn \<Rightarrow> 'm kfree_fn \<Rightarrow> policy_call \<Rightarrow> ('m, 'z) kernel_scheme \<Rightarrow>
   (call_result \<times> ('m, 'z) kernel_scheme) kres" where
  "exec_call kmalloc kfree c s = (case c of
       EnablePolicy pd sz pw \<Rightarrow> kbind (sys_enable_policy kmalloc kfree pd sz pw s) (\<lambda>(r, s'). Inr (Returned r, s'))
     | DisablePolicy pd pw \<Rightarrow> kbind (sys_disable_policy kfree pd pw s) (\<lambda>(r, s'). Inr (Returned r, s'))
     | SetCapabilities pd lvl pw \<Rightarrow> kbind (sys_set_process_capabilities pd lvl pw s) (\<lambda>(r, s'). Inr (Returned r, s'))
     | GetLog left pd sz \<Rightarrow> kbind (sys_get_process_log kmalloc kfree left pd sz s) (\<lambda>(r, out, s'). Inr (Records r out, s'))
     | Fork cur child \<Rightarrow> fork_child cur child s
     | Wait4 cur \<Rightarrow> hook_result (sys_wait4_check cur s)
     | SchedYield cur \<Rightarrow> hook_result (sys_sched_yield_check cur s)
     | Release p \<Rightarrow> release_process kfree p s)"

subsection \<open>What the calls promise\<close>

definition spec_hook :: "int \<Rightarrow> int \<Rightarrow> int \<Rightarrow> pviews \<Rightarrow> call_result \<Rightarrow> pviews \<Rightarrow> bool" where
  "spec_hook req cur now v r v' \<longleftrightarrow>
     (case spec_check req cur now v of
        (None, w) \<Rightarrow> r = Allowed \<and> v' = w
      | (Some e, w) \<Rightarrow> r = Returned e \<and> v' = w)"

definition spec_call :: "policy_call \<Rightarrow> int \<Rightarrow> pviews \<Rightarrow> call_result \<Rightarrow> pviews \<Rightarrow> bool" where
  "spec_call c now v r v' \<longleftrightarrow> (case c of
       EnablePolicy pd sz pw \<Rightarrow> \<exists>e. r = Returned e \<and> spec_enable pd sz pw v e v'
     | DisablePolicy pd pw \<Rightarrow> (r, v') = apfst Returned (spec_disable pd pw v)
     | SetCapabilities pd lvl pw \<Rightarrow> (r, v') = apfst Returned (spec_set_capabilities pd lvl pw v)
     | GetLog left pd sz \<Rightarrow> \<exists>e out. r = Records e (map Some out) \<and> spec_get_log (left = 0) pd sz v e out v'
     | Fork cur child \<Rightarrow>
         (case spec_check 2 cur now v of
            (None, w) \<Rightarrow> r = Allowed \<and> v' = w(child \<mapsto> None)
          | (Some e, w) \<Rightarrow> r = Returned e \<and> v' = w)
     | Wait4 cur \<Rightarrow> spec_hook 1 cur now v r v'
     | SchedYield cur \<Rightarrow> spec_hook 1 cur now v r v'
     | Release p \<Rightarrow> r = Returned 0 \<and> v' = v(p := None))"

text \<open>
  When a call may be made: an array size whose byte count does not wrap, a caller that exists
  and whose log has room for a refusal (the assumption the comments in the hooks state), an
  unused process id for a child, and no read of zero records from a full log.
\<close>

definition room :: "int \<Rightarrow> int \<Rightarrow> pviews \<Rightarrow> bool" where
  "room req cur v \<longleftrightarrow> (case v cur of None \<Rightarrow> False | Some None \<Rightarrow> True
     | Some (Some pv) \<Rightarrow> pv_level pv < req \<longrightarrow> int (length (pv_log pv)) < pv_capacity pv)"

definition admissible :: "policy_call \<Rightarrow> pviews \<Rightarrow> bool" where
  "admissible c v = (case c of
       EnablePolicy pd sz pw \<Rightarrow> sz * 12 < 4294967296
     | DisablePolicy pd pw \<Rightarrow> True
     | SetCapabilities pd lvl pw \<Rightarrow> True
     | GetLog left pd sz \<Rightarrow>
         (case v pd of Some (Some pv) \<Rightarrow> sz = 0 \<longrightarrow> int (length (pv_log pv)) < pv_capacity pv \<or> pv_capacity pv = 0
                     | _ \<Rightarrow> True)
     | Fork cur child \<Rightarrow> room 2 cur v \<and> v child = None
     | Wait4 cur \<Rightarrow> room 1 cur v
     | SchedYield cur \<Rightarrow> room 1 cur v
     | Release p \<Rightarrow> v p \<noteq> None)"

inductive reachable ::
  "'m kmalloc_fn \<Rightarrow> 'm kfree_fn \<Rightarrow> ('m, 'z) kernel_scheme \<Rightarrow> ('m, 'z) kernel_scheme \<Rightarrow> bool"
  for kmalloc :: "'m kmalloc_fn" and kfree :: "'m kfree_fn" and s0 :: "('m, 'z) kernel_scheme" where
  start: "reachable kmalloc kfree s0 s0"
| call: "reachable kmalloc kfree s0 s \<Longrightarrow> admissible c (view s) \<Longrightarrow>
    exec_call kmalloc kfree c s = Inr (r, s') \<Longrightarrow> reachable kmalloc kfree s0 s'"
| tick: "reachable kmalloc kfree s0 s \<Longrightarrow> reachable kmalloc kfree s0 (s\<lparr>jiffies := j\<rparr>)"

inductive_cases reachable_cases: "reachable kmalloc kfree s0 s"

subsection \<open>No log is ever overrun\<close>

definition all_exact :: "pviews \<Rightarrow> bool" where
  "all_exact v \<longleftrightarrow> (\<forall>p pv. v p = Some (Some pv) \<longrightarrow> pv_exact pv)"

lemma all_exactD: "all_exact v \<Longrightarrow> v p = Some (Some pv) \<Longrightarrow> pv_exact pv"
  by (auto simp: all_exact_def)

lemma spec_check_exact: "all_exact v \<Longrightarrow> all_exact (snd (spec_check req cur now v))"
  by (simp add: spec_check_def all_exact_def split: option.split)

lemma spec_call_exact:
  assumes "spec_call c now v r v'" and v: "all_exact v"
  shows "all_exact v'"
proof (cases c)
  case (GetLog left pd sz)
  then obtain e out where g: "spec_get_log (left = 0) pd sz v e out v'" using assms(1) by (auto simp: spec_call_def)
  consider "v pd = None" | "v pd = Some None" | pv where "v pd = Some (Some pv)" by (cases "v pd") auto
  then show ?thesis
    using g v by cases (auto simp: spec_get_log_def all_exact_def split: if_splits)
next
  case (Fork cur child)
  with assms spec_check_exact [OF v, of 2 cur now] show ?thesis
    by (auto simp: spec_call_def all_exact_def split: prod.splits option.splits)
next
  case (Wait4 cur)
  with assms spec_check_exact [OF v, of 1 cur now] show ?thesis
    by (auto simp: spec_call_def spec_hook_def split: prod.splits option.splits)
next
  case (SchedYield cur)
  with assms spec_check_exact [OF v, of 1 cur now] show ?thesis
    by (auto simp: spec_call_def spec_hook_def split: prod.splits option.splits)
qed (use assms in \<open>auto simp: spec_call_def spec_enable_def spec_disable_def spec_set_capabilities_def
      all_exact_def split: if_splits option.splits\<close>)

subsection \<open>Every reachable state has the invariant, every admissible call its promise\<close>

lemma room_task:
  assumes "room req cur (view s)"
  obtains t where "tasks s cur = Some t"
  using assms by (auto simp: room_def view_def split: option.splits)

lemma roomD: "room req cur v \<Longrightarrow> v cur = Some (Some pv) \<Longrightarrow> pv_level pv < req \<Longrightarrow>
    int (length (pv_log pv)) < pv_capacity pv"
  by (simp add: room_def)

context allocator
begin

lemma hook_correct:
  assumes "kernel_ok live mem_inv s" and room: "room req cur (view s)"
  shows "\<exists>r s'. hook_result (policy_check req cur s) = Inr (r, s') \<and> kernel_ok live mem_inv s' \<and>
    spec_hook req cur (s32 (jiffies s)) (view s) r (view s')"
proof -
  obtain t where t: "tasks s cur = Some t" using room by (rule room_task)
  obtain s' where s': "policy_check req cur s = Inr (fst (spec_check req cur (s32 (jiffies s)) (view s)), s')"
    "kernel_ok live mem_inv s'" "view s' = snd (spec_check req cur (s32 (jiffies s)) (view s))"
    using check_correct [OF assms(1) t] roomD [OF room] by blast
  then show ?thesis
    by (cases "spec_check req cur (s32 (jiffies s)) (view s)")
      (auto simp: hook_result_def spec_hook_def split: option.split)
qed

lemma fork_correct:
  assumes ok: "kernel_ok live mem_inv s" and room: "room 2 cur (view s)" and new: "view s child = None"
  shows "\<exists>r s'. fork_child cur child s = Inr (r, s') \<and> kernel_ok live mem_inv s' \<and>
    spec_call (Fork cur child) (s32 (jiffies s)) (view s) r (view s')"
proof -
  obtain t where t: "tasks s cur = Some t" using room by (rule room_task)
  let ?c = "spec_check 2 cur (s32 (jiffies s)) (view s)"
  obtain s1 where s1: "policy_check 2 cur s = Inr (fst ?c, s1)" "kernel_ok live mem_inv s1" "view s1 = snd ?c"
    using check_correct [OF ok t] roomD [OF room] by blast
  show ?thesis
  proof (cases "fst ?c")
    case (Some e)
    with s1 show ?thesis
      by (cases ?c) (auto simp: fork_child_def do_fork_check_def spec_call_def)
  next
    case None
    then have snd: "snd ?c = view s" by (auto simp: spec_check_def split: option.splits if_splits)
    then have views: "view s1 cur \<noteq> None" "view s1 child = None"
      using s1(3) room new by (auto simp: room_def split: option.splits)
    obtain t1 where t1: "tasks s1 cur = Some t1" using views by (auto simp: view_def)
    let ?t = "fork_task t1\<lparr>pid := child\<rparr>" and ?s = "set_task child (fork_task t1\<lparr>pid := child\<rparr>) s1"
    have c: "tasks s1 child = None" using views by (simp add: view_def)
    have off: "policy_on ?t = 0" "policy_level ?t = 2" by (simp_all add: fork_task_def Let_def)
    have "policy_inv ?s"
      by (rule policy_inv_local [of s1 child])
        (use s1 c off in \<open>auto simp: kernel_ok_def log_objs_simps task_ok_def\<close>)
    moreover have "view ?s = (view s1)(child := map_option (view_task ?s) (tasks ?s child))"
      using s1 by (intro view_local) (auto simp: kernel_ok_def)
    ultimately show ?thesis
      using None s1 snd t1 off
      by (cases ?c) (auto simp: fork_child_def do_fork_check_def spec_call_def kernel_ok_def task_by_pid_def)
  qed
qed

lemma release_correct:
  assumes ok: "kernel_ok live mem_inv s" and "view s p \<noteq> None"
  shows "\<exists>s'. release_process kfree p s = Inr (Returned 0, s') \<and> kernel_ok live mem_inv s' \<and>
    view s' = (view s)(p := None)"
proof -
  obtain t where t: "tasks s p = Some t" using assms(2) by (auto simp: view_def)
  from release_log_correct [OF ok t] show ?thesis
    using t by (auto simp: release_process_def task_by_pid_def)
qed

lemma exec_correct:
  assumes ok: "kernel_ok live mem_inv s" and ex: "all_exact (view s)" and ad: "admissible c (view s)"
  shows "\<exists>r s'. exec_call kmalloc kfree c s = Inr (r, s') \<and> kernel_ok live mem_inv s' \<and>
    spec_call c (s32 (jiffies s)) (view s) r (view s')"
proof (cases c)
  case (EnablePolicy pd sz pw)
  with enable_correct [OF ok, of sz pd pw] ad show ?thesis
    by (auto simp: exec_call_def admissible_def spec_call_def)
next
  case (DisablePolicy pd pw)
  with disable_correct [OF ok, of pd pw] show ?thesis
    by (auto simp: exec_call_def spec_call_def apfst_def map_prod_def split: prod.split)
next
  case (SetCapabilities pd lvl pw)
  with capabilities_correct [OF ok, of pd lvl pw] show ?thesis
    by (auto simp: exec_call_def spec_call_def apfst_def map_prod_def split: prod.split)
next
  case (GetLog left pd sz)
  have "\<exists>r out s'. sys_get_process_log kmalloc kfree left pd sz s = Inr (r, map Some out, s') \<and>
    kernel_ok live mem_inv s' \<and> spec_get_log (left = 0) pd sz (view s) r out (view s')"
    by (rule get_correct [OF ok]) (use GetLog ad ex in \<open>auto simp: admissible_def dest: all_exactD\<close>)
  with GetLog show ?thesis by (fastforce simp: exec_call_def spec_call_def)
next
  case (Fork cur child)
  with fork_correct [OF ok, of cur child] ad show ?thesis by (auto simp: exec_call_def admissible_def)
next
  case (Wait4 cur)
  with hook_correct [OF ok, of 1 cur] ad show ?thesis
    by (auto simp: exec_call_def admissible_def sys_wait4_check_def spec_call_def)
next
  case (SchedYield cur)
  with hook_correct [OF ok, of 1 cur] ad show ?thesis
    by (auto simp: exec_call_def admissible_def sys_sched_yield_check_def spec_call_def)
next
  case (Release p)
  with release_correct [OF ok, of p] ad show ?thesis
    by (auto simp: exec_call_def admissible_def spec_call_def)
qed

lemma reachable_inv:
  assumes "reachable kmalloc kfree s0 s" and "kernel_ok live mem_inv s0" "all_exact (view s0)"
  shows "kernel_ok live mem_inv s \<and> all_exact (view s)"
  using assms(1)
proof induction
  case (call s c r s')
  then obtain r' s'' where "exec_call kmalloc kfree c s = Inr (r', s'')" "kernel_ok live mem_inv s''"
    "spec_call c (s32 (jiffies s)) (view s) r' (view s'')"
    using exec_correct by blast
  with call show ?case using spec_call_exact by auto
next
  case (tick s j)
  then show ?case
    using policy_inv_same [of "s\<lparr>jiffies := j\<rparr>" s] by (simp add: kernel_ok_def mem_ok_def)
qed (use assms in simp)

lemma reachable_progress:
  assumes "reachable kmalloc kfree s0 s" "kernel_ok live mem_inv s0" "all_exact (view s0)"
    and "admissible c (view s)"
  shows "\<exists>r s'. exec_call kmalloc kfree c s = Inr (r, s') \<and> reachable kmalloc kfree s0 s' \<and>
    spec_call c (s32 (jiffies s)) (view s) r (view s')"
proof -
  have "kernel_ok live mem_inv s" "all_exact (view s)" using reachable_inv [OF assms(1-3)] by auto
  from exec_correct [OF this assms(4)] show ?thesis
    using reachable.call [OF assms(1,4)] by blast
qed

end

end
