(* ===== verification/Fork.thy ===== *)
theory Fork
  imports Process_Pid Scheduler_Ops Policy_Runs
begin

text \<open>
  \<^verbatim>\<open>do_fork\<close> (kernel/fork.c) as a whole, on the state that the policy, the scheduler and the table of
  processes make together. A task structure is named by its process id; the user that is charged for
  a process is named by its user id. Whether \<^verbatim>\<open>alloc_task_struct\<close> succeeds, the capabilities of
  the caller and the first error of the calls that copy files, file system, signal handlers,
  memory, namespace and registers are arguments.
\<close>

subsection \<open>State\<close>

record 'm psys = "'m sched" +
  ptab :: ptable
  uprocesses :: "int \<Rightarrow> int"
  max_threads :: int
  total_forks :: int

abbreviation (input) CLONE_FS :: int where "CLONE_FS \<equiv> 0x200"
abbreviation (input) CLONE_PTRACE :: int where "CLONE_PTRACE \<equiv> 0x2000"
abbreviation (input) CLONE_VFORK :: int where "CLONE_VFORK \<equiv> 0x4000"
abbreviation (input) CLONE_NEWNS :: int where "CLONE_NEWNS \<equiv> 0x20000"
abbreviation (input) CSIGNAL :: int where "CSIGNAL \<equiv> 0xff"
abbreviation (input) PF_FORKNOEXEC :: int where "PF_FORKNOEXEC \<equiv> 0x40"
abbreviation (input) PF_SUPERPRIV :: int where "PF_SUPERPRIV \<equiv> 0x100"
abbreviation (input) PF_USEDFPU :: int where "PF_USEDFPU \<equiv> 0x100000"

subsection \<open>Parts of \<^verbatim>\<open>do_fork\<close>\<close>

definition copy_flags :: "int \<Rightarrow> proc \<Rightarrow> proc" where
  "copy_flags clone_flags p =
     (let new_flags = or (and (pr_flags p) (not (or PF_SUPERPRIV PF_USEDFPU))) PF_FORKNOEXEC;
          p1 = (if and clone_flags CLONE_PTRACE = 0 then p\<lparr>pr_ptrace := 0\<rparr> else p)
      in p1\<lparr>pr_flags := new_flags\<rparr>)"

text \<open>The links and ids of the new task, copied from the current one.\<close>

definition fork_proc :: "int \<Rightarrow> int \<Rightarrow> proc \<Rightarrow> proc" where
  "fork_proc clone_flags pd current =
     (copy_flags clone_flags current)\<lparr>pr_pid := pd, p_cptr := None,
        parent_exec_id := self_exec_id current, pr_exit_signal := and clone_flags CSIGNAL\<rparr>"

definition fork_uncount :: "int \<Rightarrow> ('m, 'z) psys_scheme \<Rightarrow> ('m, 'z) psys_scheme" where
  "fork_uncount u s = s\<lparr>uprocesses := (uprocesses s)(u := uprocesses s u - 1)\<rparr>"

text \<open>The slice of the current task is shared with the new one.\<close>

definition fork_slices :: "int \<Rightarrow> task \<Rightarrow> ('m, 'z) sched_scheme \<Rightarrow> (task \<times> ('m, 'z) sched_scheme) kres" where
  "fork_slices cur p s =
     kbind (load_task cur s) (\<lambda>c.
       if time_slice c = 0 then Inl BUG
       else let p1 = p\<lparr>time_slice := u32 (time_slice c + 1) div 2, first_time_slice := 1\<rparr>;
                c1 = c\<lparr>time_slice := time_slice c div 2\<rparr>;
                p2 = p1\<lparr>sleep_timestamp := jiffies s\<rparr>
            in if time_slice c1 = 0
               then kbind (scheduler_tick False 0 0 (put_task cur (c1\<lparr>time_slice := 1\<rparr>) s)) (\<lambda>s1. Inr (p2, s1))
               else Inr (p2, put_task cur c1 s))"

text \<open>
  The new task becomes visible and runnable. The \<^verbatim>\<open>SIGSTOP\<close> to a child that is born traced
  (\<^verbatim>\<open>CLONE_PTRACE\<close>) is left out, and after \<^verbatim>\<open>CLONE_VFORK\<close> the result is the state in which the
  parent starts to wait for the child.
\<close>

definition fork_publish :: "int \<Rightarrow> int \<Rightarrow> int \<Rightarrow> task \<Rightarrow> ('m, 'z) psys_scheme \<Rightarrow> ('m, 'z) psys_scheme kres" where
  "fork_publish clone_flags cur pd p s =
     (let s1 = s\<lparr>ptab := link_child clone_flags cur pd
                   (upd pd (\<lambda>_. fork_proc clone_flags pd (procs (ptab s) cur)) (ptab s))\<rparr>;
          s2 = set_task pd p s1
      in kbind (wake_up_forked_process cur pd s2) (\<lambda>s3.
           let s4 = s3\<lparr>total_forks := total_forks s3 + 1\<rparr>
           in if and clone_flags CLONE_VFORK \<noteq> 0 then Inr s4
              else kbind (load_task cur s4) (\<lambda>c. Inr (put_task cur (c\<lparr>need_resched := 1\<rparr>) s4))))"

text \<open>
  From the id on, once the task is counted for its user \<open>u\<close>. \<open>copy_err\<close> is the first error of the
  copying calls. A search for an id that does not end is a fault.
\<close>

definition fork_counted ::
  "int option \<Rightarrow> int \<Rightarrow> int \<Rightarrow> int \<Rightarrow> task \<Rightarrow> ('m, 'z) psys_scheme \<Rightarrow> (int \<times> ('m, 'z) psys_scheme) kres" where
  "fork_counted copy_err clone_flags cur u p s =
     (case get_pid clone_flags cur (ptab s) of
        None \<Rightarrow> Inl Fuel
      | Some (pd, pt) \<Rightarrow>
          let s1 = s\<lparr>ptab := pt\<rparr>;
              p1 = p\<lparr>state := TASK_UNINTERRUPTIBLE, pid := pd, sigpending := 0, run_array := None\<rparr>
          in if pd = 0 \<and> pr_pid (procs (ptab s1) cur) \<noteq> 0 then Inr (- EAGAIN, fork_uncount u s1)
             else (case copy_err of
                Some e \<Rightarrow> Inr (e, fork_uncount u s1)
              | None \<Rightarrow>
                  kbind (fork_slices cur p1 s1) (\<lambda>(p2, s2).
                  kbind (fork_publish clone_flags cur pd p2 s2) (\<lambda>s3. Inr (pd, s3)))))"

definition do_fork ::
  "bool \<Rightarrow> bool \<Rightarrow> int \<Rightarrow> int option \<Rightarrow> int \<Rightarrow> ('m, 'z) psys_scheme \<Rightarrow> (int \<times> ('m, 'z) psys_scheme) kres" where
  "do_fork capable alloc_ok nproc copy_err clone_flags s =
     (let cur = curr (rq s)
      in kbind (do_fork_check cur s) (\<lambda>(refused, s1). case refused of
           Some e \<Rightarrow> Inr (e, s1)
         | None \<Rightarrow>
             if and clone_flags (or CLONE_NEWNS CLONE_FS) = or CLONE_NEWNS CLONE_FS then Inr (- EINVAL, s1)
             else if and clone_flags CLONE_PID \<noteq> 0 \<and> pr_pid (procs (ptab s1) cur) \<noteq> 0 then Inr (- EPERM, s1)
             else if \<not> alloc_ok then Inr (- ENOMEM, s1)
             else kbind (load_task cur s1) (\<lambda>c.
               let p = fork_task c; u = uid p
               in if uprocesses s1 u \<ge> nproc \<and> \<not> capable then Inr (- EAGAIN, s1)
                  else let s2 = s1\<lparr>uprocesses := (uprocesses s1)(u := uprocesses s1 u + 1)\<rparr>
                       in if nr_threads (ptab s2) \<ge> max_threads s2 then Inr (- EAGAIN, fork_uncount u s2)
                          else fork_counted copy_err clone_flags cur u p s2)))"

end
