(* ===== verification/Fork_Inv.thy ===== *)
theory Fork_Inv
  imports Fork
begin

text \<open>
  What \<^verbatim>\<open>do_fork\<close> keeps and what it does: an error leaves the processes as they were, and a success
  adds one runnable process with a free id and no policy.
\<close>

subsection \<open>What the scheduler leaves alone\<close>

text \<open>The fields of a task that no operation of the scheduler writes.\<close>

definition pol :: "task \<Rightarrow> int \<times> int \<times> ptr \<times> int \<times> int \<times> int" where
  "pol t = (policy_on t, policy_level t, logArray t, pid t, uid t, euid t)"

definition policy_frame :: "('m, 'z) kernel_scheme \<Rightarrow> ('m, 'z) kernel_scheme \<Rightarrow> bool" where
  "policy_frame s s' \<longleftrightarrow> kobjs s' = kobjs s \<and> kmem s' = kmem s \<and> (\<forall>q. map_option pol (tasks s' q) = map_option pol (tasks s q))"

definition sched_frame :: "('m, 'z) sched_scheme \<Rightarrow> ('m, 'z) sched_scheme \<Rightarrow> bool" where
  "sched_frame s s' \<longleftrightarrow> sched.more s' = sched.more s \<and> kobjs s' = kobjs s \<and> kmem s' = kmem s \<and> jiffies s' = jiffies s \<and>
     (\<forall>q. map_option pol (tasks s' q) = map_option pol (tasks s q))"

lemma sched_policy_frame: "sched_frame s s' \<Longrightarrow> policy_frame s s'"
  by (simp add: sched_frame_def policy_frame_def)

lemma policy_frame_trans: "policy_frame s1 s2 \<Longrightarrow> policy_frame s2 s3 \<Longrightarrow> policy_frame s1 s3"
  by (simp add: policy_frame_def)

lemma policy_frame_set: "policy_frame s s' \<Longrightarrow> pol t' = pol t \<Longrightarrow> policy_frame (set_task p t s) (set_task p t' s')"
  by (simp add: policy_frame_def)

lemma sched_frame_refl [simp]: "sched_frame s s"
  by (simp add: sched_frame_def)

lemma sched_frame_trans: "sched_frame s s1 \<Longrightarrow> sched_frame s1 s2 \<Longrightarrow> sched_frame s s2"
  by (simp add: sched_frame_def)

lemma sched_frame_put: "sched_task s p = Some t \<Longrightarrow> pol t' = pol t \<Longrightarrow> sched_frame s ((put_task p t' s)\<lparr>rq := r\<rparr>)"
  by (cases "p = 0") (auto simp: sched_frame_def put_task_def sched_task_def)

lemma sched_frame_put' : "sched_task s p = Some t \<Longrightarrow> pol t' = pol t \<Longrightarrow> sched_frame s (put_task p t' s)"
  by (cases "p = 0") (auto simp: sched_frame_def put_task_def sched_task_def)

lemma sched_frame_more:
  "sched_frame s s' \<Longrightarrow> ptab s' = ptab s \<and> uprocesses s' = uprocesses s \<and> max_threads s' = max_threads s \<and> total_forks s' = total_forks s"
  by (cases s; cases s') (simp add: sched_frame_def)

lemma sched_frame_dom: "sched_frame s s' \<Longrightarrow> dom (tasks s') = dom (tasks s)"
  unfolding sched_frame_def by (auto simp: dom_def) (metis option.map_disc_iff option.distinct(1) not_None_eq)+

lemma sched_frame_kstat:
  "sched_frame s (s\<lparr>kstat_user := a\<rparr>)" "sched_frame s (s\<lparr>kstat_nice := a\<rparr>)" "sched_frame s (s\<lparr>kstat_system := a\<rparr>)"
  by (simp_all add: sched_frame_def)

lemma tick_rt_frame: "tick_rt p t s = Inr s' \<Longrightarrow> sched_task s p = Some t \<Longrightarrow> sched_frame s s'"
  by (auto simp: tick_rt_def enqueue_task_def Let_def pol_def intro!: sched_frame_put sched_frame_put' split: if_splits)

lemma tick_other_frame: "tick_other p t s = Inr s' \<Longrightarrow> sched_task s p = Some t \<Longrightarrow> sched_frame s s'"
  by (auto simp: tick_other_def enqueue_task_def Let_def pol_def intro!: sched_frame_put sched_frame_put' split: if_splits)

lemma scheduler_tick_frame:
  assumes "scheduler_tick nested u sys s = Inr s'"
  shows "sched_frame s s'"
proof (cases "curr (rq s) = 0")
  case True
  then show ?thesis using assms by (auto simp: scheduler_tick_def sched_frame_kstat)
next
  case False
  let ?p = "curr (rq s)"
  obtain t where t: "sched_task s ?p = Some t" using assms False by (cases "sched_task s ?p") (auto simp: scheduler_tick_def load_task_def Let_def)
  define s1 where "s1 = (if TASK_NICE t > 0 then s\<lparr>kstat_nice := kstat_nice s + u\<rparr> else s\<lparr>kstat_user := kstat_user s + u\<rparr>)"
  define s2 where "s2 = s1\<lparr>kstat_system := kstat_system s1 + sys\<rparr>"
  have s2: "sched_task s2 = sched_task s" "rq s2 = rq s" "sched_frame s s2"
    using sched_frame_trans [of s s1 s2] by (auto simp: s2_def s1_def sched_frame_kstat)
  have "(if run_array t \<noteq> Some (active (rq s2)) then Inr (put_task ?p (t\<lparr>need_resched := 1\<rparr>) s2)
     else if rt_task t then tick_rt ?p t s2 else tick_other ?p t s2) = Inr s'"
    using assms False t unfolding scheduler_tick_def Let_def s2_def s1_def by simp
  moreover have "sched_task s2 ?p = Some t" using t s2(1) by simp
  ultimately have "sched_frame s2 s'"
    using tick_rt_frame [of ?p t s2 s'] tick_other_frame [of ?p t s2 s'] sched_frame_put' [of s2 ?p t "t\<lparr>need_resched := 1\<rparr>"]
    by (auto simp: pol_def split: if_splits)
  then show ?thesis using s2(3) sched_frame_trans by blast
qed

lemma activate_frame:
  assumes "activate_task p t s = Inr (t1, s')" "sched_task s p = Some t0" "pol t = pol t0"
  shows "sched_frame s s'" "pol t1 = pol t"
  using assms by (auto simp: activate_task_def enqueue_task_def Let_def pol_def intro!: sched_frame_put split: if_splits)

lemma wake_up_forked_frame:
  assumes "wake_up_forked_process cur p s = Inr s'" "sched_task s p = Some t" "sched_task s cur = Some c" "cur \<noteq> p"
  shows "sched_frame s s'"
proof (cases "rt_task (t\<lparr>state := 0\<rparr>)")
  case True
  then obtain t1 where "activate_task p (t\<lparr>state := 0\<rparr>) s = Inr (t1, s')"
    using assms by (auto simp: wake_up_forked_process_def Let_def)
  then show ?thesis by (rule activate_frame [OF _ assms(2)]) (simp add: pol_def)
next
  case False
  define s1 where "s1 = put_task cur (c\<lparr>sleep_avg := u32 (sleep_avg c * 100) div 100\<rparr>) s"
  have s1: "sched_frame s s1" unfolding s1_def by (rule sched_frame_put' [OF assms(3)]) (simp add: pol_def)
  obtain t1 t2 where a: "activate_task p t2 s1 = Inr (t1, s')" "pol t2 = pol t"
    using assms False by (auto simp: wake_up_forked_process_def Let_def s1_def pol_def)
  have "sched_task s1 p = Some t" using assms by (simp add: s1_def)
  from activate_frame(1) [OF a(1) this a(2)] show ?thesis using s1 sched_frame_trans by blast
qed

text \<open>The policy sees none of it.\<close>

lemma policy_frame_view:
  assumes "policy_frame s s'"
  shows "view s' = view s" "kernel_ok live minv s' = kernel_ok live minv s"
proof -
  have k: "kobjs s' = kobjs s" "kmem s' = kmem s" and t: "map_option pol (tasks s' q) = map_option pol (tasks s q)" for q
    using assms by (auto simp: policy_frame_def)
  have kl: "kload_log q s' = kload_log q s" "kload_buf q s' = kload_buf q s" for q
    using k(1) by (cases q; simp add: kmem_defs)+
  have lo: "log_objs s' t' = log_objs s t" "view_task s' t' = view_task s t" "task_ok s' t' = task_ok s t" if "pol t' = pol t" for t t'
  proof -
    show "log_objs s' t' = log_objs s t" using that k(1) by (cases "logArray t") (simp_all add: pol_def log_objs_def)
    show "view_task s' t' = view_task s t"
      using that kl by (cases "kload_log (logArray t) s") (simp_all add: pol_def view_task_def)
    show "task_ok s' t' = task_ok s t" using that k(1) by (simp add: pol_def task_ok_def well_logged_def)
  qed
  have "view s' q = view s q" for q
    using t [of q] lo(2) by (cases "tasks s' q"; cases "tasks s q") (auto simp: view_def)
  then show "view s' = view s" by blast
  have at: "log_objs_at s' q = log_objs_at s q" for q
    using t [of q] lo(1) by (cases "tasks s' q"; cases "tasks s q") (auto simp: log_objs_at_def)
  have "(\<forall>t. tasks s' q = Some t \<longrightarrow> task_ok s' t) \<longleftrightarrow> (\<forall>t. tasks s q = Some t \<longrightarrow> task_ok s t)" for q
    using t [of q] lo(3) by (cases "tasks s' q"; cases "tasks s q") auto
  then show "kernel_ok live minv s' = kernel_ok live minv s" by (simp add: kernel_ok_def policy_inv_def mem_ok_def at k)
qed

subsection \<open>The scheduler's part\<close>

lemma core_new:
  assumes "core T r" "T p = None" "run_array t = None"
  shows "core (T(p \<mapsto> t)) r"
proof -
  have ok: "arrays_ok T r" using assms(1) by (simp add: core_def)
  have "arrays_ok (T(p \<mapsto> t)) r"
    using assms(2,3) by (intro arrays_ok_cong [OF ok]) (auto simp: queued_at_def fun_eq_iff)
  then show ?thesis using assms(1) by (simp add: core_def)
qed

lemma sched_ok_new:
  assumes "sched_ok T r" "T p = None" "run_array t = None" "task_sane t"
  shows "sched_ok (T(p \<mapsto> t)) r"
proof -
  have "p \<noteq> 0" "p \<noteq> curr r" using sched_okD(6,7) [OF assms(1)] assms(2) by auto
  then show ?thesis
    using assms core_new [OF sched_okD(1) [OF assms(1)] assms(2,3)] by (intro sched_ok_upd [OF assms(1)]) auto
qed

lemma fork_slices_correct:
  assumes inv: "sched_inv s" and cur: "cur = curr (rq s)" "cur \<noteq> 0" "sched_task s cur = Some c"
  obtains s' where "fork_slices cur p s = Inr (p\<lparr>time_slice := (time_slice c + 1) div 2, first_time_slice := 1, sleep_timestamp := jiffies s\<rparr>, s')"
    "sched_inv s'" "sched_frame s s'" "curr (rq s') = curr (rq s)"
proof -
  have sane: "task_sane c" by (rule sched_okD(5) [OF inv cur(3,2)])
  then have ts: "0 < time_slice c" "time_slice c \<le> 512" by (auto simp: task_sane_def)
  then have u: "u32 (time_slice c + 1) = time_slice c + 1" by (intro u32_id) auto
  have ra: "run_array c \<noteq> None" using sched_okD(7) [OF inv] cur by auto
  have put: "sched_inv (put_task cur (c\<lparr>time_slice := n\<rparr>) s)" if "0 < n" "n \<le> 512" for n
    using that sane ra core_field [OF sched_okD(1) [OF inv] cur(3), of "c\<lparr>time_slice := n\<rparr>"]
    by (simp, intro sched_ok_upd [OF inv cur(2)]) (auto simp: task_sane_def cur(1))
  have fr: "sched_frame s (put_task cur (c\<lparr>time_slice := n\<rparr>) s)" for n
    by (rule sched_frame_put' [OF cur(3)]) (simp add: pol_def)
  show thesis
  proof (cases "time_slice c div 2 = 0")
    case False
    then show thesis using ts u cur fr put [of "time_slice c div 2"]
      by (intro that [of "put_task cur (c\<lparr>time_slice := time_slice c div 2\<rparr>) s"]) (auto simp: fork_slices_def Let_def)
  next
    case True
    let ?s = "put_task cur (c\<lparr>time_slice := 1\<rparr>) s"
    obtain s' where s': "scheduler_tick False 0 0 ?s = Inr s'" "sched_inv s'" "curr (rq s') = curr (rq ?s)"
      using scheduler_tick_correct [OF put [of 1], of False 0 0] by auto
    then show thesis using ts u cur True sched_frame_trans [OF fr scheduler_tick_frame [OF s'(1)]]
      by (intro that [of s']) (auto simp: fork_slices_def Let_def)
  qed
qed

lemma wake_up_forked_correct:
  assumes inv: "sched_inv s" and p: "p \<noteq> 0" "sched_task s p = Some t" "run_array t = None"
    and cur: "cur = curr (rq s)" "cur \<noteq> 0" "sched_task s cur = Some c" "cur \<noteq> p"
  obtains s' t' where "wake_up_forked_process cur p s = Inr s'" "sched_inv s'" "sched_frame s s'" "curr (rq s') = curr (rq s)"
    "sched_task s' p = Some t'" "state t' = 0" "run_array t' \<noteq> None" "time_slice t' = time_slice t"
    "sched_task s' cur = Some c"
proof -
  have sc: "task_sane c" and st: "task_sane t" using sched_okD(5) [OF inv] cur p by blast+
  have "u32 (sleep_avg c * 100) = sleep_avg c * 100" using sc by (intro u32_id) (auto simp: task_sane_def)
  then have cc: "c\<lparr>sleep_avg := u32 (sleep_avg c * 100) div 100\<rparr> = c" by simp
  have sa: "u32 (sleep_avg t * 95) = sleep_avg t * 95" using st by (intro u32_id) (auto simp: task_sane_def)
  define t3 where "t3 = (if rt_task (t\<lparr>state := 0\<rparr>) then t\<lparr>state := 0\<rparr>
    else let t2 = t\<lparr>state := 0, sleep_avg := u32 (sleep_avg t * 95) div 100\<rparr> in t2\<lparr>prio := effective_prio t2\<rparr>)"
  define s2 where "s2 = (if rt_task (t\<lparr>state := 0\<rparr>) then s else put_task cur c s)"
  have T: "sched_task s2 = sched_task s" "rq s2 = rq s" using cur(3) by (auto simp: s2_def)
  have t3: "task_sane t3" "state t3 = 0" "time_slice t3 = time_slice t"
    using st by (auto simp: t3_def Let_def task_sane_def sa)
  have c2: "core (sched_task s2) (rq s2)" "sched_task s2 p = Some t" using T p sched_okD(1) [OF inv] by simp_all
  obtain t1 r' where a: "activate_task p t3 s2 = Inr (t1, (put_task p t1 s2)\<lparr>rq := r'\<rparr>)"
    "core ((sched_task s2)(p \<mapsto> t1)) r'" "task_sane t1" "state t1 = state t3" "run_array t1 = Some (active (rq s2))"
    "time_slice t1 = time_slice t3" "need_resched t1 = need_resched t3" "rt_task t3 \<longrightarrow> prio t1 = prio t3" "same_rest (rq s2) r'"
    by (rule activate_correct [OF c2 p(3) t3(1)])
  let ?s' = "(put_task p t1 s2)\<lparr>rq := r'\<rparr>"
  have e: "wake_up_forked_process cur p s = Inr ?s'"
    using p(2) cur(3) a(1) cc unfolding wake_up_forked_process_def Let_def s2_def t3_def by (auto split: if_splits)
  have "sched_ok ((sched_task s)(p \<mapsto> t1)) r'"
    using inv p(1) a(2-5,9) t3(2) cur by (intro sched_ok_upd [OF inv]) (auto simp: T same_rest_def)
  then have "sched_inv ?s'" by (simp add: T)
  then show thesis
    using e wake_up_forked_frame [OF e p(2) cur(3,4)] a t3 cur p T by (intro that [of ?s' t1]) (auto simp: same_rest_def)
qed

subsection \<open>The whole call\<close>

text \<open>The table of processes and the table of tasks agree.\<close>

definition procs_ok :: "('m, 'z) psys_scheme \<Rightarrow> int list \<Rightarrow> bool" where
  "procs_ok s ts \<longleftrightarrow> (\<exists>bk ch. ptable_ok (ptab s) ts bk ch) \<and> pid_inv (ptab s) ts \<and> set ts = dom (tasks s) \<and>
     (\<forall>a \<in> set ts. pr_pid (procs (ptab s) a) = a \<and> p_pptr (procs (ptab s) a) \<in> insert 0 (set ts))"

lemma procs_ok_frame: "sched_frame s s' \<Longrightarrow> procs_ok s' ts = procs_ok s ts"
  using sched_frame_more [of s s'] sched_frame_dom [of s s'] by (simp add: procs_ok_def)

text \<open>Linking a new process with a free id.\<close>

lemma link_new_process:
  assumes ok: "procs_ok s ts" and cur: "cur \<in> set ts" and pd: "pd \<noteq> 0" "pd \<notin> used (ptab s) ts" "last_pid (ptab s) = pd"
    and t: "tasks s' = (tasks s)(pd \<mapsto> t)"
    and s': "ptab s' = link_child fl cur pd (upd pd (\<lambda>_. fork_proc fl pd (procs (ptab s) cur)) (ptab s))"
  shows "procs_ok s' (ts @ [pd])" "find_task_by_pid (ptab s') pd = Some (Some pd)" "pd \<notin> set ts"
proof -
  obtain bk ch where pt: "ptable_ok (ptab s) ts bk ch" using ok by (auto simp: procs_ok_def)
  have pids: "pr_pid (procs (ptab s) a) = a" "p_pptr (procs (ptab s) a) \<in> insert 0 (set ts)" if "a \<in> set ts" for a
    using ok that unfolding procs_ok_def by blast+
  show new: "pd \<notin> set ts" using pids(1) pd(2) by (auto simp: used_def ids_def)
  define x where "x = fork_proc fl pd (procs (ptab s) cur)"
  define s1 where "s1 = upd pd (\<lambda>_. x) (ptab s)"
  have x: "p_cptr x = None" "pr_pid x = pd" "pr_pgrp x = pr_pgrp (procs (ptab s) cur)" "pr_session x = pr_session (procs (ptab s) cur)"
    by (simp_all add: x_def fork_proc_def copy_flags_def Let_def)
  have f: "procs s1 a = (if a = pd then x else procs (ptab s) a)" for a by (simp add: s1_def)
  have n: "pd \<notin> insert 0 (set ts)" using new pd(1) by simp
  have ok1: "ptable_ok s1 ts bk ch"
    unfolding s1_def by (rule ptable_ok_new [OF pt n _ x(1)]) (use pids(2) n in auto)
  have c: "cur \<noteq> pd" "p_pptr (procs s1 cur) \<noteq> pd" using cur new pids(2) [OF cur] n by (auto simp: f)
  have d: "\<forall>a \<in> set ts. pr_pid (procs s1 a) \<noteq> pr_pid (procs s1 pd)" using pids(1) new x(2) by (auto simp: f)
  obtain bk' ch' q where L: "ptable_ok (link_child fl cur pd s1) (ts @ [pd]) bk' ch'" "q = p_pptr (procs (child_parents fl cur pd s1) pd)"
    "ch' = ch(q := pd # ch q)" "\<forall>a. pr_pid (procs (link_child fl cur pd s1) a) = pr_pid (procs s1 a)"
    "\<forall>a. pr_pgrp (procs (link_child fl cur pd s1) a) = pr_pgrp (procs s1 a) \<and> pr_session (procs (link_child fl cur pd s1) a) = pr_session (procs s1 a) \<and>
      pr_tgid (procs (link_child fl cur pd s1) a) =
        (if a = pd then (if and fl CLONE_THREAD \<noteq> 0 then pr_tgid (procs s1 cur) else pr_pid (procs s1 pd)) else pr_tgid (procs s1 a)) \<and>
      (a \<noteq> pd \<longrightarrow> p_pptr (procs (link_child fl cur pd s1) a) = p_pptr (procs s1 a)) \<and>
      p_pptr (procs (link_child fl cur pd s1) pd) \<in> {cur, p_pptr (procs s1 cur)}"
    "last_pid (link_child fl cur pd s1) = last_pid s1" "next_safe (link_child fl cur pd s1) = next_safe s1"
    by (rule link_child_ok [OF ok1 n c d])
  have e: "ptab s' = link_child fl cur pd s1" using s' by (simp add: s1_def x_def)
  have "used (ptab s') (ts @ [pd]) \<subseteq> insert pd (used (ptab s) ts)"
    using cur new by (auto simp: e used_def ids_def L(4,5) f x split: if_splits)
  moreover have "pid_inv (ptab s) ts" using ok by (simp add: procs_ok_def)
  ultimately have "pid_inv (ptab s') (ts @ [pd])" using pd(3) L(6,7) by (fastforce simp: pid_inv_def e s1_def)
  moreover have "\<forall>a \<in> set (ts @ [pd]). pr_pid (procs (ptab s') a) = a \<and> p_pptr (procs (ptab s') a) \<in> insert 0 (set (ts @ [pd]))"
  proof
    fix a assume "a \<in> set (ts @ [pd])"
    then consider "a \<in> set ts" "a \<noteq> pd" | "a = pd" using new by auto
    then show "pr_pid (procs (ptab s') a) = a \<and> p_pptr (procs (ptab s') a) \<in> insert 0 (set (ts @ [pd]))"
    proof cases
      case 1
      have "p_pptr (procs (link_child fl cur pd s1) a) = p_pptr (procs s1 a)" using L(5) 1(2) by blast
      then show ?thesis using 1 pids [OF 1(1)] L(4) by (auto simp: e f)
    next
      case 2
      have "p_pptr (procs (link_child fl cur pd s1) pd) \<in> {cur, p_pptr (procs s1 cur)}" using L(5) by blast
      then show ?thesis using 2 pids(2) [OF cur] cur c(1) L(4) x(2) by (auto simp: e f)
    qed
  qed
  moreover have "set (ts @ [pd]) = dom (tasks s')" using ok by (auto simp: procs_ok_def t)
  moreover have "\<exists>bk ch. ptable_ok (ptab s') (ts @ [pd]) bk ch" unfolding e by (intro exI) (rule L(1))
  ultimately show "procs_ok s' (ts @ [pd])" unfolding procs_ok_def by (intro conjI)
  have "hash_ok (ptab s') (set (ts @ [pd])) bk'" "inj_on (\<lambda>a. pr_pid (procs (ptab s') a)) (set (ts @ [pd]))"
    using L(1) e by (simp_all add: ptable_ok_def)
  from find_task_by_pid_correct(1) [OF this, of pd] show "find_task_by_pid (ptab s') pd = Some (Some pd)"
    using L(4) x(2) by (simp add: e f)
qed

lemma ptable_ok_pids: "ptable_ok (s\<lparr>last_pid := a, next_safe := b\<rparr>) ts bk ch = ptable_ok s ts bk ch"
proof -
  let ?s = "s\<lparr>last_pid := a, next_safe := b\<rparr>"
  show ?thesis unfolding ptable_ok_def
    using task_ring_cong [of ?s s ts] hash_ok_cong [of ?s s "set ts" bk] family_ok_cong [of ?s s "set ts" ch] by simp
qed

text \<open>A free process id that the search can reach.\<close>

definition free_pid :: "ptable \<Rightarrow> int list \<Rightarrow> bool" where
  "free_pid s ts \<longleftrightarrow> (\<exists>f. 300 \<le> f \<and> f < PID_MAX \<and> f \<notin> used s ts \<and> f \<noteq> last_pid s)"

lemma get_pid_free:
  assumes ok: "procs_ok s ts" and fl: "and fl CLONE_PID = 0" and free: "free_pid (ptab s) ts"
  obtains pd pt where "get_pid fl cur (ptab s) = Some (pd, pt)" "0 < pd" "pd \<notin> used pt ts" "last_pid pt = pd"
    "procs pt = procs (ptab s)" "procs_ok (s\<lparr>ptab := pt\<rparr>) ts"
proof -
  obtain bk ch where pt: "ptable_ok (ptab s) ts bk ch" and inv: "pid_inv (ptab s) ts" using ok by (auto simp: procs_ok_def)
  then have ring: "task_ring (ptab s) ts" by (simp add: ptable_ok_def)
  obtain f where "300 \<le> f" "f < PID_MAX" "f \<notin> used (ptab s) ts" "f \<noteq> last_pid (ptab s)" using free unfolding free_pid_def by blast
  from get_pid_finds [OF ring inv fl this, of cur]
  obtain pd pt' where g: "get_pid fl cur (ptab s) = Some (pd, pt')" "pd \<noteq> 0" by blast
  note S = get_pid_sound [OF ring inv fl g(1)]
  obtain a b where pt': "pt' = (ptab s)\<lparr>last_pid := a, next_safe := b\<rparr>" using S(1) by blast
  have u: "used pt' ts = used (ptab s) ts" "procs pt' = procs (ptab s)" by (simp_all add: pt')
  have p: "0 < pd" "pd \<notin> used pt' ts" "last_pid pt' = pd" "pid_inv pt' ts" using S(2) [OF g(2)] u by blast+
  have "\<exists>bk ch. ptable_ok pt' ts bk ch" using pt unfolding pt' ptable_ok_pids by blast
  moreover have w: "ptab (s\<lparr>ptab := pt'\<rparr>) = pt'" "tasks (s\<lparr>ptab := pt'\<rparr>) = tasks s" by simp_all
  ultimately have "procs_ok (s\<lparr>ptab := pt'\<rparr>) ts" using ok p(4) unfolding procs_ok_def w u by blast
  then show thesis by (rule that [OF g(1) p(1-3) u(2)])
qed

text \<open>The new task is linked and runs.\<close>

lemma fork_publish_correct:
  assumes inv: "sched_inv s" and ok: "procs_ok s ts" and cur: "cur = curr (rq s)" "cur \<noteq> 0" "sched_task s cur = Some c"
    and pd: "0 < pd" "pd \<notin> used (ptab s) ts" "last_pid (ptab s) = pd"
    and p: "task_sane p" "run_array p = None"
  obtains s' t' where "fork_publish fl cur pd p s = Inr s'" "sched_inv s'" "procs_ok s' (ts @ [pd])" "pd \<notin> set ts"
    "find_task_by_pid (ptab s') pd = Some (Some pd)" "policy_frame (set_task pd p s) s'" "uprocesses s' = uprocesses s"
    "tasks s' pd = Some t'" "state t' = 0" "run_array t' \<noteq> None" "time_slice t' = time_slice p" "curr (rq s') = curr (rq s)"
proof -
  let ?pt = "link_child fl cur pd (upd pd (\<lambda>_. fork_proc fl pd (procs (ptab s) cur)) (ptab s))"
  define s2 where "s2 = set_task pd p (s\<lparr>ptab := ?pt\<rparr>)"
  have ct: "cur \<in> set ts" using ok cur by (auto simp: procs_ok_def sched_task_def)
  have f: "tasks s2 = (tasks s)(pd \<mapsto> p)" "ptab s2 = ?pt" "rq s2 = rq s" "uprocesses s2 = uprocesses s"
    by (simp_all add: s2_def set_task_def)
  have z: "pd \<noteq> 0" using pd(1) by simp
  note L = link_new_process [OF ok ct z pd(2,3) f(1,2)]
  have d: "set ts = dom (tasks s)" using ok by (simp add: procs_ok_def)
  have n: "sched_task s pd = None" "cur \<noteq> pd" using L(3) ct z unfolding d by (auto simp: sched_task_def)
  have T: "sched_task s2 = (sched_task s)(pd \<mapsto> p)" using z by (auto simp: s2_def set_task_def sched_task_def fun_eq_iff)
  have inv2: "sched_inv s2" unfolding T f(3) by (rule sched_ok_new [OF inv n(1) p(2,1)])
  have c2: "cur = curr (rq s2)" "sched_task s2 cur = Some c" "sched_task s2 pd = Some p" using cur n by (auto simp: T f)
  obtain s3 t' where W: "wake_up_forked_process cur pd s2 = Inr s3" "sched_inv s3" "sched_frame s2 s3" "curr (rq s3) = curr (rq s2)"
    "sched_task s3 pd = Some t'" "state t' = 0" "run_array t' \<noteq> None" "time_slice t' = time_slice p" "sched_task s3 cur = Some c"
    by (rule wake_up_forked_correct [OF inv2 z c2(3) p(2) c2(1) cur(2) c2(2) n(2)])
  define s4 where "s4 = s3\<lparr>total_forks := total_forks s3 + 1\<rparr>"
  define s' where "s' = (if and fl CLONE_VFORK \<noteq> 0 then s4 else put_task cur (c\<lparr>need_resched := 1\<rparr>) s4)"
  have f4: "sched_task s4 = sched_task s3" "rq s4 = rq s3" "tasks s4 = tasks s3" "ptab s4 = ptab s3" "uprocesses s4 = uprocesses s3"
    by (auto simp: s4_def sched_task_def fun_eq_iff)
  have f': "ptab s' = ptab s4" "uprocesses s' = uprocesses s4" using cur(2) by (simp_all add: s'_def put_task_def)
  have e: "fork_publish fl cur pd p s = Inr s'"
    using W(1,9) f4(1) by (auto simp: fork_publish_def Let_def s2_def [symmetric] s4_def [symmetric] s'_def load_task_def)
  have inv': "sched_inv s'" using W(2,9) f4 sched_ok_need_resched [OF W(2,9), of 1] by (auto simp: s'_def)
  have t': "tasks s' pd = Some t'" "curr (rq s') = curr (rq s)"
    using W(4,5) f(3) f4(2) n(2) z cur(2) by (auto simp: s'_def s4_def put_task_def sched_task_def)
  have F: "policy_frame s3 s'"
    using W(9) cur(2) by (auto simp: s'_def s4_def put_task_def sched_task_def policy_frame_def pol_def)
  have P: "policy_frame (set_task pd p s) s2" by (simp add: policy_frame_def s2_def)
  have m: "ptab s3 = ptab s2" "uprocesses s3 = uprocesses s2" using sched_frame_more [OF W(3)] by simp_all
  have "dom (tasks s') = dom (tasks s3)" using F by (auto simp: policy_frame_def dom_def) (metis option.map_disc_iff not_None_eq)+
  then have D: "dom (tasks s') = dom (tasks s2)" using sched_frame_dom [OF W(3)] by simp
  have "procs_ok s' (ts @ [pd])" using L(1) unfolding procs_ok_def D f' f4 m .
  then show thesis
    using that [OF e inv' _ L(3) _ policy_frame_trans [OF P policy_frame_trans [OF sched_policy_frame [OF W(3)] F]] _ t'(1) W(6-8) t'(2)]
      L(2) by (simp add: f' f4 m f)
qed

text \<open>
  What a successful \<^verbatim>\<open>do_fork\<close> gives, from the state in which the new task is counted: a new id,
  linked everywhere, a runnable task with half the slice, and nothing of it seen by the policy but a
  new process without one.
\<close>

definition forked :: "task \<Rightarrow> int list \<Rightarrow> ('m, 'z) psys_scheme \<Rightarrow> int \<Rightarrow> ('m, 'z) psys_scheme \<Rightarrow> bool" where
  "forked c ts s r s' \<longleftrightarrow> 0 < r \<and> r \<notin> set ts \<and> procs_ok s' (ts @ [r]) \<and> find_task_by_pid (ptab s') r = Some (Some r) \<and>
     curr (rq s') = curr (rq s) \<and> uprocesses s' = uprocesses s \<and>
     policy_frame (set_task r (fork_task c\<lparr>pid := r\<rparr>) s) s' \<and>
     (\<exists>t. tasks s' r = Some t \<and> state t = 0 \<and> run_array t \<noteq> None \<and> time_slice t = (time_slice c + 1) div 2)"

lemma fork_counted_done:
  assumes inv: "sched_inv s" and ok: "procs_ok s ts" and cur: "cur = curr (rq s)" "cur \<noteq> 0" "sched_task s cur = Some c"
    and fl: "and fl CLONE_PID = 0" and free: "free_pid (ptab s) ts"
  obtains r s' where "fork_counted None fl cur u (fork_task c) s = Inr (r, s')" "sched_inv s'" "forked c ts s r s'"
proof -
  obtain pd pt where g: "get_pid fl cur (ptab s) = Some (pd, pt)" "0 < pd" "pd \<notin> used pt ts" "last_pid pt = pd"
    "procs pt = procs (ptab s)" "procs_ok (s\<lparr>ptab := pt\<rparr>) ts"
    by (rule get_pid_free [OF ok fl free])
  define s1 where "s1 = s\<lparr>ptab := pt\<rparr>"
  define p1 where "p1 = fork_task c\<lparr>state := TASK_UNINTERRUPTIBLE, pid := pd, sigpending := 0, run_array := None\<rparr>"
  have f1: "ptab s1 = pt" "rq s1 = rq s" "sched_task s1 = sched_task s" "jiffies s1 = jiffies s" "uprocesses s1 = uprocesses s"
    by (auto simp: s1_def sched_task_def fun_eq_iff)
  have sane: "task_sane c" by (rule sched_okD(5) [OF inv cur(3,2)])
  have inv1: "sched_inv s1" and c1: "cur = curr (rq s1)" "sched_task s1 cur = Some c" using inv cur by (simp_all add: f1)
  define p2 where "p2 = p1\<lparr>time_slice := (time_slice c + 1) div 2, first_time_slice := 1, sleep_timestamp := jiffies s1\<rparr>"
  obtain s2 where S: "fork_slices cur p1 s1 = Inr (p2, s2)" "sched_inv s2" "sched_frame s1 s2" "curr (rq s2) = curr (rq s1)"
    unfolding p2_def by (rule fork_slices_correct [OF inv1 c1(1) cur(2) c1(2)])
  have p2: "task_sane p2" "run_array p2 = None" "pol p2 = pol (fork_task c\<lparr>pid := pd\<rparr>)" "time_slice p2 = (time_slice c + 1) div 2"
    using sane by (auto simp: p2_def p1_def fork_task_def Let_def task_sane_def pol_def)
  have m: "ptab s2 = pt" "uprocesses s2 = uprocesses s" using sched_frame_more [OF S(3)] by (simp_all add: f1)
  have ok2: "procs_ok s2 ts" using g(6) procs_ok_frame [OF S(3)] by (simp add: s1_def)
  obtain c2 where c2: "cur = curr (rq s2)" "sched_task s2 cur = Some c2" using sched_okD(7) [OF S(2)] S(4) c1(1) by auto
  obtain s3 t where P: "fork_publish fl cur pd p2 s2 = Inr s3" "sched_inv s3" "procs_ok s3 (ts @ [pd])" "pd \<notin> set ts"
    "find_task_by_pid (ptab s3) pd = Some (Some pd)" "policy_frame (set_task pd p2 s2) s3" "uprocesses s3 = uprocesses s2"
    "tasks s3 pd = Some t" "state t = 0" "run_array t \<noteq> None" "time_slice t = time_slice p2" "curr (rq s3) = curr (rq s2)"
    by (rule fork_publish_correct [OF S(2) ok2 c2(1) cur(2) c2(2) g(2) _ _ p2(1,2)]) (use g(3,4) m in simp_all)
  have "policy_frame (set_task pd (fork_task c\<lparr>pid := pd\<rparr>) s) (set_task pd p2 s2)"
    using policy_frame_set [OF sched_policy_frame [OF S(3)] p2(3)] by (simp add: policy_frame_def s1_def)
  from policy_frame_trans [OF this P(6)] have "forked c ts s pd s3"
    using P g(2) m S(4) p2(4) by (simp add: forked_def f1)
  moreover have "fork_counted None fl cur u (fork_task c) s = Inr (pd, s3)"
    using g(1,2) S(1) P(1) unfolding fork_counted_def by (simp add: Let_def s1_def [symmetric] p1_def [symmetric])
  ultimately show thesis using P(2) by (intro that)
qed

text \<open>A failure changes at most where the search for an id starts.\<close>

definition fork_failed :: "int list \<Rightarrow> ('m, 'z) psys_scheme \<Rightarrow> ('m, 'z) psys_scheme \<Rightarrow> bool" where
  "fork_failed ts s s' \<longleftrightarrow> procs_ok s' ts \<and> tasks s' = tasks s \<and> rq s' = rq s \<and> uprocesses s' = uprocesses s \<and>
     procs (ptab s') = procs (ptab s) \<and> total_forks s' = total_forks s"

lemma fork_counted_fails:
  assumes ok: "procs_ok s ts" and fl: "and fl CLONE_PID = 0" and free: "free_pid (ptab s) ts"
  obtains pt where "fork_counted (Some e) fl cur u p s = Inr (e, fork_uncount u (s\<lparr>ptab := pt\<rparr>))"
    "procs pt = procs (ptab s)" "procs_ok (s\<lparr>ptab := pt\<rparr>) ts"
proof -
  obtain pd pt where g: "get_pid fl cur (ptab s) = Some (pd, pt)" "0 < pd" "pd \<notin> used pt ts" "last_pid pt = pd"
    "procs pt = procs (ptab s)" "procs_ok (s\<lparr>ptab := pt\<rparr>) ts"
    by (rule get_pid_free [OF ok fl free])
  have "fork_counted (Some e) fl cur u p s = Inr (e, fork_uncount u (s\<lparr>ptab := pt\<rparr>))"
    using g(1,2) by (simp add: fork_counted_def Let_def)
  then show thesis by (rule that [OF _ g(5,6)])
qed

text \<open>When \<^verbatim>\<open>do_fork\<close> makes a process, once the policy lets it pass.\<close>

definition fork_allowed :: "bool \<Rightarrow> bool \<Rightarrow> int \<Rightarrow> int option \<Rightarrow> int \<Rightarrow> task \<Rightarrow> ('m, 'z) psys_scheme \<Rightarrow> bool" where
  "fork_allowed capable alloc_ok nproc copy_err fl c s \<longleftrightarrow>
     and fl (or CLONE_NEWNS CLONE_FS) \<noteq> or CLONE_NEWNS CLONE_FS \<and> and fl CLONE_PID = 0 \<and> alloc_ok \<and>
     (uprocesses s (uid c) < nproc \<or> capable) \<and> nr_threads (ptab s) < max_threads s \<and> copy_err = None"

definition count_user :: "int \<Rightarrow> ('m, 'z) psys_scheme \<Rightarrow> ('m, 'z) psys_scheme" where
  "count_user u s = s\<lparr>uprocesses := (uprocesses s)(u := uprocesses s u + 1)\<rparr>"

lemma count_user_simps [simp]:
  "tasks (count_user u s) = tasks s" "rq (count_user u s) = rq s" "ptab (count_user u s) = ptab s" "sched_task (count_user u s) = sched_task s"
  "total_forks (count_user u s) = total_forks s" "max_threads (count_user u s) = max_threads s"
  "procs_ok (count_user u s) ts = procs_ok s ts" "procs_ok ((count_user u s)\<lparr>ptab := pt\<rparr>) ts = procs_ok (s\<lparr>ptab := pt\<rparr>) ts"
  "kobjs (count_user u s) = kobjs s" "kmem (count_user u s) = kmem s"
  by (simp_all add: count_user_def sched_task_def fun_eq_iff procs_ok_def)

lemma fork_uncount_count [simp]: "fork_uncount u (count_user u s) = s" "fork_uncount u ((count_user u s)\<lparr>ptab := pt\<rparr>) = s\<lparr>ptab := pt\<rparr>"
  by (simp_all add: fork_uncount_def count_user_def)

lemma do_fork_run:
  assumes inv: "sched_inv s" and ok: "procs_ok s ts" and cur: "curr (rq s) \<noteq> 0" "sched_task s (curr (rq s)) = Some c"
    and free: "free_pid (ptab s) ts" and err: "\<And>e. copy_err = Some e \<Longrightarrow> e < 0"
    and pass: "do_fork_check (curr (rq s)) s = Inr (None, s)"
  obtains r s' where "do_fork capable alloc_ok nproc copy_err fl s = Inr (r, s')" "sched_inv s'"
    "if fork_allowed capable alloc_ok nproc copy_err fl c s then forked c ts (count_user (uid c) s) r s'
     else r < 0 \<and> kobjs s' = kobjs s \<and> kmem s' = kmem s \<and> fork_failed ts s s'"
proof -
  let ?cur = "curr (rq s)"
  have T: "tasks s ?cur = Some c" using cur by (simp add: sched_task_def)
  then have "?cur \<in> set ts" using ok by (auto simp: procs_ok_def)
  then have pid: "pr_pid (procs (ptab s) ?cur) \<noteq> 0" using ok cur(1) by (simp add: procs_ok_def)
  have u: "uid (fork_task c) = uid c" by (simp add: fork_task_def)
  have F: "fork_failed ts s s" "sched_inv s" using ok inv by (simp_all add: fork_failed_def)
  have E: "do_fork capable alloc_ok nproc copy_err fl s =
    (if and fl (or CLONE_NEWNS CLONE_FS) = or CLONE_NEWNS CLONE_FS then Inr (- EINVAL, s)
     else if and fl CLONE_PID \<noteq> 0 then Inr (- EPERM, s) else if \<not> alloc_ok then Inr (- ENOMEM, s)
     else if uprocesses s (uid c) \<ge> nproc \<and> \<not> capable then Inr (- EAGAIN, s)
     else if nr_threads (ptab s) \<ge> max_threads s then Inr (- EAGAIN, s)
     else fork_counted copy_err fl ?cur (uid c) (fork_task c) (count_user (uid c) s))"
    using pid cur pass unfolding do_fork_def
    by (simp add: Let_def load_task_def u count_user_def [symmetric])
  define pre where "pre \<longleftrightarrow> and fl (or CLONE_NEWNS CLONE_FS) \<noteq> or CLONE_NEWNS CLONE_FS \<and> and fl CLONE_PID = 0 \<and> alloc_ok \<and>
    (uprocesses s (uid c) < nproc \<or> capable) \<and> nr_threads (ptab s) < max_threads s"
  have A: "fork_allowed capable alloc_ok nproc copy_err fl c s \<longleftrightarrow> pre \<and> copy_err = None" unfolding fork_allowed_def pre_def by blast
  have E1: "do_fork capable alloc_ok nproc copy_err fl s = fork_counted copy_err fl ?cur (uid c) (fork_task c) (count_user (uid c) s)"
    if pre using that unfolding E pre_def by auto
  have E2: "\<exists>r < 0. do_fork capable alloc_ok nproc copy_err fl s = Inr (r, s)" if "\<not> pre" using that unfolding E pre_def by auto
  let ?s = "count_user (uid c) s"
  have C: "procs_ok ?s ts" "free_pid (ptab ?s) ts" "sched_inv ?s" "?cur = curr (rq ?s)" "sched_task ?s ?cur = Some c"
    using ok free inv cur by simp_all
  consider "\<not> pre" | e where pre "copy_err = Some e" | pre "copy_err = None" by blast
  then show thesis
  proof cases
    case 1
    then show thesis using E2 F A that by auto
  next
    case (2 e)
    then have fl: "and fl CLONE_PID = 0" by (simp add: pre_def)
    obtain pt where "fork_counted (Some e) fl ?cur (uid c) (fork_task c) (count_user (uid c) s) =
        Inr (e, fork_uncount (uid c) ((count_user (uid c) s)\<lparr>ptab := pt\<rparr>))"
      "procs pt = procs (ptab (count_user (uid c) s))" "procs_ok ((count_user (uid c) s)\<lparr>ptab := pt\<rparr>) ts"
      by (rule fork_counted_fails [where s = "count_user (uid c) s" and e = e and cur = ?cur and u = "uid c" and p = "fork_task c", OF C(1) fl C(2)])
    moreover from this have "fork_failed ts s (s\<lparr>ptab := pt\<rparr>)" by (simp add: fork_failed_def)
    moreover have "sched_task (s\<lparr>ptab := pt\<rparr>) = sched_task s" by (auto simp: sched_task_def fun_eq_iff)
    ultimately show thesis using E1 2 A F(2) err by (intro that [of e "s\<lparr>ptab := pt\<rparr>"]) simp_all
  next
    case 3
    then have fl: "and fl CLONE_PID = 0" by (simp add: pre_def)
    obtain r s' where "fork_counted None fl ?cur (uid c) (fork_task c) (count_user (uid c) s) = Inr (r, s')" "sched_inv s'"
      "forked c ts (count_user (uid c) s) r s'"
      by (rule fork_counted_done [where s = "count_user (uid c) s" and cur = ?cur and u = "uid c", OF C(3,1,4) cur(1) C(5) fl C(2)])
    then show thesis using E1 3 A by (intro that [of r s']) simp_all
  qed
qed

text \<open>The policy's part.\<close>

lemma kernel_ok_new:
  assumes ok: "kernel_ok live minv s" and new: "tasks s p = None" and t: "policy_on t = 0" "0 \<le> policy_level t" "policy_level t \<le> 2"
  shows "kernel_ok live minv (set_task p t s)" "view (set_task p t s) = (view s)(p \<mapsto> None)"
proof -
  let ?s = "set_task p t s"
  have "policy_inv ?s"
    by (rule policy_inv_local [of s p]) (use assms in \<open>auto simp: kernel_ok_def log_objs_simps task_ok_def\<close>)
  then show "kernel_ok live minv ?s" using ok by (simp add: kernel_ok_def)
  have "view ?s = (view s)(p := map_option (view_task ?s) (tasks ?s p))" using ok by (intro view_local) (auto simp: kernel_ok_def)
  then show "view ?s = (view s)(p \<mapsto> None)" using t by simp
qed

lemma forked_policy:
  assumes "forked c ts s r s'" "kernel_ok live minv s" "procs_ok s ts"
  shows "kernel_ok live minv s'" "view s' = (view s)(r \<mapsto> None)"
proof -
  let ?t = "fork_task c\<lparr>pid := r\<rparr>"
  have d: "set ts = dom (tasks s)" using assms(3) by (simp add: procs_ok_def)
  have "r \<notin> dom (tasks s)" using assms(1) unfolding forked_def d by blast
  then have n: "tasks s r = None" by auto
  have t: "policy_on ?t = 0" "0 \<le> policy_level ?t" "policy_level ?t \<le> 2" by (simp_all add: fork_task_def Let_def)
  have f: "policy_frame (set_task r ?t s) s'" using assms(1) by (simp add: forked_def)
  show "kernel_ok live minv s'" "view s' = (view s)(r \<mapsto> None)"
    using policy_frame_view [OF f] kernel_ok_new [OF assms(2) n t] by simp_all
qed

end
