(* ===== verification/Buddy.thy ===== *)
theory Buddy
  imports Kernel_Prelude
begin

text \<open>
  The zoned buddy allocator of mm/page_alloc.c for one memory zone: \<^verbatim>\<open>rmqueue\<close>, \<^verbatim>\<open>expand\<close>
  and \<^verbatim>\<open>__free_pages_ok\<close> with the per-order free lists, the buddy bit maps, the per-cpu
  list of single pages and the checks on \<^verbatim>\<open>struct page\<close>, and the counters of
  include/linux/mm_inline.h. A page is its index in \<^verbatim>\<open>zone_mem_map\<close>. The lemmas show that
  the lists hold disjoint aligned blocks, that a bit is the exclusive or of its two buddies,
  that two free buddies never stay apart, and that allocation and release move exactly the
  pages of the block.
\<close>

unbundle bit_operations_syntax

subsection \<open>Page descriptors and zones\<close>

record page =
  count :: int
  PG_lru :: bool
  PG_reserved :: bool
  PG_swap_cache :: bool
  PG_locked :: bool
  PG_active :: bool
  PG_inactive_dirty :: bool
  PG_inactive_clean :: bool
  PG_referenced :: bool
  PG_dirty :: bool
  buffers :: bool
  mapping :: bool
  pte_chain :: bool
  age :: int

text \<open>
  \<^verbatim>\<open>free_area[order]\<close> is the pair of \<open>free_list\<close> and \<open>bitmap\<close> at \<open>order\<close>. The three global
  page counters of mm/page_alloc.c stand beside the zone's own.
\<close>

record zone =
  cpu_nr_pages :: int
  cpu_max_nr_pages :: int
  cpu_head :: "nat list"
  free_pages :: int
  active_pages :: int
  inactive_dirty_pages :: int
  inactive_clean_pages :: int
  pages_min :: int
  pages_low :: int
  pages_high :: int
  active_list :: "nat list"
  inactive_dirty_list :: "nat list"
  inactive_clean_list :: "nat list"
  free_list :: "nat \<Rightarrow> nat list"
  bitmap :: "nat \<Rightarrow> nat \<Rightarrow> bool"
  zone_start_mapnr :: nat
  zsize :: nat
  max_mapnr :: nat
  mem_map :: "nat \<Rightarrow> page"
  nr_active_pages :: int
  nr_inactive_dirty_pages :: int
  nr_inactive_clean_pages :: int

abbreviation (input) MAX_ORDER :: nat where "MAX_ORDER \<equiv> 10"
abbreviation (input) PAGE_AGE_START :: int where "PAGE_AGE_START \<equiv> 5"

definition BAD_RANGE :: "zone \<Rightarrow> nat \<Rightarrow> bool" where
  "BAD_RANGE z i \<longleftrightarrow> zone_start_mapnr z + i \<ge> zone_start_mapnr z + zsize z"

definition VALID_PAGE :: "zone \<Rightarrow> nat \<Rightarrow> bool" where
  "VALID_PAGE z i \<longleftrightarrow> zone_start_mapnr z + i < max_mapnr z"

definition set_page :: "nat \<Rightarrow> page \<Rightarrow> zone \<Rightarrow> zone" where
  "set_page i pg z = z\<lparr>mem_map := (mem_map z)(i := pg)\<rparr>"

subsection \<open>The page lists and balancing targets (include/linux/mm_inline.h, mm/swap.c)\<close>

definition DEBUG_LRU_PAGE :: "nat \<Rightarrow> zone \<Rightarrow> zone kres" where
  "DEBUG_LRU_PAGE i z = (let p = mem_map z i in
     if PG_active p then Inl BUG
     else if PG_inactive_dirty p then Inl BUG
     else if PG_inactive_clean p then Inl BUG
     else Inr z)"

definition del_page_from_active_list :: "nat \<Rightarrow> zone \<Rightarrow> zone kres" where
  "del_page_from_active_list i z = DEBUG_LRU_PAGE i
     ((set_page i ((mem_map z i)\<lparr>PG_active := False\<rparr>) z)
      \<lparr>active_list := remove1 i (active_list z), nr_active_pages := nr_active_pages z - 1,
       active_pages := active_pages z - 1\<rparr>)"

definition del_page_from_inactive_dirty_list :: "nat \<Rightarrow> zone \<Rightarrow> zone kres" where
  "del_page_from_inactive_dirty_list i z = DEBUG_LRU_PAGE i
     ((set_page i ((mem_map z i)\<lparr>PG_inactive_dirty := False\<rparr>) z)
      \<lparr>inactive_dirty_list := remove1 i (inactive_dirty_list z),
       nr_inactive_dirty_pages := nr_inactive_dirty_pages z - 1,
       inactive_dirty_pages := inactive_dirty_pages z - 1\<rparr>)"

definition del_page_from_inactive_clean_list :: "nat \<Rightarrow> zone \<Rightarrow> zone kres" where
  "del_page_from_inactive_clean_list i z = DEBUG_LRU_PAGE i
     ((set_page i ((mem_map z i)\<lparr>PG_inactive_clean := False\<rparr>) z)
      \<lparr>inactive_clean_list := remove1 i (inactive_clean_list z),
       inactive_clean_pages := inactive_clean_pages z - 1,
       nr_inactive_clean_pages := nr_inactive_clean_pages z - 1\<rparr>)"

definition lru_cache_del :: "nat \<Rightarrow> zone \<Rightarrow> zone kres" where
  "lru_cache_del i z =
     kbind (if PG_active (mem_map z i) then del_page_from_active_list i z
            else if PG_inactive_dirty (mem_map z i) then del_page_from_inactive_dirty_list i z
            else if PG_inactive_clean (mem_map z i) then del_page_from_inactive_clean_list i z
            else Inr z)
       (\<lambda>z. Inr (set_page i ((mem_map z i)\<lparr>PG_lru := False\<rparr>) z))"

definition zone_free_limit :: "zone \<Rightarrow> int \<Rightarrow> int" where
  "zone_free_limit z limit =
     (let target = (if limit = 0 then pages_min z
                    else if limit = 1 then pages_low z
                    else if limit = 2 then pages_high z
                    else pages_high z * 2);
          free = free_pages z + inactive_clean_pages z
      in s32 (target - free))"

definition free_high :: "zone \<Rightarrow> int" where
  "free_high z = zone_free_limit z 2"

subsection \<open>Taking pages: \<^verbatim>\<open>expand\<close> and \<^verbatim>\<open>rmqueue\<close>\<close>

definition MARK_USED :: "nat \<Rightarrow> nat \<Rightarrow> zone \<Rightarrow> zone" where
  "MARK_USED index order z =
     z\<lparr>bitmap := (bitmap z)(order := (bitmap z order)(drop_bit (1 + order) index :=
         \<not> bitmap z order (drop_bit (1 + order) index)))\<rparr>"

definition memlist_add_head :: "nat \<Rightarrow> nat \<Rightarrow> zone \<Rightarrow> zone" where
  "memlist_add_head i order z = z\<lparr>free_list := (free_list z)(order := i # free_list z order)\<rparr>"

definition memlist_del :: "nat \<Rightarrow> nat \<Rightarrow> zone \<Rightarrow> zone kres" where
  "memlist_del i order z =
     (if i \<in> set (free_list z order)
      then Inr (z\<lparr>free_list := (free_list z)(order := remove1 i (free_list z order))\<rparr>)
      else Inl WildDeref)"

text \<open>\<open>expand low high page z\<close>: the loop halves the block \<open>high - low\<close> times.\<close>

fun expand :: "nat \<Rightarrow> nat \<Rightarrow> nat \<Rightarrow> zone \<Rightarrow> (nat \<times> zone) kres" where
  "expand low high pg z =
     (if low < high then
        if BAD_RANGE z pg then Inl BUG
        else let h = high - 1; z1 = MARK_USED pg h (memlist_add_head pg h z)
             in expand low h (pg + 2 ^ h) z1
      else if BAD_RANGE z pg then Inl BUG
      else Inr (pg, z))"

declare expand.simps [simp del]

function rmqueue_search :: "nat \<Rightarrow> nat \<Rightarrow> zone \<Rightarrow> (nat option \<times> zone) kres" where
  "rmqueue_search order curr_order z =
     (if curr_order < MAX_ORDER then
        (case free_list z curr_order of
           pg # rest \<Rightarrow>
             if BAD_RANGE z pg then Inl BUG
             else kbind (memlist_del pg curr_order z) (\<lambda>z1.
               let z2 = (if curr_order \<noteq> MAX_ORDER - 1 then MARK_USED pg curr_order z1 else z1);
                   z3 = z2\<lparr>free_pages := u32 (free_pages z2 - 2 ^ order)\<rparr>
               in kbind (expand order curr_order pg z3) (\<lambda>(pg', z4).
                 let z5 = set_page pg' ((mem_map z4 pg')\<lparr>count := 1\<rparr>) z4
                 in if BAD_RANGE z5 pg' then Inl BUG
                    else kbind (DEBUG_LRU_PAGE pg' z5) (\<lambda>z6. Inr (Some pg', z6))))
         | [] \<Rightarrow> rmqueue_search order (Suc curr_order) z)
      else Inr (None, z))"
  by pat_completeness auto

termination
  by (relation "measure (\<lambda>(order, curr_order, z). MAX_ORDER - curr_order)") auto

declare rmqueue_search.simps [simp del]

text \<open>\<open>memalloc\<close> is \<^verbatim>\<open>current->flags & PF_MEMALLOC\<close>.\<close>

definition rmqueue :: "bool \<Rightarrow> nat \<Rightarrow> zone \<Rightarrow> (nat option \<times> zone) kres" where
  "rmqueue memalloc order z =
     (let threshold = (if memalloc then 0 else cpu_max_nr_pages z div 8)
      in if order = 0 \<and> cpu_nr_pages z > threshold then
           (case cpu_head z of
              [] \<Rightarrow> Inl BUG
            | pg # rest \<Rightarrow>
                let z1 = z\<lparr>cpu_head := rest, cpu_nr_pages := cpu_nr_pages z - 1\<rparr>
                in Inr (Some pg, set_page pg ((mem_map z1 pg)\<lparr>count := 1\<rparr>) z1))
         else if order < MAX_ORDER then rmqueue_search order order z
         else Inl OutOfRange)"

subsection \<open>Returning pages: \<^verbatim>\<open>__free_pages_ok\<close>\<close>

text \<open>
  The merging loop. \<^verbatim>\<open>mask\<close> is \<^verbatim>\<open>-(1 << order)\<close>: the loop ends at \<^verbatim>\<open>order = MAX_ORDER - 1\<close>
  or at the first buddy that is not free.
\<close>

definition buddy :: "nat \<Rightarrow> nat \<Rightarrow> nat" where
  "buddy order page_idx = page_idx XOR 2 ^ order"

function free_merge :: "nat \<Rightarrow> nat \<Rightarrow> nat \<Rightarrow> zone \<Rightarrow> zone kres" where
  "free_merge page_idx index order z =
     (if order = MAX_ORDER - 1 then Inr (memlist_add_head page_idx order z)
      else if order \<ge> MAX_ORDER then Inl BUG
      else let was = bitmap z order index;
               z1 = z\<lparr>bitmap := (bitmap z)(order := (bitmap z order)(index := \<not> was))\<rparr>
           in if \<not> was then Inr (memlist_add_head page_idx order z1)
              else if BAD_RANGE z1 (buddy order page_idx) then Inl BUG
              else if BAD_RANGE z1 page_idx then Inl BUG
              else kbind (memlist_del (buddy order page_idx) order z1)
                (free_merge (push_bit (Suc order) (drop_bit (Suc order) page_idx))
                   (drop_bit 1 index) (Suc order)))"
  by pat_completeness auto

termination
  by (relation "measure (\<lambda>(page_idx, index, order, z). MAX_ORDER - order)") auto

declare free_merge.simps [simp del]

definition free_pages_ok :: "nat \<Rightarrow> nat \<Rightarrow> zone \<Rightarrow> zone kres" where
  "free_pages_ok i order z =
     kbind (if PG_lru (mem_map z i) then lru_cache_del i z else Inr z) (\<lambda>z.
       let p = mem_map z i in
       if PG_reserved p then Inr z
       else if buffers p then Inl BUG
       else if mapping p then Inl BUG
       else if \<not> VALID_PAGE z i then Inl BUG
       else if PG_swap_cache p then Inl BUG
       else if PG_locked p then Inl BUG
       else if PG_active p then Inl BUG
       else if PG_inactive_dirty p then Inl BUG
       else if PG_inactive_clean p then Inl BUG
       else if pte_chain p then Inl BUG
       else let z1 = set_page i (p\<lparr>PG_referenced := False, PG_dirty := False, age := PAGE_AGE_START\<rparr>) z
            in if i mod 2 ^ order \<noteq> 0 then Inl BUG
               else if order = 0 \<and> cpu_nr_pages z1 < cpu_max_nr_pages z1 \<and> free_high z1 \<le> 0
               then Inr (z1\<lparr>cpu_head := i # cpu_head z1, cpu_nr_pages := cpu_nr_pages z1 + 1\<rparr>)
               else free_merge i (drop_bit (1 + order) i) order
                      (z1\<lparr>free_pages := u32 (free_pages z1 + 2 ^ order)\<rparr>))"

definition free_pages_count :: "nat \<Rightarrow> nat \<Rightarrow> zone \<Rightarrow> zone kres" where
  "free_pages_count i order z =
     (let z1 = set_page i ((mem_map z i)\<lparr>count := count (mem_map z i) - 1\<rparr>) z
      in if count (mem_map z1 i) = 0 then free_pages_ok i order z1 else Inr z1)"

lemmas buddy_defs = MARK_USED_def memlist_add_head_def memlist_del_def set_page_def

subsection \<open>Blocks and buddies\<close>

definition blk :: "nat \<Rightarrow> nat \<Rightarrow> nat set" where
  "blk order i = {i ..< i + 2 ^ order}"

lemma finite_blk [simp]: "finite (blk o' i)" and card_blk [simp]: "card (blk o' i) = 2 ^ o'"
  by (simp_all add: blk_def)

lemma blk_head [simp]: "i \<in> blk o' i"
  by (simp add: blk_def)

lemma buddy_aligned:
  assumes "2 ^ o' dvd i"
  shows "buddy o' i = (if even (i div 2 ^ o') then i + 2 ^ o' else i - 2 ^ o')"
proof -
  obtain q where q: "i = push_bit o' q" using assms by (auto simp: push_bit_eq_mult dvd_def mult.commute)
  have "buddy o' i = push_bit o' (q XOR 1)"
    using push_bit_xor [of o' q 1] by (simp only: buddy_def q push_bit_of_1)
  also have "q XOR 1 = (if even q then q + 1 else q - 1)" by (simp add: xor_Suc_0_eq)
  finally show ?thesis
    by (simp add: q push_bit_eq_mult add_mult_distrib diff_mult_distrib)
qed

lemma buddy_cases:
  assumes "2 ^ o' dvd i"
  obtains (low) k where "i = 2 ^ Suc o' * k" "buddy o' i = i + 2 ^ o'"
  | (high) k where "i = 2 ^ Suc o' * k + 2 ^ o'" "buddy o' i = 2 ^ Suc o' * k"
proof -
  obtain q where q: "i = 2 ^ o' * q" using assms by (auto simp: dvd_def)
  have b: "buddy o' i = (if even q then i + 2 ^ o' else i - 2 ^ o')"
    using buddy_aligned [OF assms] q by simp
  show thesis
  proof (cases "even q")
    case True
    then obtain k where "q = 2 * k" by blast
    then show ?thesis using low [of k] q b True by (simp add: mult.assoc)
  next
    case False
    then obtain k where "q = 2 * k + 1" by (blast elim: oddE)
    then show ?thesis using high [of k] q b False by (simp add: algebra_simps)
  qed
qed

lemma buddy_facts:
  assumes "2 ^ o' dvd i"
  shows "2 ^ o' dvd buddy o' i" "buddy o' (buddy o' i) = i" "buddy o' i \<noteq> i"
    "drop_bit (Suc o') (buddy o' i) = drop_bit (Suc o') i"
    "blk o' i \<inter> blk o' (buddy o' i) = {}"
    "blk (Suc o') (push_bit (Suc o') (drop_bit (Suc o') i)) = blk o' i \<union> blk o' (buddy o' i)"
proof -
  have d: "2 ^ o' dvd buddy o' i" using assms by (cases rule: buddy_cases) auto
  then show "2 ^ o' dvd buddy o' i" .
  show "buddy o' i \<noteq> i" "blk o' i \<inter> blk o' (buddy o' i) = {}"
    using assms by (cases rule: buddy_cases; auto simp: blk_def)+
  show "buddy o' (buddy o' i) = i" by (simp add: buddy_def xor.assoc)
  have lt: "(2::nat) ^ o' < 2 ^ Suc o'" by simp
  show "drop_bit (Suc o') (buddy o' i) = drop_bit (Suc o') i"
    using assms lt by (cases rule: buddy_cases) (simp_all add: drop_bit_eq_div)
  show "blk (Suc o') (push_bit (Suc o') (drop_bit (Suc o') i)) = blk o' i \<union> blk o' (buddy o' i)"
    using assms lt
    by (cases rule: buddy_cases) (auto simp: drop_bit_eq_div push_bit_eq_mult blk_def mult.commute)
qed

subsection \<open>Invariant\<close>

definition on_list :: "zone \<Rightarrow> nat \<Rightarrow> nat \<Rightarrow> bool" where
  "on_list z order i \<longleftrightarrow> order < MAX_ORDER \<and> i \<in> set (free_list z order)"

definition listed :: "zone \<Rightarrow> nat set" where
  "listed z = \<Union> {blk order i |order i. on_list z order i}"

definition avail :: "zone \<Rightarrow> nat set" where
  "avail z = listed z \<union> set (cpu_head z)"

text \<open>The free lists and bit maps: the part of the invariant that \<^verbatim>\<open>expand\<close> and the merging loop keep.\<close>

definition lists_inv :: "zone \<Rightarrow> bool" where
  "lists_inv z \<longleftrightarrow>
     (\<forall>order < MAX_ORDER. distinct (free_list z order)) \<and>
     (\<forall>order i. on_list z order i \<longrightarrow> 2 ^ order dvd i \<and> i + 2 ^ order \<le> zsize z) \<and>
     (\<forall>order i order' i'. on_list z order i \<longrightarrow> on_list z order' i' \<longrightarrow>
        (order, i) \<noteq> (order', i') \<longrightarrow> blk order i \<inter> blk order' i' = {}) \<and>
     (\<forall>order < MAX_ORDER - 1. \<forall>i. 2 ^ order dvd i \<longrightarrow>
        bitmap z order (drop_bit (Suc order) i) =
          (i \<in> set (free_list z order) \<or> buddy order i \<in> set (free_list z order))) \<and>
     (\<forall>order < MAX_ORDER - 1. \<forall>i. i \<in> set (free_list z order) \<longrightarrow> buddy order i \<notin> set (free_list z order))"

lemma lists_invD:
  assumes "lists_inv z"
  shows "order < MAX_ORDER \<Longrightarrow> distinct (free_list z order)"
    and "on_list z order i \<Longrightarrow> 2 ^ order dvd i"
    and "on_list z order i \<Longrightarrow> i + 2 ^ order \<le> zsize z"
    and "on_list z order i \<Longrightarrow> on_list z order' i' \<Longrightarrow> (order, i) \<noteq> (order', i') \<Longrightarrow>
           blk order i \<inter> blk order' i' = {}"
    and "order < MAX_ORDER - 1 \<Longrightarrow> 2 ^ order dvd i \<Longrightarrow> bitmap z order (drop_bit (Suc order) i) =
           (i \<in> set (free_list z order) \<or> buddy order i \<in> set (free_list z order))"
    and "order < MAX_ORDER - 1 \<Longrightarrow> i \<in> set (free_list z order) \<Longrightarrow> buddy order i \<notin> set (free_list z order)"
  using assms by (simp_all add: lists_inv_def)

lemma lists_invI:
  assumes "\<And>order. order < MAX_ORDER \<Longrightarrow> distinct (free_list z order)"
    and "\<And>order i. on_list z order i \<Longrightarrow> 2 ^ order dvd i"
    and "\<And>order i. on_list z order i \<Longrightarrow> i + 2 ^ order \<le> zsize z"
    and "\<And>order i order' i'. on_list z order i \<Longrightarrow> on_list z order' i' \<Longrightarrow>
           (order, i) \<noteq> (order', i') \<Longrightarrow> blk order i \<inter> blk order' i' = {}"
    and "\<And>order i. order < MAX_ORDER - 1 \<Longrightarrow> 2 ^ order dvd i \<Longrightarrow> bitmap z order (drop_bit (Suc order) i) =
           (i \<in> set (free_list z order) \<or> buddy order i \<in> set (free_list z order))"
    and "\<And>order i. order < MAX_ORDER - 1 \<Longrightarrow> i \<in> set (free_list z order) \<Longrightarrow>
           buddy order i \<notin> set (free_list z order)"
  shows "lists_inv z"
  using assms by (simp add: lists_inv_def)

lemma listedI: "on_list z order i \<Longrightarrow> x \<in> blk order i \<Longrightarrow> x \<in> listed z"
  unfolding listed_def by blast

lemma listedE:
  assumes "x \<in> listed z"
  obtains order i where "on_list z order i" "x \<in> blk order i"
  using assms unfolding listed_def by blast

lemma head_unlisted:
  assumes "S \<inter> listed z = {}" "i \<in> S" "order < MAX_ORDER"
  shows "i \<notin> set (free_list z order)"
  using assms listedI [of z order i i] blk_head [of i order] by (auto simp: on_list_def simp del: blk_head)

text \<open>Linking a block with its bit flipped, and unlinking one.\<close>

definition link :: "nat \<Rightarrow> nat \<Rightarrow> zone \<Rightarrow> zone" where
  "link order i z = memlist_add_head i order (if order < MAX_ORDER - 1 then MARK_USED i order z else z)"

definition unlink :: "nat \<Rightarrow> nat \<Rightarrow> zone \<Rightarrow> zone" where
  "unlink order i z = (if order < MAX_ORDER - 1 then MARK_USED i order z else z)
     \<lparr>free_list := (free_list z)(order := remove1 i (free_list z order))\<rparr>"

lemma on_list_link:
  "order < MAX_ORDER \<Longrightarrow> on_list (link order i z) o' j \<longleftrightarrow> on_list z o' j \<or> (o' = order \<and> j = i)"
  by (auto simp: on_list_def link_def buddy_defs)

lemma on_list_unlink:
  assumes "lists_inv z" "order < MAX_ORDER"
  shows "on_list (unlink order i z) o' j \<longleftrightarrow> on_list z o' j \<and> \<not> (o' = order \<and> j = i)"
  using assms lists_invD(1) [of z order] by (auto simp: on_list_def unlink_def buddy_defs)

lemma link_fields [simp]:
  "zsize (link order i z) = zsize z" "cpu_head (link order i z) = cpu_head z"
  "mem_map (link order i z) = mem_map z" "free_pages (link order i z) = free_pages z"
  "zsize (unlink order i z) = zsize z" "cpu_head (unlink order i z) = cpu_head z"
  "mem_map (unlink order i z) = mem_map z" "free_pages (unlink order i z) = free_pages z"
  by (simp_all add: link_def unlink_def buddy_defs)

lemma lists_frame [simp]:
  "lists_inv (set_page i pg z) = lists_inv z" "listed (set_page i pg z) = listed z"
  "lists_inv (z\<lparr>free_pages := n\<rparr>) = lists_inv z" "listed (z\<lparr>free_pages := n\<rparr>) = listed z"
  "lists_inv (z\<lparr>cpu_head := hd', cpu_nr_pages := k\<rparr>) = lists_inv z"
  "listed (z\<lparr>cpu_head := hd', cpu_nr_pages := k\<rparr>) = listed z"
  by (simp_all add: set_page_def lists_inv_def listed_def on_list_def)

lemma listed_link:
  assumes "order < MAX_ORDER" shows "listed (link order i z) = listed z \<union> blk order i"
  using on_list_link [OF assms] by (auto elim!: listedE intro: listedI)

lemma listed_unlink:
  assumes "lists_inv z" "on_list z order i" shows "listed (unlink order i z) = listed z - blk order i"
proof -
  have o: "order < MAX_ORDER" using assms(2) by (simp add: on_list_def)
  note u = on_list_unlink [OF assms(1) o]
  show ?thesis
  proof (intro equalityI subsetI)
    fix x assume "x \<in> listed (unlink order i z)"
    then obtain o' j where j: "on_list z o' j" "(o', j) \<noteq> (order, i)" "x \<in> blk o' j"
      using u by (auto elim!: listedE)
    then show "x \<in> listed z - blk order i"
      using lists_invD(4) [OF assms(1) j(1) assms(2) j(2)] by (auto intro: listedI)
  next
    fix x assume "x \<in> listed z - blk order i"
    then show "x \<in> listed (unlink order i z)" using u by (auto elim!: listedE intro: listedI)
  qed
qed

lemma free_list_link:
  "free_list (link order i z) o' = (if o' = order then i # free_list z order else free_list z o')"
  by (simp add: link_def buddy_defs)

lemma bitmap_link:
  "bitmap (link order i z) o' k =
     (if o' = order \<and> order < MAX_ORDER - 1 \<and> k = drop_bit (Suc order) i then \<not> bitmap z o' k else bitmap z o' k)"
  "bitmap (unlink order i z) o' k =
     (if o' = order \<and> order < MAX_ORDER - 1 \<and> k = drop_bit (Suc order) i then \<not> bitmap z o' k else bitmap z o' k)"
  by (auto simp: link_def unlink_def buddy_defs)

lemma same_pair:
  assumes "2 ^ o' dvd i" "2 ^ o' dvd j" "drop_bit (Suc o') j = drop_bit (Suc o') i"
  shows "j = i \<or> j = buddy o' i"
proof -
  have lt: "(2::nat) ^ o' < 2 ^ Suc o'" by simp
  show ?thesis
    using assms(1)
  proof (cases rule: buddy_cases)
    case (low k)
    from assms(2) show ?thesis
      by (cases rule: buddy_cases) (use low assms(3) lt in \<open>simp_all add: drop_bit_eq_div\<close>)
  next
    case (high k)
    from assms(2) show ?thesis
      by (cases rule: buddy_cases) (use high assms(3) lt in \<open>simp_all add: drop_bit_eq_div\<close>)
  qed
qed

lemma lists_inv_link:
  assumes inv: "lists_inv z" and o: "order < MAX_ORDER" and al: "2 ^ order dvd i"
    and sz: "i + 2 ^ order \<le> zsize z" and free: "blk order i \<inter> listed z = {}"
    and nb: "order < MAX_ORDER - 1 \<Longrightarrow> buddy order i \<notin> set (free_list z order)"
  shows "lists_inv (link order i z)"
proof -
  let ?z = "link order i z"
  note D = lists_invD [OF inv]
  have new: "i \<notin> set (free_list z order)"
    using head_unlisted [OF free blk_head o] .
  have dis: "blk order i \<inter> blk o' j = {}" if "on_list z o' j" for o' j
    using free listedI [OF that] by blast
  have "distinct (free_list ?z o')" if "o' < MAX_ORDER" for o'
    using that D(1) new by (simp add: free_list_link)
  moreover have "2 ^ o' dvd j" "j + 2 ^ o' \<le> zsize ?z" if "on_list ?z o' j" for o' j
    using that D(2,3) al sz by (auto simp: on_list_link [OF o])
  moreover have "blk o' j \<inter> blk o'' k = {}"
    if "on_list ?z o' j" "on_list ?z o'' k" "(o', j) \<noteq> (o'', k)" for o' j o'' k
    using that(1,2) unfolding on_list_link [OF o]
  proof (elim disjE)
    assume "on_list z o' j" "on_list z o'' k"
    then show ?thesis using that(3) by (rule D(4))
  next
    assume "on_list z o' j" "o'' = order \<and> k = i"
    then show ?thesis using dis [of o' j] by (simp add: Int_commute)
  qed (use that(3) dis in auto)
  moreover have "bitmap ?z o' (drop_bit (Suc o') j) =
      (j \<in> set (free_list ?z o') \<or> buddy o' j \<in> set (free_list ?z o'))"
    if "o' < MAX_ORDER - 1" "2 ^ o' dvd j" for o' j
  proof (cases "o' = order \<and> drop_bit (Suc o') j = drop_bit (Suc order) i")
    case True
    then have "j = i \<or> j = buddy order i" using same_pair [of order i j] al that by auto
    then show ?thesis
      using True that D(5) [OF that] nb new buddy_facts(2) [OF al]
      by (auto simp: bitmap_link free_list_link)
  next
    case False
    then have "o' = order \<Longrightarrow> j \<noteq> i \<and> buddy o' j \<noteq> i"
      using buddy_facts(4) [OF that(2)] by auto
    then show ?thesis using False D(5) [OF that] by (auto simp: bitmap_link free_list_link)
  qed
  moreover have "buddy o' j \<notin> set (free_list ?z o')" if "o' < MAX_ORDER - 1" "j \<in> set (free_list ?z o')" for o' j
    using that nb D(6) [OF that(1)] buddy_facts(2,3) [OF al] buddy_facts(2) [OF D(2), of o' j]
    by (auto simp: free_list_link on_list_def split: if_splits)
  ultimately show ?thesis by (rule lists_invI)
qed

lemma lists_inv_unlink:
  assumes inv: "lists_inv z" and on: "on_list z order i"
  shows "lists_inv (unlink order i z)"
proof -
  let ?z = "unlink order i z"
  note D = lists_invD [OF inv]
  have o: "order < MAX_ORDER" and i: "i \<in> set (free_list z order)" using on by (simp_all add: on_list_def)
  note u = on_list_unlink [OF inv o]
  have set_z: "set (free_list ?z o') = set (free_list z o') - (if o' = order then {i} else {})"
    if "o' < MAX_ORDER" for o'
    using D(1) [OF o] by (simp add: unlink_def buddy_defs set_remove1_eq)
  have "distinct (free_list ?z o')" if "o' < MAX_ORDER" for o'
    using that D(1) by (simp add: unlink_def buddy_defs)
  moreover have "2 ^ o' dvd j" "j + 2 ^ o' \<le> zsize ?z" if "on_list ?z o' j" for o' j
    using that D(2,3) by (auto simp: u)
  moreover have "blk o' j \<inter> blk o'' k = {}"
    if "on_list ?z o' j" "on_list ?z o'' k" "(o', j) \<noteq> (o'', k)" for o' j o'' k
    using that D(4) by (auto simp: u)
  moreover have "bitmap ?z o' (drop_bit (Suc o') j) =
      (j \<in> set (free_list ?z o') \<or> buddy o' j \<in> set (free_list ?z o'))"
    if "o' < MAX_ORDER - 1" "2 ^ o' dvd j" for o' j
  proof (cases "o' = order \<and> drop_bit (Suc o') j = drop_bit (Suc order) i")
    case True
    have al: "2 ^ order dvd i" using D(2) [OF on] .
    then have "j = i \<or> j = buddy order i" using same_pair [of order i j] that True by auto
    then show ?thesis
      using True that D(5) [OF that] D(6) [of order i] i buddy_facts(2) [OF al]
      by (auto simp: bitmap_link set_z)
  next
    case False
    then have "o' = order \<Longrightarrow> j \<noteq> i \<and> buddy o' j \<noteq> i"
      using buddy_facts(4) [OF that(2)] by auto
    then show ?thesis using False that D(5) [OF that] by (auto simp: bitmap_link set_z)
  qed
  moreover have "buddy o' j \<notin> set (free_list ?z o')" if "o' < MAX_ORDER - 1" "j \<in> set (free_list ?z o')" for o' j
    using that D(6) [OF that(1)] by (auto simp: set_z)
  ultimately show ?thesis by (rule lists_invI)
qed

subsection \<open>The loops keep the invariant\<close>

lemma blk_split: "h = Suc h' \<Longrightarrow> blk h i = blk h' i \<union> blk h' (i + 2 ^ h')" "blk h' i \<inter> blk h' (i + 2 ^ h') = {}"
  by (auto simp: blk_def)

text \<open>What a step of the allocator may change besides the lists: nothing.\<close>

definition same_pages :: "zone \<Rightarrow> zone \<Rightarrow> bool" where
  "same_pages z z' \<longleftrightarrow> mem_map z' = mem_map z \<and> zsize z' = zsize z \<and> max_mapnr z' = max_mapnr z \<and>
     zone_start_mapnr z' = zone_start_mapnr z \<and> cpu_head z' = cpu_head z \<and> cpu_nr_pages z' = cpu_nr_pages z \<and>
     cpu_max_nr_pages z' = cpu_max_nr_pages z \<and> free_pages z' = free_pages z"

lemma same_pages_link [simp]: "same_pages z (link order i z)" "same_pages z (unlink order i z)"
  by (simp_all add: same_pages_def link_def unlink_def buddy_defs)

lemma same_pages_trans: "same_pages a b \<Longrightarrow> same_pages b c \<Longrightarrow> same_pages a c"
  by (simp add: same_pages_def)

lemma block_in_range:
  assumes "i + 2 ^ order \<le> zsize z"
  shows "\<not> BAD_RANGE z i"
proof -
  have "i < i + 2 ^ order" by simp
  with assms have "i < zsize z" by (rule order.strict_trans2 [rotated])
  then show ?thesis by (simp add: BAD_RANGE_def)
qed

lemma expand_correct:
  assumes "lists_inv z" "low \<le> high" "high < MAX_ORDER" "2 ^ high dvd pg" "pg + 2 ^ high \<le> zsize z"
    "blk high pg \<inter> listed z = {}"
  shows "\<exists>pg' z'. expand low high pg z = Inr (pg', z') \<and> lists_inv z' \<and> same_pages z z' \<and>
     2 ^ low dvd pg' \<and> blk low pg' \<subseteq> blk high pg \<and> listed z' = listed z \<union> (blk high pg - blk low pg')"
  using assms
proof (induction low high pg z rule: expand.induct)
  case (1 low high pg z)
  have ok: "\<not> BAD_RANGE z pg" using 1(6) by (rule block_in_range)
  show ?case
  proof (cases "low < high")
    case False
    then have "low = high" "expand low high pg z = Inr (pg, z)"
      using 1(3) ok expand.simps [of low high pg z] by simp_all
    then show ?thesis using 1(2,5) by (intro exI [of _ pg] exI [of _ z]) (simp add: same_pages_def)
  next
    case True
    define h where "h = high - 1"
    have h: "high = Suc h" "h < MAX_ORDER - 1" using True 1(4) by (simp_all add: h_def)
    define z1 where "z1 = link h pg z"
    have z1: "MARK_USED pg h (memlist_add_head pg h z) = z1"
      using h(2) by (simp add: z1_def link_def buddy_defs)
    have al: "2 ^ h dvd pg" using 1(5) h(1) by (auto dest: dvd_mult_right simp: power_Suc)
    have bud: "buddy h pg = pg + 2 ^ h"
      using 1(5) h(1) buddy_aligned [OF al] by (auto simp: dvd_def)
    note sp = blk_split(1) [OF h(1), of pg] blk_split(2) [of h pg]
    have "buddy h pg \<notin> set (free_list z h)"
      using head_unlisted [OF 1(7), of "buddy h pg" h] h bud sp(1) by simp
    then have inv1: "lists_inv z1"
      unfolding z1_def using 1(2,6,7) h al sp(1) by (intro lists_inv_link) auto
    have l1: "listed z1 = listed z \<union> blk h pg" using h(2) by (simp add: z1_def listed_link)
    have "\<exists>pg' z'. expand low h (pg + 2 ^ h) z1 = Inr (pg', z') \<and> lists_inv z' \<and> same_pages z1 z' \<and>
       2 ^ low dvd pg' \<and> blk low pg' \<subseteq> blk h (pg + 2 ^ h) \<and>
       listed z' = listed z1 \<union> (blk h (pg + 2 ^ h) - blk low pg')"
    proof (rule 1(1) [OF True ok h_def])
      show "z1 = MARK_USED pg h (memlist_add_head pg h z)" using z1 by simp
      show "low \<le> h" "h < MAX_ORDER" using True h by simp_all
      show "2 ^ h dvd pg + 2 ^ h" using al by simp
      show "pg + 2 ^ h + 2 ^ h \<le> zsize z1" using 1(6) h(1) by (simp add: z1_def)
      show "blk h (pg + 2 ^ h) \<inter> listed z1 = {}" using sp 1(7) l1 by auto
    qed (rule inv1)
    then obtain pg' z' where r: "expand low h (pg + 2 ^ h) z1 = Inr (pg', z')" "lists_inv z'"
      "same_pages z1 z'" "2 ^ low dvd pg'" "blk low pg' \<subseteq> blk h (pg + 2 ^ h)"
      "listed z' = listed z1 \<union> (blk h (pg + 2 ^ h) - blk low pg')" by blast
    have "expand low high pg z = Inr (pg', z')"
      using True ok r(1) z1 expand.simps [of low high pg z] by (simp add: h_def)
    moreover have "same_pages z z'" using r(3) same_pages_link(1) same_pages_trans unfolding z1_def by blast
    moreover have "blk h pg \<inter> blk low pg' = {}" using sp(2) r(5) by blast
    ultimately show ?thesis using r sp l1 by (intro exI [of _ pg'] exI [of _ z']) auto
  qed
qed

lemma free_merge_correct:
  assumes "lists_inv z" "order < MAX_ORDER" "2 ^ order dvd i" "i + 2 ^ order \<le> zsize z"
    "blk order i \<inter> listed z = {}"
  shows "\<exists>z'. free_merge i (drop_bit (Suc order) i) order z = Inr z' \<and> lists_inv z' \<and> same_pages z z' \<and>
     listed z' = listed z \<union> blk order i"
  using assms
proof (induction "MAX_ORDER - order" arbitrary: order i z)
  case (Suc n)
  note unf = free_merge.simps [of i "drop_bit (Suc order) i" order z]
  have linked: ?case if "free_merge i (drop_bit (Suc order) i) order z = Inr (link order i z)"
    "order < MAX_ORDER - 1 \<Longrightarrow> buddy order i \<notin> set (free_list z order)"
    using that Suc.prems lists_inv_link [of z order i] by (simp add: listed_link)
  show ?case
  proof (cases "order = MAX_ORDER - 1 \<or> \<not> bitmap z order (drop_bit (Suc order) i)")
    case True
    have "free_merge i (drop_bit (Suc order) i) order z = Inr (link order i z)"
      using True Suc.prems(2) unf by (auto simp: link_def MARK_USED_def memlist_add_head_def Let_def)
    then show ?thesis
      using True lists_invD(5) [OF Suc.prems(1) _ Suc.prems(3)] by (intro linked) auto
  next
    case False
    let ?b = "buddy order i" and ?j = "push_bit (Suc order) (drop_bit (Suc order) i)"
    have o: "order < MAX_ORDER - 1" using False Suc.prems(2) by simp
    note bf = buddy_facts [OF Suc.prems(3)]
    have "i \<notin> set (free_list z order)" using head_unlisted [OF Suc.prems(5)] Suc.prems(2) by simp
    then have b: "on_list z order ?b"
      using False o lists_invD(5) [OF Suc.prems(1) o Suc.prems(3)] by (simp add: on_list_def)
    define z1 where "z1 = unlink order ?b z"
    have inv1: "lists_inv z1" using lists_inv_unlink [OF Suc.prems(1) b] by (simp add: z1_def)
    have l1: "listed z1 = listed z - blk order ?b" using listed_unlink [OF Suc.prems(1) b] by (simp add: z1_def)
    have range: "\<not> BAD_RANGE z i" "\<not> BAD_RANGE z ?b"
      using block_in_range [OF Suc.prems(4)] block_in_range [OF lists_invD(3) [OF Suc.prems(1) b]] by simp_all
    have "drop_bit (Suc order) ?j = drop_bit (Suc order) i" by (simp add: drop_bit_eq_div push_bit_eq_mult)
    then have dj: "drop_bit 1 (drop_bit (Suc order) i) = drop_bit (Suc (Suc order)) ?j"
      using drop_bit_drop_bit [of 1 "Suc order" ?j] by simp
    have step: "free_merge i (drop_bit (Suc order) i) order z =
        free_merge ?j (drop_bit (Suc (Suc order)) ?j) (Suc order) z1"
      using False o range b bf(4) unf dj
      by (simp add: z1_def unlink_def buddy_defs BAD_RANGE_def on_list_def del: push_bit_Suc drop_bit_Suc)
    have "blk (Suc order) ?j \<inter> listed z1 = {}" using bf(6) l1 Suc.prems(5) by auto
    moreover have "blk (Suc order) ?j \<subseteq> {..<zsize z1}"
      unfolding bf(6) using Suc.prems(4) lists_invD(3) [OF Suc.prems(1) b] by (auto simp: blk_def z1_def)
    then have "?j + 2 ^ Suc order \<le> zsize z1" by (simp add: blk_def lessThan_atLeast0)
    moreover have n: "n = MAX_ORDER - Suc order" and al: "2 ^ Suc order dvd ?j"
      using Suc.hyps(2) by (simp_all add: push_bit_eq_mult)
    ultimately obtain z' where "free_merge ?j (drop_bit (Suc (Suc order)) ?j) (Suc order) z1 = Inr z'"
      "lists_inv z'" "same_pages z1 z'" "listed z' = listed z1 \<union> blk (Suc order) ?j"
      using Suc.hyps(1) [of "Suc order", OF n inv1 _ al] o by (auto simp del: push_bit_Suc drop_bit_Suc)
    moreover have "listed z \<inter> blk order ?b = blk order ?b" using listedI [OF b] by blast
    ultimately show ?thesis
      using step bf(6) l1 same_pages_trans [OF same_pages_link(2)] by (auto simp: z1_def)
  qed
qed simp

subsection \<open>Taking a block\<close>

text \<open>No flag that the allocator checks is set.\<close>

definition page_clean :: "page \<Rightarrow> bool" where
  "page_clean p \<longleftrightarrow> \<not> PG_lru p \<and> \<not> PG_reserved p \<and> \<not> PG_swap_cache p \<and> \<not> PG_locked p \<and> \<not> PG_active p \<and>
     \<not> PG_inactive_dirty p \<and> \<not> PG_inactive_clean p \<and> \<not> buffers p \<and> \<not> mapping p \<and> \<not> pte_chain p"

lemma page_clean_count [simp]: "page_clean (p\<lparr>count := c\<rparr>) = page_clean p"
  by (simp add: page_clean_def)

definition zone_inv :: "zone \<Rightarrow> bool" where
  "zone_inv z \<longleftrightarrow> lists_inv z \<and>
     distinct (cpu_head z) \<and> set (cpu_head z) \<inter> listed z = {} \<and> set (cpu_head z) \<subseteq> {..<zsize z} \<and>
     cpu_nr_pages z = int (length (cpu_head z)) \<and> 0 \<le> cpu_max_nr_pages z \<and>
     free_pages z = int (card (listed z)) \<and> zsize z < 4294967296 \<and>
     zone_start_mapnr z + zsize z \<le> max_mapnr z \<and>
     (\<forall>i \<in> avail z. page_clean (mem_map z i))"

text \<open>A block some caller holds: what \<^verbatim>\<open>free_pages\<close> expects of its argument.\<close>

definition held :: "zone \<Rightarrow> (nat \<times> nat) set" where
  "held z = {(i, order). order < MAX_ORDER \<and> 2 ^ order dvd i \<and> i + 2 ^ order \<le> zsize z \<and>
     blk order i \<inter> avail z = {} \<and> (\<forall>x \<in> blk order i. page_clean (mem_map z x)) \<and> count (mem_map z i) = 1}"

lemma listed_range:
  assumes "lists_inv z" shows "listed z \<subseteq> {..<zsize z}" "finite (listed z)" "card (listed z) \<le> zsize z"
proof -
  show sub: "listed z \<subseteq> {..<zsize z}"
    using lists_invD(3) [OF assms] by (fastforce elim!: listedE simp: blk_def)
  then show "finite (listed z)" by (rule finite_subset) simp
  show "card (listed z) \<le> zsize z" using card_mono [OF _ sub] by simp
qed

text \<open>One allocation of a block of \<open>order\<close> from the free lists.\<close>

definition took :: "nat \<Rightarrow> nat \<Rightarrow> zone \<Rightarrow> zone \<Rightarrow> bool" where
  "took order pg z z' \<longleftrightarrow> lists_inv z' \<and> 2 ^ order dvd pg \<and> blk order pg \<subseteq> listed z \<and>
     listed z' = listed z - blk order pg \<and> free_pages z' = u32 (free_pages z - 2 ^ order) \<and>
     mem_map z' = (mem_map z)(pg := (mem_map z pg)\<lparr>count := 1\<rparr>) \<and>
     zsize z' = zsize z \<and> max_mapnr z' = max_mapnr z \<and> zone_start_mapnr z' = zone_start_mapnr z \<and>
     cpu_head z' = cpu_head z \<and> cpu_nr_pages z' = cpu_nr_pages z \<and> cpu_max_nr_pages z' = cpu_max_nr_pages z"

lemma rmqueue_takes:
  assumes inv: "lists_inv z" and clean: "\<And>i. i \<in> listed z \<Longrightarrow> page_clean (mem_map z i)"
    and o: "order \<le> c" "c < MAX_ORDER" and fl: "free_list z c = pg # rest"
  shows "\<exists>pg' z'. rmqueue_search order c z = Inr (Some pg', z') \<and> took order pg' z z'"
proof -
  have on: "on_list z c pg" using fl o by (simp add: on_list_def)
  note D = lists_invD [OF inv]
  define z1 where "z1 = unlink c pg z"
  define z2 where "z2 = z1\<lparr>free_pages := u32 (free_pages z - 2 ^ order)\<rparr>"
  have same: "lists_inv z2 = lists_inv z1" "listed z2 = listed z1"
    by (simp_all add: z2_def)
  have inv2: "lists_inv z2" "listed z2 = listed z - blk c pg"
    using lists_inv_unlink [OF inv on] listed_unlink [OF inv on] same by (simp_all add: z1_def)
  have sub: "blk c pg \<subseteq> listed z" using listedI [OF on] by blast
  obtain pg' z' where e: "expand order c pg z2 = Inr (pg', z')" "lists_inv z'" "same_pages z2 z'"
    "2 ^ order dvd pg'" "blk order pg' \<subseteq> blk c pg" "listed z' = listed z2 \<union> (blk c pg - blk order pg')"
    using expand_correct [of z2 order c pg] inv2 o D(2,3) [OF on] by (auto simp: z2_def z1_def)
  have pg': "pg' \<in> listed z" using e(5) sub blk_head [of pg' order] by blast
  then have c: "page_clean (mem_map z pg')" by (rule clean)
  define zd where "zd = z\<lparr>free_list := (free_list z)(c := rest)\<rparr>"
  have z2: "c \<noteq> MAX_ORDER - 1 \<Longrightarrow>
      (MARK_USED pg c zd)\<lparr>free_pages := u32 (free_pages (MARK_USED pg c zd) - 2 ^ order)\<rparr> = z2"
    "c = MAX_ORDER - 1 \<Longrightarrow> zd\<lparr>free_pages := u32 (free_pages zd - 2 ^ order)\<rparr> = z2"
    using fl o by (simp_all add: zd_def z2_def z1_def unlink_def buddy_defs)
  have del: "memlist_del pg c z = Inr zd" using fl by (simp add: memlist_del_def zd_def)
  have "\<not> BAD_RANGE z pg" using D(3) [OF on] by (rule block_in_range)
  then have "rmqueue_search order c z = kbind (expand order c pg z2) (\<lambda>(pg', z4).
      let z5 = set_page pg' ((mem_map z4 pg')\<lparr>count := 1\<rparr>) z4
      in if BAD_RANGE z5 pg' then Inl BUG else kbind (DEBUG_LRU_PAGE pg' z5) (\<lambda>z6. Inr (Some pg', z6)))"
    unfolding rmqueue_search.simps [of order c z]
    using fl o z2 del by (cases "c = MAX_ORDER - 1") (simp_all add: Let_def)
  moreover have "\<not> BAD_RANGE z' pg'"
    using pg' listed_range(1) [OF inv] e(3) by (auto simp: BAD_RANGE_def same_pages_def z2_def z1_def)
  ultimately have "rmqueue_search order c z = Inr (Some pg', set_page pg' ((mem_map z' pg')\<lparr>count := 1\<rparr>) z')"
    using e(1,3) c
    by (simp add: z2_def z1_def set_page_def DEBUG_LRU_PAGE_def BAD_RANGE_def page_clean_def same_pages_def)
  moreover have "took order pg' z (set_page pg' ((mem_map z' pg')\<lparr>count := 1\<rparr>) z')"
    using e sub inv2 unfolding took_def
    by (auto simp: same_pages_def z2_def z1_def) (auto simp: set_page_def unlink_def MARK_USED_def)
  ultimately show ?thesis by blast
qed

lemma rmqueue_search_correct:
  assumes "lists_inv z" "\<forall>i \<in> listed z. page_clean (mem_map z i)" "order \<le> c"
  shows "((\<forall>c'. c \<le> c' \<longrightarrow> c' < MAX_ORDER \<longrightarrow> free_list z c' = []) \<and> rmqueue_search order c z = Inr (None, z)) \<or>
    ((\<exists>c'. c \<le> c' \<and> c' < MAX_ORDER \<and> free_list z c' \<noteq> []) \<and>
     (\<exists>pg z'. rmqueue_search order c z = Inr (Some pg, z') \<and> took order pg z z'))"
  using assms(3)
proof (induction "MAX_ORDER - c" arbitrary: c)
  case 0
  then show ?case using rmqueue_search.simps [of order c z] by simp
next
  case (Suc n)
  have c: "c < MAX_ORDER" using Suc.hyps(2) by simp
  show ?case
  proof (cases "free_list z c")
    case (Cons pg rest)
    have "\<exists>pg z'. rmqueue_search order c z = Inr (Some pg, z') \<and> took order pg z z'"
      using rmqueue_takes [OF assms(1) _ Suc.prems c Cons] assms(2) by blast
    moreover have "\<exists>c'\<ge>c. c' < MAX_ORDER \<and> free_list z c' \<noteq> []" using Cons c by auto
    ultimately show ?thesis by blast
  next
    case Nil
    have "rmqueue_search order c z = rmqueue_search order (Suc c) z"
      using rmqueue_search.simps [of order c z] Nil c by simp
    moreover have "c \<le> c' \<longleftrightarrow> c' = c \<or> Suc c \<le> c'" for c' by auto
    moreover have "n = MAX_ORDER - Suc c" "order \<le> Suc c" using Suc.hyps(2) Suc.prems by simp_all
    ultimately show ?thesis using Suc.hyps(1) [of "Suc c"] Nil by auto
  qed
qed

lemma avail_lists: "avail z = listed z \<union> set (cpu_head z)" "finite (set (cpu_head z))"
  by (simp_all add: avail_def)

lemma zone_invD:
  assumes "zone_inv z"
  shows "lists_inv z" "distinct (cpu_head z)" "set (cpu_head z) \<inter> listed z = {}" "set (cpu_head z) \<subseteq> {..<zsize z}"
    "cpu_nr_pages z = int (length (cpu_head z))" "0 \<le> cpu_max_nr_pages z" "free_pages z = int (card (listed z))"
    "zsize z < 4294967296" "zone_start_mapnr z + zsize z \<le> max_mapnr z" "i \<in> avail z \<Longrightarrow> page_clean (mem_map z i)"
  using assms by (simp_all add: zone_inv_def)

lemma took_correct:
  assumes inv: "zone_inv z" and o: "order < MAX_ORDER" and t: "took order pg z z'"
  shows "zone_inv z'" "blk order pg \<subseteq> avail z" "avail z' = avail z - blk order pg" "(pg, order) \<in> held z'"
    "zsize z' = zsize z"
proof -
  note D = zone_invD [OF inv] and T = t [unfolded took_def]
  have cpu: "set (cpu_head z) \<inter> blk order pg = {}" using D(3) T by blast
  show sub: "blk order pg \<subseteq> avail z" using T by (auto simp: avail_def)
  show av: "avail z' = avail z - blk order pg" using T cpu by (auto simp: avail_def)
  show zs: "zsize z' = zsize z" using T by simp
  have fin: "finite (listed z)" "card (listed z) \<le> zsize z" using listed_range [OF D(1)] by simp_all
  have "card (blk order pg) \<le> card (listed z)" using T fin by (intro card_mono) simp_all
  then have "int (card (listed z - blk order pg)) = int (card (listed z)) - 2 ^ order"
    using T fin by (subst card_Diff_subset) (simp_all add: of_nat_diff)
  moreover have "u32 (int (card (listed z - blk order pg))) = int (card (listed z - blk order pg))"
    using fin D(8) card_mono [OF fin(1), of "listed z - blk order pg"] by (intro u32_id) auto
  ultimately have "free_pages z' = int (card (listed z'))" using T D(7) by simp
  moreover have clean: "page_clean (mem_map z' i)" if "i \<in> avail z" for i
    using D(10) [OF that] T by auto
  ultimately show "zone_inv z'"
    using T D(2-6,8,9) av unfolding zone_inv_def by auto
  have "pg + 2 ^ order \<le> zsize z'"
  proof -
    have "blk order pg \<subseteq> {..<zsize z}" using T listed_range(1) [OF D(1)] by blast
    then show ?thesis using zs by (simp add: blk_def lessThan_atLeast0)
  qed
  moreover have "\<forall>x \<in> blk order pg. page_clean (mem_map z' x)" "count (mem_map z' pg) = 1"
    using clean sub T by (blast, simp)
  moreover have "blk order pg \<inter> avail z' = {}" using av by blast
  ultimately show "(pg, order) \<in> held z'" using T o by (simp add: held_def)
qed

text \<open>The per-cpu list: a single page taken from its head.\<close>

lemma rmqueue_cpu:
  assumes inv: "zone_inv z" and hd: "cpu_head z = pg # rest"
    and z': "z' = set_page pg ((mem_map z pg)\<lparr>count := 1\<rparr>) (z\<lparr>cpu_head := rest, cpu_nr_pages := cpu_nr_pages z - 1\<rparr>)"
  shows "zone_inv z'" "blk 0 pg \<subseteq> avail z" "avail z' = avail z - blk 0 pg" "(pg, 0) \<in> held z'" "zsize z' = zsize z"
proof -
  note D = zone_invD [OF inv]
  have eq: "lists_inv z' = lists_inv z" "listed z' = listed z"
    by (simp_all add: z')
  have b: "blk 0 pg = {pg}" by (auto simp: blk_def)
  show sub: "blk 0 pg \<subseteq> avail z" using hd by (simp add: b avail_def)
  show av: "avail z' = avail z - blk 0 pg"
    using hd D(2,3) eq by (auto simp: b avail_def z' set_page_def)
  show zs: "zsize z' = zsize z" by (simp add: z' set_page_def)
  have clean: "page_clean (mem_map z' i)" if "i \<in> avail z" for i
    using D(10) [OF that] by (auto simp: z' set_page_def)
  have f: "cpu_head z' = rest" "cpu_nr_pages z' = cpu_nr_pages z - 1" "free_pages z' = free_pages z"
    "cpu_max_nr_pages z' = cpu_max_nr_pages z" "max_mapnr z' = max_mapnr z"
    "zone_start_mapnr z' = zone_start_mapnr z" by (simp_all add: z' set_page_def)
  show "zone_inv z'"
    unfolding zone_inv_def using D(1-9) eq hd av zs f clean by (intro conjI ballI) auto
  have "page_clean (mem_map z' pg)" "pg \<notin> avail z'" "pg < zsize z" using clean sub av b D(4) hd by auto
  then show "(pg, 0) \<in> held z'" using b zs by (simp add: held_def) (simp add: z' set_page_def)
qed

lemma held_frame:
  assumes "(j, q) \<in> held z" "zsize z' = zsize z" "blk q j \<inter> avail z' = {}"
    "\<And>x. x \<in> blk q j \<Longrightarrow> mem_map z' x = mem_map z x"
  shows "(j, q) \<in> held z'"
  using assms by (simp add: held_def)

lemma rmqueue_correct:
  assumes inv: "zone_inv z" and o: "order < MAX_ORDER" and r: "rmqueue memalloc order z = Inr (res, z')"
  shows "case res of
      None \<Rightarrow> z' = z \<and> (\<forall>c. order \<le> c \<longrightarrow> c < MAX_ORDER \<longrightarrow> free_list z c = [])
    | Some pg \<Rightarrow> zone_inv z' \<and> blk order pg \<subseteq> avail z \<and> avail z' = avail z - blk order pg \<and>
        (pg, order) \<in> held z' \<and> held z \<subseteq> held z'"
proof -
  note D = zone_invD [OF inv]
  have held: "held z \<subseteq> held z'" if "blk order pg \<subseteq> avail z" "avail z' = avail z - blk order pg"
    "zsize z' = zsize z" "mem_map z' = (mem_map z)(pg := p)" for pg p
  proof (rule subrelI)
    fix j q assume jq: "(j, q) \<in> held z"
    then have "blk q j \<inter> avail z = {}" by (simp add: held_def)
    moreover have "pg \<in> avail z" using that(1) blk_head [of pg order] by blast
    ultimately show "(j, q) \<in> held z'" using that by (intro held_frame [OF jq]) auto
  qed
  show ?thesis
  proof (cases "order = 0 \<and> cpu_nr_pages z > (if memalloc then 0 else cpu_max_nr_pages z div 8)")
    case True
    then have "cpu_head z \<noteq> []" using D(5,6) by (auto split: if_splits)
    then obtain pg rest where hd: "cpu_head z = pg # rest" by (cases "cpu_head z") auto
    let ?z = "set_page pg ((mem_map z pg)\<lparr>count := 1\<rparr>) (z\<lparr>cpu_head := rest, cpu_nr_pages := cpu_nr_pages z - 1\<rparr>)"
    have "res = Some pg" "z' = ?z" using r True hd by (simp_all add: rmqueue_def)
    then show ?thesis
      using rmqueue_cpu [OF inv hd, of z'] True held [of pg "(mem_map z pg)\<lparr>count := 1\<rparr>"]
      by (simp add: set_page_def)
  next
    case False
    then have r': "rmqueue_search order order z = Inr (res, z')"
      using r o unfolding rmqueue_def Let_def by (simp split: if_splits)
    have clean: "\<forall>i \<in> listed z. page_clean (mem_map z i)" using D(10) by (simp add: avail_def)
    consider (none) "\<forall>c. order \<le> c \<longrightarrow> c < MAX_ORDER \<longrightarrow> free_list z c = []" "rmqueue_search order order z = Inr (None, z)"
      | (some) pg z'' where "rmqueue_search order order z = Inr (Some pg, z'')" "took order pg z z''"
      using rmqueue_search_correct [OF D(1) clean order_refl [of order]] by (elim disjE conjE exE) assumption+
    then show ?thesis
    proof cases
      case none
      then show ?thesis using r' by simp
    next
      case (some pg z'')
      then have t: "took order pg z z'" and "res = Some pg" using r' by simp_all
      moreover have "mem_map z' = (mem_map z)(pg := (mem_map z pg)\<lparr>count := 1\<rparr>)" using t by (simp add: took_def)
      ultimately show ?thesis
        using took_correct [OF inv o t] held [OF took_correct(2,3,5) [OF inv o t]] by simp
    qed
  qed
qed

lemma rmqueue_total:
  assumes "zone_inv z" "order < MAX_ORDER"
  shows "\<exists>res z'. rmqueue memalloc order z = Inr (res, z')"
proof -
  note D = zone_invD [OF assms(1)]
  have "\<forall>i \<in> listed z. page_clean (mem_map z i)" using D(10) by (simp add: avail_def)
  from rmqueue_search_correct [OF D(1) this order_refl [of order]]
  have "\<exists>res z'. rmqueue_search order order z = Inr (res, z')" by (elim disjE conjE exE) simp_all
  moreover have "cpu_nr_pages z \<le> (if memalloc then 0 else cpu_max_nr_pages z div 8)" if "cpu_head z = []"
    using that D(5,6) by (simp add: pos_imp_zdiv_nonneg_iff)
  ultimately show ?thesis
    using assms(2) by (cases "cpu_head z") (auto simp: rmqueue_def Let_def)
qed

subsection \<open>Returning a block\<close>

lemma free_correct:
  assumes inv: "zone_inv z" and h: "(i, order) \<in> held z"
  shows "\<exists>z'. free_pages_count i order z = Inr z' \<and> zone_inv z' \<and> avail z' = avail z \<union> blk order i \<and>
     (\<forall>(j, q) \<in> held z. blk q j \<inter> blk order i = {} \<longrightarrow> (j, q) \<in> held z')"
proof -
  note D = zone_invD [OF inv]
  have H: "order < MAX_ORDER" "2 ^ order dvd i" "i + 2 ^ order \<le> zsize z" "blk order i \<inter> avail z = {}"
    "\<And>x. x \<in> blk order i \<Longrightarrow> page_clean (mem_map z x)" "count (mem_map z i) = 1" "page_clean (mem_map z i)"
    using h by (auto simp: held_def)
  define pg where "pg = (mem_map z i)\<lparr>count := 0, PG_referenced := False, PG_dirty := False, age := PAGE_AGE_START\<rparr>"
  define z1 where "z1 = set_page i pg z"
  have clean: "page_clean (mem_map z1 x)" if "x \<in> avail z \<union> blk order i" for x
    using D(10) H(5,7) that by (auto simp: z1_def set_page_def pg_def page_clean_def)
  have valid: "VALID_PAGE z i" using block_in_range [OF H(3)] D(9) by (simp add: VALID_PAGE_def BAD_RANGE_def)
  have eq: "free_pages_count i order z =
      (if order = 0 \<and> cpu_nr_pages z1 < cpu_max_nr_pages z1 \<and> free_high z1 \<le> 0
       then Inr (z1\<lparr>cpu_head := i # cpu_head z1, cpu_nr_pages := cpu_nr_pages z1 + 1\<rparr>)
       else free_merge i (drop_bit (1 + order) i) order (z1\<lparr>free_pages := u32 (free_pages z1 + 2 ^ order)\<rparr>))"
    using H(2,6,7) valid
    by (simp add: free_pages_count_def free_pages_ok_def z1_def pg_def set_page_def page_clean_def VALID_PAGE_def Let_def
        dvd_eq_mod_eq_0)
  have fr: "\<forall>(j, q) \<in> held z. blk q j \<inter> blk order i = {} \<longrightarrow> (j, q) \<in> held z'"
    if "zsize z' = zsize z" "mem_map z' = mem_map z1" "avail z' = avail z \<union> blk order i" for z'
  proof (intro ballI, clarify)
    fix j q assume jq: "(j, q) \<in> held z" "blk q j \<inter> blk order i = {}"
    then show "(j, q) \<in> held z'"
      using that blk_head [of i order] by (intro held_frame [OF jq(1)]) (auto simp: z1_def set_page_def held_def)
  qed
  have z1: "listed z1 = listed z" "lists_inv z1" "cpu_head z1 = cpu_head z" "cpu_nr_pages z1 = cpu_nr_pages z"
    "cpu_max_nr_pages z1 = cpu_max_nr_pages z" "free_pages z1 = free_pages z" "zsize z1 = zsize z"
    "max_mapnr z1 = max_mapnr z" "zone_start_mapnr z1 = zone_start_mapnr z"
    using D(1) by (simp_all add: z1_def) (simp_all add: set_page_def)
  show ?thesis
  proof (cases "order = 0 \<and> cpu_nr_pages z1 < cpu_max_nr_pages z1 \<and> free_high z1 \<le> 0")
    case True
    let ?z = "z1\<lparr>cpu_head := i # cpu_head z1, cpu_nr_pages := cpu_nr_pages z1 + 1\<rparr>"
    have b: "blk order i = {i}" using True by (auto simp: blk_def)
    have i: "i \<notin> avail z" "i < zsize z" using H(3,4) True b by auto
    have av: "avail ?z = avail z \<union> blk order i" using z1 b by (auto simp: avail_def)
    have "zone_inv ?z"
      unfolding zone_inv_def av using D(1-9) z1 i clean by (intro conjI ballI) (auto simp: avail_def)
    then show ?thesis using True eq av fr [of ?z] z1 by simp
  next
    case False
    define z2 where "z2 = z1\<lparr>free_pages := u32 (free_pages z1 + 2 ^ order)\<rparr>"
    have "blk order i \<inter> listed z2 = {}" using H(4) z1 by (auto simp: z2_def avail_def)
    then obtain z' where m: "free_merge i (drop_bit (Suc order) i) order z2 = Inr z'" "lists_inv z'" "same_pages z2 z'"
      "listed z' = listed z \<union> blk order i"
      using free_merge_correct [of z2 order i] H(1-3) z1 by (auto simp: z2_def)
    have "card (listed z') = card (listed z) + 2 ^ order"
      unfolding m(4) using H(4) listed_range(2) [OF D(1)] by (subst card_Un_disjoint) (auto simp: avail_def)
    moreover have "card (listed z') \<le> zsize z"
      using listed_range(3) [OF m(2)] m(3) z1(7) by (simp add: same_pages_def z2_def)
    moreover have "u32 (int (card (listed z'))) = int (card (listed z'))"
      using \<open>card (listed z') \<le> zsize z\<close> D(8) by (intro u32_id) linarith+
    ultimately have fp: "free_pages z' = int (card (listed z'))"
      using m(3) z1(6) D(7) by (simp add: same_pages_def z2_def)
    have s: "cpu_head z' = cpu_head z" "cpu_nr_pages z' = cpu_nr_pages z" "cpu_max_nr_pages z' = cpu_max_nr_pages z"
      "zsize z' = zsize z" "max_mapnr z' = max_mapnr z" "zone_start_mapnr z' = zone_start_mapnr z" "mem_map z' = mem_map z1"
      using m(3) z1 by (simp_all add: same_pages_def z2_def)
    have av: "avail z' = avail z \<union> blk order i" using m(4) s by (auto simp: avail_def)
    have "zone_inv z'"
      unfolding zone_inv_def av using D(2-9) m(2,4) fp s clean H(4)
      by (intro conjI ballI) (auto simp: avail_def)
    moreover have "free_pages_count i order z = Inr z'"
      unfolding eq if_not_P [OF False] using m(1) by (simp add: z2_def)
    ultimately show ?thesis using av fr [of z'] s by simp
  qed
qed

subsection \<open>The page allocator interface\<close>

text \<open>
  What a client of the page allocator relies on: a block it gets is made of available pages
  and becomes unavailable, it stays held until it is returned, and returning it makes exactly
  its pages available again.
\<close>

locale page_allocator =
  fixes get_pages :: "int \<Rightarrow> nat \<Rightarrow> 'p \<Rightarrow> (nat option \<times> 'p) kres"
    and put_pages :: "nat \<Rightarrow> nat \<Rightarrow> 'p \<Rightarrow> 'p kres"
    and pavail :: "'p \<Rightarrow> nat set" and pheld :: "'p \<Rightarrow> (nat \<times> nat) set" and pinv :: "'p \<Rightarrow> bool"
  assumes get_total: "pinv p \<Longrightarrow> order < MAX_ORDER \<Longrightarrow> \<exists>r p'. get_pages flags order p = Inr (r, p')"
    and get_None: "pinv p \<Longrightarrow> order < MAX_ORDER \<Longrightarrow> get_pages flags order p = Inr (None, p') \<Longrightarrow> p' = p"
    and get_Some: "pinv p \<Longrightarrow> order < MAX_ORDER \<Longrightarrow> get_pages flags order p = Inr (Some i, p') \<Longrightarrow>
      pinv p' \<and> blk order i \<subseteq> pavail p \<and> pavail p' = pavail p - blk order i \<and>
      (i, order) \<in> pheld p' \<and> pheld p \<subseteq> pheld p'"
    and put_held: "pinv p \<Longrightarrow> (i, order) \<in> pheld p \<Longrightarrow>
      \<exists>p'. put_pages i order p = Inr p' \<and> pinv p' \<and> pavail p' = pavail p \<union> blk order i \<and>
        (\<forall>(j, q) \<in> pheld p. blk q j \<inter> blk order i = {} \<longrightarrow> (j, q) \<in> pheld p')"
    and held_unavail: "(i, order) \<in> pheld p \<Longrightarrow> blk order i \<inter> pavail p = {}"

interpretation buddy_zone: page_allocator "\<lambda>flags. rmqueue False" free_pages_count avail held zone_inv
proof
  fix z order flags res z' i
  assume z: "zone_inv z"
  { assume o: "order < MAX_ORDER"
    show "\<exists>r z'. rmqueue False order z = Inr (r, z')" using rmqueue_total [OF z o] .
    show "z' = z" if "rmqueue False order z = Inr (None, z')" using rmqueue_correct [OF z o that] by simp
    show "zone_inv z' \<and> blk order i \<subseteq> avail z \<and> avail z' = avail z - blk order i \<and> (i, order) \<in> held z' \<and> held z \<subseteq> held z'"
      if "rmqueue False order z = Inr (Some i, z')"
      using rmqueue_correct [OF z o that] by simp }
  show "\<exists>z'. free_pages_count i order z = Inr z' \<and> zone_inv z' \<and> avail z' = avail z \<union> blk order i \<and>
      (\<forall>(j, q) \<in> held z. blk q j \<inter> blk order i = {} \<longrightarrow> (j, q) \<in> held z')" if "(i, order) \<in> held z"
    using free_correct [OF z that] .
qed (simp add: held_def)

end
