(* ===== verification/Slab.thy ===== *)
theory Slab
  imports Buddy
begin

text \<open>
  The slab allocator of mm/slab.c as built here (one processor, no \<^verbatim>\<open>CONFIG_DEBUG_SLAB\<close>): the
  layout of caches, growing and shrinking them, \<^verbatim>\<open>kmem_cache_alloc\<close>, \<^verbatim>\<open>kmem_cache_free\<close>, \<^verbatim>\<open>kmalloc\<close>
  and \<^verbatim>\<open>kfree\<close>, over any page allocator. A slab is known by the address of its \<^verbatim>\<open>slab_t\<close>, a cache
  by a number; constructors and destructors are null, as they are for the general caches.
  The lemmas show that an allocated object is fresh and overlaps no other, that freeing one
  releases exactly it, and that no \<^verbatim>\<open>BUG()\<close> is reached.
\<close>

subsection \<open>Data\<close>

abbreviation (input) BUFCTL_END :: nat where "BUFCTL_END \<equiv> 4294967295"
abbreviation (input) SLAB_LIMIT :: nat where "SLAB_LIMIT \<equiv> 4294967294"
abbreviation (input) PAGE_SIZE :: nat where "PAGE_SIZE \<equiv> 4096"
abbreviation (input) L1_CACHE_BYTES :: nat where "L1_CACHE_BYTES \<equiv> 32"
abbreviation (input) GFP_DMA :: int where "GFP_DMA \<equiv> 1"
abbreviation (input) SLAB_ATOMIC :: int where "SLAB_ATOMIC \<equiv> 32"
abbreviation (input) GFP_KERNEL :: int where "GFP_KERNEL \<equiv> 496"
abbreviation (input) SLAB_LEVEL_MASK :: int where "SLAB_LEVEL_MASK \<equiv> 496"
abbreviation (input) SLAB_NO_GROW :: int where "SLAB_NO_GROW \<equiv> 4096"

record slab =
  colouroff :: nat
  s_mem :: nat
  inuse :: nat
  sfree :: nat
  bufctl :: "nat list"

record cache =
  slabs_full :: "nat list"
  slabs_partial :: "nat list"
  slabs_free :: "nat list"
  objsize :: nat
  off_slab :: bool
  num :: nat
  gfporder :: nat
  gfpflags :: int
  colour :: nat
  colour_off :: nat
  colour_next :: nat
  slabp_cache :: nat
  growing :: nat
  dflags :: int
  failures :: nat

text \<open>
  \<open>page_links\<close> is what \<^verbatim>\<open>SET_PAGE_CACHE\<close> and \<^verbatim>\<open>SET_PAGE_SLAB\<close> store in \<^verbatim>\<open>page->list\<close>, present for
  the pages with \<^verbatim>\<open>PG_slab\<close>; \<open>cache_sizes\<close> is the table of general caches.
\<close>

record 'p slab_mem =
  caches :: "nat \<Rightarrow> cache option"
  slabs :: "nat \<Rightarrow> slab option"
  page_links :: "nat \<Rightarrow> (nat \<times> nat) option"
  cache_sizes :: "(nat \<times> nat \<times> nat) list"
  pages :: 'p

definition page_address :: "nat \<Rightarrow> nat" where
  "page_address i = 3221225472 + i * PAGE_SIZE"

definition virt_to_page :: "nat \<Rightarrow> nat" where
  "virt_to_page a = (a - 3221225472) div PAGE_SIZE"

definition L1_CACHE_ALIGN :: "nat \<Rightarrow> nat" where
  "L1_CACHE_ALIGN x = (x + (L1_CACHE_BYTES - 1)) div L1_CACHE_BYTES * L1_CACHE_BYTES"

text \<open>The size of a slab's management data: \<^verbatim>\<open>sizeof(slab_t)\<close> is 24, \<^verbatim>\<open>sizeof(kmem_bufctl_t)\<close> is 4.\<close>

definition slab_size :: "nat \<Rightarrow> nat" where
  "slab_size n = L1_CACHE_ALIGN (n * 4 + 24)"

definition load_cache :: "nat \<Rightarrow> 'p slab_mem \<Rightarrow> cache kres" where
  "load_cache c m = (case caches m c of None \<Rightarrow> Inl WildDeref | Some ca \<Rightarrow> Inr ca)"

definition load_slab :: "nat \<Rightarrow> 'p slab_mem \<Rightarrow> slab kres" where
  "load_slab s m = (case slabs m s of None \<Rightarrow> Inl WildDeref | Some sl \<Rightarrow> Inr sl)"

definition store_cache :: "nat \<Rightarrow> cache \<Rightarrow> 'p slab_mem \<Rightarrow> 'p slab_mem" where
  "store_cache c ca m = m\<lparr>caches := (caches m)(c \<mapsto> ca)\<rparr>"

definition store_slab :: "nat \<Rightarrow> slab \<Rightarrow> 'p slab_mem \<Rightarrow> 'p slab_mem" where
  "store_slab s sl m = m\<lparr>slabs := (slabs m)(s \<mapsto> sl)\<rparr>"

text \<open>\<^verbatim>\<open>list_del(&slabp->list)\<close>: the slab leaves whichever list it is on.\<close>

definition list_del_slab :: "nat \<Rightarrow> cache \<Rightarrow> cache" where
  "list_del_slab s ca = ca\<lparr>slabs_full := remove1 s (slabs_full ca),
     slabs_partial := remove1 s (slabs_partial ca), slabs_free := remove1 s (slabs_free ca)\<rparr>"

subsection \<open>Cache layout: \<^verbatim>\<open>kmem_cache_estimate\<close> and \<^verbatim>\<open>kmem_cache_create\<close>\<close>

text \<open>The counting loop; it does not end for \<^verbatim>\<open>size = 0\<close> off slab.\<close>

partial_function (option) estimate_loop :: "nat \<Rightarrow> nat \<Rightarrow> nat \<Rightarrow> nat \<Rightarrow> nat \<Rightarrow> nat option" where
  "estimate_loop size' base extra wastage i =
     (if i * size' + L1_CACHE_ALIGN (base + i * extra) \<le> wastage
      then estimate_loop size' base extra wastage (i + 1) else Some i)"

definition kmem_cache_estimate :: "nat \<Rightarrow> nat \<Rightarrow> bool \<Rightarrow> (nat \<times> nat) kres" where
  "kmem_cache_estimate order size' off =
     (let wastage = PAGE_SIZE * 2 ^ order;
          base = (if off then 0 else 24);
          extra = (if off then 0 else 4)
      in case estimate_loop size' base extra wastage 0 of
           None \<Rightarrow> Inl Fuel
         | Some i0 \<Rightarrow>
             let i1 = (if i0 > 0 then i0 - 1 else i0);
                 i = (if i1 > SLAB_LIMIT then SLAB_LIMIT else i1)
             in Inr (wastage - i * size' - L1_CACHE_ALIGN (base + i * extra), i))"

text \<open>
  The search for a page order, with \<open>k\<close> orders left below \<^verbatim>\<open>MAX_GFP_ORDER\<close>; the result is the
  order, the bytes left over and the number of objects.
\<close>

fun cal_order :: "nat \<Rightarrow> nat \<Rightarrow> bool \<Rightarrow> nat \<Rightarrow> nat \<Rightarrow> nat \<Rightarrow> (nat \<times> nat \<times> nat) kres" where
  "cal_order k size' off limit break_order order =
     kbind (kmem_cache_estimate order size' off) (\<lambda>(left_over, n).
       case k of
         0 \<Rightarrow> Inr (order, left_over, n)
       | Suc k' \<Rightarrow>
           if n = 0 then cal_order k' size' off limit break_order (order + 1)
           else if off \<and> n > limit then
             (if order = 0 then Inl OutOfRange
              else kbind (kmem_cache_estimate (order - 1) size' off) (\<lambda>(l, n). Inr (order - 1, l, n)))
           else if order \<ge> break_order then Inr (order, left_over, n)
           else if left_over * 8 \<le> PAGE_SIZE * 2 ^ order then Inr (order, left_over, n)
           else cal_order k' size' off limit break_order (order + 1))"

declare cal_order.simps [simp del]

fun halve_align :: "nat \<Rightarrow> nat \<Rightarrow> nat" where
  "halve_align size' align = (if 0 < align \<and> size' < align div 2 then halve_align size' (align div 2) else align)"

declare halve_align.simps [simp del]

text \<open>Rounding the size to whole words, the alignment, and the size rounded to it.\<close>

definition word_size :: "nat \<Rightarrow> nat" where
  "word_size size0 = (if size0 mod 4 \<noteq> 0 then (size0 + 3) div 4 * 4 else size0)"

definition create_align :: "bool \<Rightarrow> nat \<Rightarrow> nat" where
  "create_align hwalign size1 = (if hwalign then halve_align size1 L1_CACHE_BYTES else 4)"

definition aligned_size :: "bool \<Rightarrow> nat \<Rightarrow> nat" where
  "aligned_size hwalign size1 =
     (if hwalign then (size1 + create_align hwalign size1 - 1) div create_align hwalign size1 * create_align hwalign size1
      else size1)"

text \<open>
  The fields of the new cache: the management moves onto the slab when the bytes left over hold
  it; the rest is for colouring.
\<close>

definition layout_cache :: "(nat \<Rightarrow> nat) \<Rightarrow> bool \<Rightarrow> nat \<Rightarrow> nat \<Rightarrow> nat \<Rightarrow> bool \<Rightarrow> nat \<Rightarrow> nat \<Rightarrow> nat \<Rightarrow> cache" where
  "layout_cache find_general off0 align size2 offset0 dma order left0 n =
     (let ssize = slab_size n;
          onto = (off0 \<and> left0 \<ge> ssize);
          off = (off0 \<and> \<not> onto);
          left_over = (if onto then left0 - ssize else left0);
          offset1 = (offset0 + (align - 1)) div align * align;
          offset = (if offset1 = 0 then L1_CACHE_BYTES else offset1)
      in \<lparr>slabs_full = [], slabs_partial = [], slabs_free = [], objsize = size2,
          off_slab = off, num = n, gfporder = order, gfpflags = (if dma then GFP_DMA else 0),
          colour = left_over div offset, colour_off = offset, colour_next = 0,
          slabp_cache = (if off then find_general ssize else 0), growing = 0, dflags = 0,
          failures = 0\<rparr>)"

text \<open>
  \<^verbatim>\<open>kmem_cache_create\<close> without the allocation of the descriptor and the entry in the cache
  chain: the checks on the arguments, alignment, page order, placement of the slab
  management and colouring. \<open>find_general\<close> is \<^verbatim>\<open>kmem_find_general_cachep\<close>.
\<close>

definition kmem_cache_layout ::
  "(nat \<Rightarrow> nat) \<Rightarrow> nat \<Rightarrow> nat \<Rightarrow> nat \<Rightarrow> nat \<Rightarrow> bool \<Rightarrow> bool \<Rightarrow> cache option kres" where
  "kmem_cache_layout find_general limit break_order size0 offset0 hwalign dma =
     (if size0 < 4 \<or> size0 > 2 ^ 5 * PAGE_SIZE \<or> offset0 > size0 then Inl BUG
      else
       let size1 = word_size size0;
           off0 = (size1 \<ge> PAGE_SIZE div 8);
           size2 = aligned_size hwalign size1
       in kbind (cal_order 5 size2 off0 limit break_order 0) (\<lambda>(order, left0, n).
              if n = 0 then Inr None
              else Inr (Some (layout_cache find_general off0 (create_align hwalign size1) size2 offset0 dma order left0 n))))"

subsection \<open>Growing a cache\<close>

text \<open>
  \<open>gp\<close> and \<open>pp\<close> are \<^verbatim>\<open>__get_free_pages\<close> and \<^verbatim>\<open>free_pages\<close> of the page allocator, on page indexes;
  \<open>irq\<close> is \<^verbatim>\<open>in_interrupt()\<close>.
\<close>

type_synonym 'p get_pages_fn = "int \<Rightarrow> nat \<Rightarrow> 'p \<Rightarrow> (nat option \<times> 'p) kres"
type_synonym 'p put_pages_fn = "nat \<Rightarrow> nat \<Rightarrow> 'p \<Rightarrow> 'p kres"
type_synonym 'p alloc_fn = "int \<Rightarrow> nat \<Rightarrow> 'p slab_mem \<Rightarrow> (nat option \<times> 'p slab_mem) kres"

definition kmem_getpages ::
  "'p get_pages_fn \<Rightarrow> int \<Rightarrow> cache \<Rightarrow> 'p slab_mem \<Rightarrow> (nat option \<times> 'p slab_mem) kres" where
  "kmem_getpages gp flags ca m =
     kbind (gp (flags OR gfpflags ca) (gfporder ca) (pages m)) (\<lambda>(r, p). Inr (r, m\<lparr>pages := p\<rparr>))"

definition kmem_freepages :: "'p put_pages_fn \<Rightarrow> cache \<Rightarrow> nat \<Rightarrow> 'p slab_mem \<Rightarrow> 'p slab_mem kres" where
  "kmem_freepages pp ca i m =
     kbind (pp i (gfporder ca) (pages m)) (\<lambda>p.
       Inr (m\<lparr>pages := p, page_links := (\<lambda>j. if j \<in> {i ..< i + 2 ^ gfporder ca} then None else page_links m j)\<rparr>))"

definition kmem_cache_slabmgmt ::
  "'p alloc_fn \<Rightarrow> cache \<Rightarrow> nat \<Rightarrow> nat \<Rightarrow> int \<Rightarrow> 'p slab_mem \<Rightarrow> ((nat \<times> slab) option \<times> 'p slab_mem) kres" where
  "kmem_cache_slabmgmt alloc ca objp colour_offset local_flags m =
     (if off_slab ca then
        kbind (alloc local_flags (slabp_cache ca) m) (\<lambda>(r, m1).
          case r of
            None \<Rightarrow> Inr (None, m1)
          | Some slabp \<Rightarrow> Inr (Some (slabp, \<lparr>colouroff = colour_offset, s_mem = objp + colour_offset,
                             inuse = 0, sfree = 0, bufctl = []\<rparr>), m1))
      else
        let slabp = objp + colour_offset;
            colour_off1 = colour_offset + slab_size (num ca)
        in Inr (Some (slabp, \<lparr>colouroff = colour_off1, s_mem = objp + colour_off1,
                  inuse = 0, sfree = 0, bufctl = []\<rparr>), m))"

definition kmem_cache_init_objs :: "cache \<Rightarrow> slab \<Rightarrow> slab" where
  "kmem_cache_init_objs ca sl =
     sl\<lparr>bufctl := (map Suc [0..<num ca])[num ca - 1 := BUFCTL_END], sfree := 0\<rparr>"

definition set_page_links :: "nat \<Rightarrow> nat \<Rightarrow> nat \<Rightarrow> nat \<Rightarrow> 'p slab_mem \<Rightarrow> 'p slab_mem" where
  "set_page_links i order c s m = m\<lparr>page_links :=
     (\<lambda>j. if j \<in> {i ..< i + 2 ^ order} then Some (c, s) else page_links m j)\<rparr>"

definition kmem_cache_grow ::
  "'p get_pages_fn \<Rightarrow> 'p put_pages_fn \<Rightarrow> 'p alloc_fn \<Rightarrow> bool \<Rightarrow> int \<Rightarrow> nat \<Rightarrow> 'p slab_mem \<Rightarrow>
     (bool \<times> 'p slab_mem) kres" where
  "kmem_cache_grow gp pp alloc irq flags c m =
     (if flags AND NOT (GFP_DMA OR SLAB_LEVEL_MASK OR SLAB_NO_GROW) \<noteq> 0 then Inl BUG
      else if flags AND SLAB_NO_GROW \<noteq> 0 then Inr (False, m)
      else if irq \<and> flags AND SLAB_LEVEL_MASK \<noteq> SLAB_ATOMIC then Inl BUG
      else kbind (load_cache c m) (\<lambda>ca.
        let local_flags = flags AND SLAB_LEVEL_MASK;
            offset = colour_next ca * colour_off ca;
            next = (if colour_next ca + 1 \<ge> colour ca then 0 else colour_next ca + 1);
            ca1 = ca\<lparr>colour_next := next, dflags := dflags ca OR 1, growing := growing ca + 1\<rparr>;
            m1 = store_cache c ca1 m
        in kbind (kmem_getpages gp flags ca1 m1) (\<lambda>(r, m2).
          case r of
            None \<Rightarrow> Inr (False, store_cache c (ca1\<lparr>growing := growing ca1 - 1\<rparr>) m2)
          | Some i \<Rightarrow>
              kbind (kmem_cache_slabmgmt alloc ca1 (page_address i) offset local_flags m2) (\<lambda>(r, m3).
                kbind (load_cache c m3) (\<lambda>ca3.
                  case r of
                    None \<Rightarrow>
                      kbind (kmem_freepages pp ca1 i m3) (\<lambda>m4.
                        Inr (False, store_cache c (ca3\<lparr>growing := growing ca3 - 1\<rparr>) m4))
                  | Some (s, sl) \<Rightarrow>
                      let m4 = set_page_links i (gfporder ca1) c s m3;
                          m5 = store_slab s (kmem_cache_init_objs ca1 sl) m4;
                          ca5 = ca3\<lparr>growing := growing ca3 - 1, slabs_free := slabs_free ca3 @ [s], failures := 0\<rparr>
                      in Inr (True, store_cache c ca5 m5))))))"

subsection \<open>Allocating objects\<close>

definition kmem_cache_alloc_head :: "int \<Rightarrow> nat \<Rightarrow> 'p slab_mem \<Rightarrow> unit kres" where
  "kmem_cache_alloc_head flags c m =
     kbind (load_cache c m) (\<lambda>ca.
       if flags AND GFP_DMA \<noteq> 0
       then (if gfpflags ca AND GFP_DMA = 0 then Inl BUG else Inr ())
       else (if gfpflags ca AND GFP_DMA \<noteq> 0 then Inl BUG else Inr ()))"

definition kmem_cache_alloc_one_tail :: "nat \<Rightarrow> nat \<Rightarrow> 'p slab_mem \<Rightarrow> (nat \<times> 'p slab_mem) kres" where
  "kmem_cache_alloc_one_tail c s m =
     kbind (load_cache c m) (\<lambda>ca. kbind (load_slab s m) (\<lambda>sl.
       if sfree sl < length (bufctl sl) then
         let objp = s_mem sl + sfree sl * objsize ca;
             sl1 = sl\<lparr>inuse := inuse sl + 1, sfree := bufctl sl ! sfree sl\<rparr>;
             ca1 = (if sfree sl1 = BUFCTL_END
                    then (list_del_slab s ca)\<lparr>slabs_full := s # slabs_full (list_del_slab s ca)\<rparr> else ca)
         in Inr (objp, store_cache c ca1 (store_slab s sl1 m))
       else Inl OutOfRange))"

text \<open>\<open>None\<close> is the jump to \<^verbatim>\<open>alloc_new_slab\<close>.\<close>

definition kmem_cache_alloc_one :: "nat \<Rightarrow> 'p slab_mem \<Rightarrow> (nat \<times> 'p slab_mem) option kres" where
  "kmem_cache_alloc_one c m =
     kbind (load_cache c m) (\<lambda>ca.
       case slabs_partial ca of
         s # _ \<Rightarrow> kbind (kmem_cache_alloc_one_tail c s m) (Inr \<circ> Some)
       | [] \<Rightarrow>
           (case slabs_free ca of
              [] \<Rightarrow> Inr None
            | s # _ \<Rightarrow>
                let ca0 = list_del_slab s ca; ca1 = ca0\<lparr>slabs_partial := s # slabs_partial ca0\<rparr>
                in kbind (kmem_cache_alloc_one_tail c s (store_cache c ca1 m)) (Inr \<circ> Some)))"

text \<open>
  The loop at \<^verbatim>\<open>try_again\<close>. \<open>fuel\<close> bounds the number of rounds and of nested allocations: growing a
  cache whose slab management is off slab allocates from a general cache.
\<close>

fun alloc_try ::
  "nat \<Rightarrow> 'p get_pages_fn \<Rightarrow> 'p put_pages_fn \<Rightarrow> bool \<Rightarrow> 'p alloc_fn" where
  "alloc_try 0 gp pp irq flags c m = Inl Fuel"
| "alloc_try (Suc fuel) gp pp irq flags c m =
     kbind (kmem_cache_alloc_one c m) (\<lambda>r.
       case r of
         Some (objp, m1) \<Rightarrow> Inr (Some objp, m1)
       | None \<Rightarrow>
           kbind (kmem_cache_grow gp pp
               (\<lambda>flags c m. kbind (kmem_cache_alloc_head flags c m) (\<lambda>_. alloc_try fuel gp pp irq flags c m))
               irq flags c m) (\<lambda>(grown, m1).
             if grown then alloc_try fuel gp pp irq flags c m1 else Inr (None, m1)))"

declare alloc_try.simps [simp del]

definition kmem_cache_alloc :: "'p get_pages_fn \<Rightarrow> 'p put_pages_fn \<Rightarrow> bool \<Rightarrow> 'p alloc_fn" where
  "kmem_cache_alloc gp pp irq flags c m =
     kbind (kmem_cache_alloc_head flags c m) (\<lambda>_. alloc_try 3 gp pp irq flags c m)"

fun find_general :: "nat \<Rightarrow> (nat \<times> nat \<times> nat) list \<Rightarrow> (nat \<times> nat) option" where
  "find_general n [] = None"
| "find_general n ((cs_size, cs_cachep, cs_dmacachep) # rest) =
     (if n > cs_size then find_general n rest else Some (cs_cachep, cs_dmacachep))"

definition kmalloc_flags ::
  "'p get_pages_fn \<Rightarrow> 'p put_pages_fn \<Rightarrow> bool \<Rightarrow> int \<Rightarrow> nat \<Rightarrow> 'p slab_mem \<Rightarrow> (nat option \<times> 'p slab_mem) kres" where
  "kmalloc_flags gp pp irq flags n m =
     (case find_general n (cache_sizes m) of
        None \<Rightarrow> Inr (None, m)
      | Some (cachep, dmacachep) \<Rightarrow>
          kmem_cache_alloc gp pp irq flags (if flags AND GFP_DMA \<noteq> 0 then dmacachep else cachep) m)"

subsection \<open>Freeing objects and slabs\<close>

definition kmem_cache_free_one :: "nat \<Rightarrow> nat \<Rightarrow> 'p slab_mem \<Rightarrow> 'p slab_mem kres" where
  "kmem_cache_free_one c objp m =
     (case page_links m (virt_to_page objp) of
        None \<Rightarrow> Inl WildDeref
      | Some (_, s) \<Rightarrow>
          kbind (load_cache c m) (\<lambda>ca. kbind (load_slab s m) (\<lambda>sl.
            let objnr = (objp - s_mem sl) div objsize ca
            in if objnr < length (bufctl sl) then
                 let sl1 = sl\<lparr>bufctl := (bufctl sl)[objnr := sfree sl], sfree := objnr,
                             inuse := (if inuse sl = 0 then 4294967295 else inuse sl - 1)\<rparr>;
                     ca0 = list_del_slab s ca;
                     ca1 = (if inuse sl1 = 0 then ca0\<lparr>slabs_free := s # slabs_free ca0\<rparr>
                            else if inuse sl = num ca then ca0\<lparr>slabs_partial := s # slabs_partial ca0\<rparr>
                            else ca)
                 in Inr (store_cache c ca1 (store_slab s sl1 m))
               else Inl OutOfRange)))"

definition kfree_obj :: "nat \<Rightarrow> 'p slab_mem \<Rightarrow> 'p slab_mem kres" where
  "kfree_obj objp m =
     (if objp = 0 then Inr m
      else case page_links m (virt_to_page objp) of
             None \<Rightarrow> Inl WildDeref
           | Some (c, _) \<Rightarrow> kmem_cache_free_one c objp m)"

definition kmem_slab_destroy :: "'p put_pages_fn \<Rightarrow> nat \<Rightarrow> nat \<Rightarrow> 'p slab_mem \<Rightarrow> 'p slab_mem kres" where
  "kmem_slab_destroy pp c s m =
     kbind (load_cache c m) (\<lambda>ca. kbind (load_slab s m) (\<lambda>sl.
       kbind (kmem_freepages pp ca (virt_to_page (s_mem sl - colouroff sl)) m) (\<lambda>m1.
         let m2 = m1\<lparr>slabs := (slabs m1)(s := None)\<rparr>
         in if off_slab ca then kmem_cache_free_one (slabp_cache ca) s m2 else Inr m2)))"

text \<open>
  \<^verbatim>\<open>__kmem_cache_shrink_locked\<close>: free slabs are destroyed from the tail of the list; the bound is the
  number of free slabs at the start.
\<close>

fun kmem_cache_shrink_locked ::
  "nat \<Rightarrow> 'p put_pages_fn \<Rightarrow> nat \<Rightarrow> nat \<Rightarrow> 'p slab_mem \<Rightarrow> (nat \<times> 'p slab_mem) kres" where
  "kmem_cache_shrink_locked k pp ret c m =
     kbind (load_cache c m) (\<lambda>ca.
       if growing ca \<noteq> 0 \<or> slabs_free ca = [] then Inr (ret, m)
       else case k of
         0 \<Rightarrow> Inl Fuel
       | Suc k' \<Rightarrow>
           let s = last (slabs_free ca); m1 = store_cache c (list_del_slab s ca) m
           in kbind (kmem_slab_destroy pp c s m1) (kmem_cache_shrink_locked k' pp (ret + 1) c))"

declare kmem_cache_shrink_locked.simps [simp del]

lemmas slab_defs = load_cache_def load_slab_def store_cache_def store_slab_def

subsection \<open>Free lists inside a slab\<close>

fun chain :: "nat list \<Rightarrow> nat \<Rightarrow> nat list \<Rightarrow> bool" where
  "chain bc f [] \<longleftrightarrow> f = BUFCTL_END"
| "chain bc f (x # xs) \<longleftrightarrow> f = x \<and> x < length bc \<and> chain bc (bc ! x) xs"

fun walk :: "nat \<Rightarrow> nat list \<Rightarrow> nat \<Rightarrow> nat list" where
  "walk 0 bc f = []"
| "walk (Suc n) bc f = (if f < length bc then f # walk n bc (bc ! f) else [])"

definition freelist :: "slab \<Rightarrow> nat list" where
  "freelist sl = walk (length (bufctl sl)) (bufctl sl) (sfree sl)"

lemma walk_chain:
  "chain bc f xs \<Longrightarrow> length bc \<le> BUFCTL_END \<Longrightarrow> length xs \<le> n \<Longrightarrow> walk n bc f = xs"
proof (induction xs arbitrary: n f)
  case Nil
  then show ?case by (cases n) auto
next
  case (Cons x xs)
  then show ?case by (cases n) auto
qed

lemma chain_bound: "chain bc f xs \<Longrightarrow> set xs \<subseteq> {..<length bc}"
  by (induction xs arbitrary: f) auto

lemma chain_length: "chain bc f xs \<Longrightarrow> distinct xs \<Longrightarrow> length xs \<le> length bc"
  using card_mono [OF _ chain_bound [of bc f xs]] by (simp add: distinct_card)

lemma chain_update: "chain bc f xs \<Longrightarrow> i \<notin> set xs \<Longrightarrow> chain (bc[i := v]) f xs"
  by (induction xs arbitrary: f) auto

lemma freelist_chain:
  assumes "chain (bufctl sl) (sfree sl) xs" "distinct xs" "length (bufctl sl) \<le> BUFCTL_END"
  shows "freelist sl = xs"
  using walk_chain [OF assms(1,3)] chain_length [OF assms(1,2)] by (simp add: freelist_def)

lemma chain_fresh:
  assumes "0 < n"
  shows "i \<le> n - 1 \<Longrightarrow> chain ((map Suc [0..<n])[n - 1 := BUFCTL_END]) i [i..<n]"
proof (induction "n - 1 - i" arbitrary: i)
  case 0
  then have "i = n - 1" "[i..<n] = [n - 1]" using assms by (simp_all add: upt_conv_Cons)
  then show ?case using assms by simp
next
  case (Suc d)
  then have i: "i < n - 1" "[i..<n] = i # [Suc i..<n]" by (auto simp: upt_conv_Cons)
  then show ?case using Suc(1) [of "Suc i"] Suc(2) by simp
qed

subsection \<open>Invariant\<close>

definition all_slabs :: "cache \<Rightarrow> nat list" where
  "all_slabs ca = slabs_full ca @ slabs_partial ca @ slabs_free ca"

definition cache_ok :: "cache \<Rightarrow> bool" where
  "cache_ok ca \<longleftrightarrow> 0 < objsize ca \<and> 0 < num ca \<and> num ca < BUFCTL_END \<and> gfporder ca < MAX_ORDER \<and>
     (colour_next ca = 0 \<or> colour_next ca < colour ca) \<and>
     (if off_slab ca then 0 else slab_size (num ca)) + num ca * objsize ca + colour ca * colour_off ca
       \<le> PAGE_SIZE * 2 ^ gfporder ca"

definition slab_base :: "slab \<Rightarrow> nat" where
  "slab_base sl = virt_to_page (s_mem sl - colouroff sl)"

definition sblk :: "cache \<Rightarrow> slab \<Rightarrow> nat set" where
  "sblk ca sl = blk (gfporder ca) (slab_base sl)"

definition obj_addr :: "cache \<Rightarrow> slab \<Rightarrow> nat \<Rightarrow> nat" where
  "obj_addr ca sl k = s_mem sl + k * objsize ca"

definition slab_ok :: "cache \<Rightarrow> nat \<Rightarrow> slab \<Rightarrow> bool" where
  "slab_ok ca s sl \<longleftrightarrow>
     length (bufctl sl) = num ca \<and> chain (bufctl sl) (sfree sl) (freelist sl) \<and> distinct (freelist sl) \<and>
     inuse sl + length (freelist sl) = num ca \<and>
     s_mem sl = page_address (slab_base sl) + colouroff sl \<and>
     colouroff sl + num ca * objsize ca \<le> PAGE_SIZE * 2 ^ gfporder ca \<and>
     (\<not> off_slab ca \<longrightarrow> page_address (slab_base sl) \<le> s \<and> s < s_mem sl) \<and>
     (s \<in> set (slabs_full ca) \<longleftrightarrow> freelist sl = []) \<and> (s \<in> set (slabs_free ca) \<longleftrightarrow> inuse sl = 0)"

definition slab_in :: "'p slab_mem \<Rightarrow> nat \<Rightarrow> cache \<Rightarrow> nat \<Rightarrow> slab \<Rightarrow> bool" where
  "slab_in m c ca s sl \<longleftrightarrow> caches m c = Some ca \<and> s \<in> set (all_slabs ca) \<and> slabs m s = Some sl"

text \<open>The allocated objects of a cache, and those among them that hold the management of a slab.\<close>

definition objs_of :: "'p slab_mem \<Rightarrow> nat \<Rightarrow> nat set" where
  "objs_of m c = {obj_addr ca sl k |ca s sl k. slab_in m c ca s sl \<and> k < num ca \<and> k \<notin> set (freelist sl)}"

definition objs :: "'p slab_mem \<Rightarrow> nat set" where
  "objs m = (\<Union>c. objs_of m c)"

definition mgmt :: "'p slab_mem \<Rightarrow> nat set" where
  "mgmt m = {s. \<exists>c ca. caches m c = Some ca \<and> off_slab ca \<and> s \<in> set (all_slabs ca)}"

definition live :: "'p slab_mem \<Rightarrow> nat set" where
  "live m = objs m - mgmt m"

definition slab_inv :: "('p \<Rightarrow> bool) \<Rightarrow> ('p \<Rightarrow> (nat \<times> nat) set) \<Rightarrow> 'p slab_mem \<Rightarrow> bool" where
  "slab_inv pinv pheld m \<longleftrightarrow> pinv (pages m) \<and>
     (\<forall>c ca. caches m c = Some ca \<longrightarrow> cache_ok ca \<and> distinct (all_slabs ca) \<and>
        (off_slab ca \<longrightarrow> (\<exists>ca'. caches m (slabp_cache ca) = Some ca' \<and> \<not> off_slab ca' \<and> gfpflags ca' AND GFP_DMA = 0))) \<and>
     (\<forall>c ca s. caches m c = Some ca \<longrightarrow> s \<in> set (all_slabs ca) \<longrightarrow> slabs m s \<noteq> None) \<and>
     (\<forall>c ca s sl. slab_in m c ca s sl \<longrightarrow> slab_ok ca s sl \<and> (slab_base sl, gfporder ca) \<in> pheld (pages m) \<and>
        (\<forall>j \<in> sblk ca sl. page_links m j = Some (c, s)) \<and> (off_slab ca \<longrightarrow> s \<in> objs_of m (slabp_cache ca)))"

lemma slab_invD:
  assumes "slab_inv pinv pheld m"
  shows "pinv (pages m)"
    and "caches m c = Some ca \<Longrightarrow> cache_ok ca"
    and "caches m c = Some ca \<Longrightarrow> distinct (all_slabs ca)"
    and "caches m c = Some ca \<Longrightarrow> off_slab ca \<Longrightarrow>
      \<exists>ca'. caches m (slabp_cache ca) = Some ca' \<and> \<not> off_slab ca' \<and> gfpflags ca' AND GFP_DMA = 0"
    and "slab_in m c ca s sl \<Longrightarrow> slab_ok ca s sl"
    and "slab_in m c ca s sl \<Longrightarrow> (slab_base sl, gfporder ca) \<in> pheld (pages m)"
    and "slab_in m c ca s sl \<Longrightarrow> j \<in> sblk ca sl \<Longrightarrow> page_links m j = Some (c, s)"
    and "slab_in m c ca s sl \<Longrightarrow> off_slab ca \<Longrightarrow> s \<in> objs_of m (slabp_cache ca)"
    and "caches m c = Some ca \<Longrightarrow> s \<in> set (all_slabs ca) \<Longrightarrow> \<exists>sl. slab_in m c ca s sl"
proof -
  show "caches m c = Some ca \<Longrightarrow> s \<in> set (all_slabs ca) \<Longrightarrow> \<exists>sl. slab_in m c ca s sl"
    using assms unfolding slab_inv_def slab_in_def by blast
qed (use assms in \<open>simp_all add: slab_inv_def\<close>)

lemma slab_invI:
  assumes "pinv (pages m)"
    and "\<And>c ca. caches m c = Some ca \<Longrightarrow> cache_ok ca \<and> distinct (all_slabs ca)"
    and "\<And>c ca. caches m c = Some ca \<Longrightarrow> off_slab ca \<Longrightarrow>
      \<exists>ca'. caches m (slabp_cache ca) = Some ca' \<and> \<not> off_slab ca' \<and> gfpflags ca' AND GFP_DMA = 0"
    and "\<And>c ca s. caches m c = Some ca \<Longrightarrow> s \<in> set (all_slabs ca) \<Longrightarrow> slabs m s \<noteq> None"
    and "\<And>c ca s sl. slab_in m c ca s sl \<Longrightarrow> slab_ok ca s sl \<and> (slab_base sl, gfporder ca) \<in> pheld (pages m)"
    and "\<And>c ca s sl j. slab_in m c ca s sl \<Longrightarrow> j \<in> sblk ca sl \<Longrightarrow> page_links m j = Some (c, s)"
    and "\<And>c ca s sl. slab_in m c ca s sl \<Longrightarrow> off_slab ca \<Longrightarrow> s \<in> objs_of m (slabp_cache ca)"
  shows "slab_inv pinv pheld m"
  using assms by (simp add: slab_inv_def)

lemma objs_ofI: "slab_in m c ca s sl \<Longrightarrow> k < num ca \<Longrightarrow> k \<notin> set (freelist sl) \<Longrightarrow> obj_addr ca sl k \<in> objs_of m c"
  by (auto simp: objs_of_def)

lemma objs_ofE:
  assumes "a \<in> objs_of m c"
  obtains ca s sl k where "slab_in m c ca s sl" "k < num ca" "k \<notin> set (freelist sl)" "a = obj_addr ca sl k"
  using assms by (auto simp: objs_of_def)

text \<open>Where an object lies: on a page of its slab's block, at its index.\<close>

lemma block_page:
  assumes "x < PAGE_SIZE * 2 ^ order"
  shows "virt_to_page (page_address b + x) \<in> blk order b"
proof -
  have "virt_to_page (page_address b + x) = b + x div PAGE_SIZE"
    by (simp add: virt_to_page_def page_address_def)
  moreover have "x div PAGE_SIZE < 2 ^ order" using assms by (simp add: less_mult_imp_div_less mult.commute)
  ultimately show ?thesis by (simp add: blk_def)
qed

lemma obj_offset:
  assumes "slab_ok ca s sl" "cache_ok ca" "k < num ca"
  shows "colouroff sl + k * objsize ca + objsize ca \<le> PAGE_SIZE * 2 ^ gfporder ca"
proof -
  have "(k + 1) * objsize ca \<le> num ca * objsize ca" using assms(3) by (intro mult_right_mono) auto
  then show ?thesis using assms(1) by (simp add: slab_ok_def algebra_simps)
qed

lemma obj_page:
  assumes "slab_ok ca s sl" "cache_ok ca" "k < num ca"
  shows "virt_to_page (obj_addr ca sl k) \<in> sblk ca sl"
proof -
  have "obj_addr ca sl k = page_address (slab_base sl) + (colouroff sl + k * objsize ca)"
    using assms(1) by (simp add: slab_ok_def obj_addr_def)
  moreover have "colouroff sl + k * objsize ca < PAGE_SIZE * 2 ^ gfporder ca"
    using obj_offset [OF assms] assms(2) by (simp add: cache_ok_def)
  ultimately show ?thesis by (simp only: sblk_def block_page)
qed

lemma slab_base_eq: "slab_base \<lparr>colouroff = x, s_mem = page_address i + x, inuse = n, sfree = f, bufctl = b\<rparr> = i"
  by (simp add: slab_base_def virt_to_page_def page_address_def)

lemma obj_unique:
  assumes inv: "slab_inv pinv pheld m"
    and a: "slab_in m c ca s sl" "k < num ca" and b: "slab_in m c' ca' s' sl'" "k' < num ca'"
    and eq: "obj_addr ca sl k = obj_addr ca' sl' k'"
  shows "c' = c \<and> s' = s \<and> k' = k \<and> ca' = ca \<and> sl' = sl"
proof -
  note D = slab_invD [OF inv]
  have ok: "slab_ok ca s sl" "cache_ok ca" "slab_ok ca' s' sl'" "cache_ok ca'"
    using D(2,5) a(1) b(1) by (auto simp: slab_in_def)
  have "page_links m (virt_to_page (obj_addr ca sl k)) = Some (c, s)"
    "page_links m (virt_to_page (obj_addr ca sl k)) = Some (c', s')"
    using D(7) [OF a(1) obj_page [OF ok(1,2) a(2)]] D(7) [OF b(1) obj_page [OF ok(3,4) b(2)]] eq by simp_all
  then have cs: "c' = c" "s' = s" by simp_all
  then have "ca' = ca" "sl' = sl" using a(1) b(1) by (simp_all add: slab_in_def)
  moreover from this have "k' = k" using eq ok(2) by (simp add: obj_addr_def cache_ok_def)
  ultimately show ?thesis using cs by simp
qed

lemma free_not_obj:
  assumes inv: "slab_inv pinv pheld m" and a: "slab_in m c ca s sl" "k < num ca" "k \<in> set (freelist sl)"
  shows "obj_addr ca sl k \<notin> objs m"
proof
  assume "obj_addr ca sl k \<in> objs m"
  then obtain c2 where "obj_addr ca sl k \<in> objs_of m c2" by (auto simp: objs_def)
  then obtain ca' s' sl' k' where b: "slab_in m c2 ca' s' sl'" "k' < num ca'" "k' \<notin> set (freelist sl')"
    "obj_addr ca sl k = obj_addr ca' sl' k'" by (rule objs_ofE)
  show False using obj_unique [OF inv a(1,2) b(1,2,4)] a(3) b(3) by simp
qed

lemma slab_unique:
  assumes inv: "slab_inv pinv pheld m" and a: "slab_in m c ca s sl" and b: "slab_in m c' ca' s sl'"
  shows "c' = c"
proof -
  have sl: "sl' = sl" using a b by (simp add: slab_in_def)
  have "slab_base sl \<in> sblk ca sl" "slab_base sl \<in> sblk ca' sl" by (simp_all add: sblk_def)
  then show ?thesis using slab_invD(7) [OF inv a] slab_invD(7) [OF inv b] sl by fastforce
qed

lemma mgmt_objs: "slab_inv pinv pheld m \<Longrightarrow> mgmt m \<subseteq> objs m"
  using slab_invD(8,9) by (fastforce simp: mgmt_def objs_def)

text \<open>A block of pages that no slab uses.\<close>

definition spare :: "('p \<Rightarrow> (nat \<times> nat) set) \<Rightarrow> 'p slab_mem \<Rightarrow> nat \<Rightarrow> nat \<Rightarrow> bool" where
  "spare pheld m i order \<longleftrightarrow> (i, order) \<in> pheld (pages m) \<and>
     (\<forall>c ca s sl. slab_in m c ca s sl \<longrightarrow> sblk ca sl \<inter> blk order i = {})"

subsection \<open>Updating one slab\<close>

definition statics :: "cache \<Rightarrow> nat \<times> bool \<times> nat \<times> nat \<times> int \<times> nat \<times> nat \<times> nat" where
  "statics ca = (objsize ca, off_slab ca, num ca, gfporder ca, gfpflags ca, colour ca, colour_off ca, slabp_cache ca)"

lemma statics_cong:
  assumes "statics ca' = statics ca"
  shows "obj_addr ca' sl k = obj_addr ca sl k" "sblk ca' sl = sblk ca sl" "num ca' = num ca" "off_slab ca' = off_slab ca"
    "slabp_cache ca' = slabp_cache ca" "gfporder ca' = gfporder ca" "gfpflags ca' = gfpflags ca" "objsize ca' = objsize ca"
    "colour_next ca' = colour_next ca \<Longrightarrow> cache_ok ca' = cache_ok ca"
  using assms by (simp_all add: statics_def obj_addr_def sblk_def cache_ok_def)

text \<open>
  One slab of one cache changes, in place: \<open>slab_upd\<close> says what an operation has to establish, and the
  lemmas below what follows for the whole allocator.
\<close>

definition slab_upd ::
  "('p \<Rightarrow> bool) \<Rightarrow> ('p \<Rightarrow> (nat \<times> nat) set) \<Rightarrow> 'p slab_mem \<Rightarrow> 'p slab_mem \<Rightarrow> nat \<Rightarrow> nat \<Rightarrow>
     cache \<Rightarrow> cache \<Rightarrow> slab \<Rightarrow> slab \<Rightarrow> bool" where
  "slab_upd pinv pheld m m' c s ca ca' sl sl' \<longleftrightarrow>
     slab_inv pinv pheld m \<and> slab_in m c ca s sl \<and> m' = store_cache c ca' (store_slab s sl' m) \<and>
     statics ca' = statics ca \<and> colour_next ca' = colour_next ca \<and>
     distinct (all_slabs ca') \<and> set (all_slabs ca') = set (all_slabs ca) \<and>
     (\<forall>t. t \<noteq> s \<longrightarrow> (t \<in> set (slabs_full ca') \<longleftrightarrow> t \<in> set (slabs_full ca)) \<and>
                   (t \<in> set (slabs_free ca') \<longleftrightarrow> t \<in> set (slabs_free ca))) \<and>
     s_mem sl' = s_mem sl \<and> colouroff sl' = colouroff sl \<and> slab_ok ca' s sl' \<and>
     (\<forall>k \<in> set (freelist sl'). k < num ca \<longrightarrow> obj_addr ca sl k \<notin> mgmt m)"

lemma slab_updD:
  assumes "slab_upd pinv pheld m m' c s ca ca' sl sl'"
  shows "slab_inv pinv pheld m" "slab_in m c ca s sl" "m' = store_cache c ca' (store_slab s sl' m)"
    "statics ca' = statics ca" "colour_next ca' = colour_next ca"
    "distinct (all_slabs ca')" "set (all_slabs ca') = set (all_slabs ca)"
    "t \<noteq> s \<Longrightarrow> (t \<in> set (slabs_full ca') \<longleftrightarrow> t \<in> set (slabs_full ca)) \<and> (t \<in> set (slabs_free ca') \<longleftrightarrow> t \<in> set (slabs_free ca))"
    "s_mem sl' = s_mem sl" "colouroff sl' = colouroff sl" "slab_ok ca' s sl'"
    "k \<in> set (freelist sl') \<Longrightarrow> k < num ca \<Longrightarrow> obj_addr ca sl k \<notin> mgmt m"
  using assms by (simp_all add: slab_upd_def)

lemma upd_fields:
  assumes "slab_upd pinv pheld m m' c s ca ca' sl sl'"
  shows "caches m' c' = (if c' = c then Some ca' else caches m c')"
    "slabs m' t = (if t = s then Some sl' else slabs m t)"
    "pages m' = pages m" "page_links m' = page_links m" "cache_sizes m' = cache_sizes m"
    "caches m c = Some ca" "s \<in> set (all_slabs ca)" "slabs m s = Some sl"
    "obj_addr ca' sl' k = obj_addr ca sl k" "sblk ca' sl' = sblk ca sl" "slab_base sl' = slab_base sl"
  using slab_updD(2,3,9,10) [OF assms] statics_cong [OF slab_updD(4) [OF assms]]
  by (simp_all add: store_cache_def store_slab_def slab_in_def obj_addr_def sblk_def slab_base_def)

lemma upd_slab_in:
  assumes U: "slab_upd pinv pheld m m' c s ca ca' sl sl'" and h: "slab_in m' c2 ca2 s2 sl2"
  obtains (this_slab) "c2 = c" "ca2 = ca'" "s2 = s" "sl2 = sl'"
  | (same_cache) "c2 = c" "ca2 = ca'" "s2 \<noteq> s" "slab_in m c ca s2 sl2"
  | (other) "c2 \<noteq> c" "s2 \<noteq> s" "slab_in m c2 ca2 s2 sl2"
proof -
  note F = upd_fields(1,2) [OF U]
  have "s2 \<noteq> s" if "c2 \<noteq> c"
  proof
    assume "s2 = s"
    then have "slab_in m c2 ca2 s sl" using h that upd_fields(8) [OF U] by (simp add: slab_in_def F)
    then show False using slab_unique [OF slab_updD(1,2) [OF U]] that by blast
  qed
  then consider "c2 = c" "s2 = s" | "c2 = c" "s2 \<noteq> s" | "c2 \<noteq> c" "s2 \<noteq> s" by blast
  then show thesis
    using h this_slab same_cache other slab_updD(7) [OF U] upd_fields(6) [OF U]
    by cases (simp_all add: slab_in_def F)
qed

lemma upd_slab_inI:
  assumes U: "slab_upd pinv pheld m m' c s ca ca' sl sl'"
  shows "slab_in m' c ca' s sl'" "slab_in m c ca s2 sl2 \<Longrightarrow> s2 \<noteq> s \<Longrightarrow> slab_in m' c ca' s2 sl2"
    "slab_in m c2 ca2 s2 sl2 \<Longrightarrow> c2 \<noteq> c \<Longrightarrow> s2 \<noteq> s \<Longrightarrow> slab_in m' c2 ca2 s2 sl2"
  using upd_fields(6-8) [OF U] slab_updD(7) [OF U] by (simp_all add: slab_in_def upd_fields(1,2) [OF U])

lemma upd_mgmt:
  assumes U: "slab_upd pinv pheld m m' c s ca ca' sl sl'"
  shows "mgmt m' = mgmt m"
proof -
  have "(\<exists>c2 ca2. caches m' c2 = Some ca2 \<and> off_slab ca2 \<and> t \<in> set (all_slabs ca2)) \<longleftrightarrow>
        (\<exists>c2 ca2. caches m c2 = Some ca2 \<and> off_slab ca2 \<and> t \<in> set (all_slabs ca2))" for t
    using upd_fields(6) [OF U] slab_updD(7) [OF U] statics_cong(4) [OF slab_updD(4) [OF U]]
    unfolding upd_fields(1) [OF U] by (metis option.inject)
  then show ?thesis by (simp add: mgmt_def)
qed

lemma upd_objs_of_this:
  assumes U: "slab_upd pinv pheld m m' c s ca ca' sl sl'"
  shows "objs_of m' c = objs_of m c - {obj_addr ca sl k |k. k \<in> set (freelist sl') \<and> k < num ca}
     \<union> {obj_addr ca sl k |k. k < num ca \<and> k \<notin> set (freelist sl')}"
  (is "?L = ?R")
proof (intro equalityI subsetI)
  note st = statics_cong [OF slab_updD(4) [OF U]]
  fix a assume "a \<in> ?L"
  then obtain ca2 s2 sl2 k where h: "slab_in m' c ca2 s2 sl2" "k < num ca2" "k \<notin> set (freelist sl2)" "a = obj_addr ca2 sl2 k"
    by (rule objs_ofE)
  from U h(1) show "a \<in> ?R"
  proof (cases rule: upd_slab_in)
    case this_slab
    then show ?thesis using h st(3) upd_fields(9) [OF U] by auto
  next
    case same_cache
    then have a: "a = obj_addr ca sl2 k" "k < num ca" using h st(1,3) by simp_all
    then have "a \<in> objs_of m c" using same_cache h by (auto intro: objs_ofI)
    moreover have "a \<noteq> obj_addr ca sl k'" if "k' < num ca" for k'
      using obj_unique [OF slab_updD(1) [OF U] same_cache(4) a(2) slab_updD(2) [OF U] that] a(1) same_cache(3) by auto
    ultimately show ?thesis by blast
  qed simp
next
  note st = statics_cong [OF slab_updD(4) [OF U]]
  fix a assume a: "a \<in> ?R"
  show "a \<in> ?L"
  proof (cases "\<exists>k. k < num ca \<and> k \<notin> set (freelist sl') \<and> a = obj_addr ca sl k")
    case True
    then obtain k where "k < num ca" "k \<notin> set (freelist sl')" "a = obj_addr ca sl k" by blast
    then show ?thesis using objs_ofI [OF upd_slab_inI(1) [OF U], of k] st(3) upd_fields(9) [OF U] by simp
  next
    case False
    with a have "a \<in> objs_of m c" and nf: "\<And>k. k < num ca \<Longrightarrow> a \<noteq> obj_addr ca sl k" by blast+
    then obtain ca2 s2 sl2 k where h: "slab_in m c ca2 s2 sl2" "k < num ca2" "k \<notin> set (freelist sl2)" "a = obj_addr ca2 sl2 k"
      by (auto elim: objs_ofE)
    have ca2: "ca2 = ca" using h(1) upd_fields(6) [OF U] by (simp add: slab_in_def)
    moreover have "s2 \<noteq> s" using h nf [of k] upd_fields(8) [OF U] ca2 by (auto simp: slab_in_def)
    ultimately have "slab_in m' c ca' s2 sl2" using h(1) upd_slab_inI(2) [OF U] by simp
    from objs_ofI [OF this, of k] show ?thesis using h ca2 st(1,3) by simp
  qed
qed

lemma upd_objs_of_other:
  assumes U: "slab_upd pinv pheld m m' c s ca ca' sl sl'" and "c2 \<noteq> c"
  shows "objs_of m' c2 = objs_of m c2"
proof -
  have "slab_in m' c2 ca2 s2 sl2 \<longleftrightarrow> slab_in m c2 ca2 s2 sl2" for ca2 s2 sl2
  proof
    show "slab_in m' c2 ca2 s2 sl2 \<Longrightarrow> slab_in m c2 ca2 s2 sl2"
      using assms by (elim upd_slab_in [OF U]) simp_all
    assume h: "slab_in m c2 ca2 s2 sl2"
    moreover have "s2 \<noteq> s" using slab_unique [OF slab_updD(1,2) [OF U], of c2 ca2 sl2] h assms(2) by auto
    ultimately show "slab_in m' c2 ca2 s2 sl2" using assms(2) upd_slab_inI(3) [OF U] by simp
  qed
  then show ?thesis by (simp add: objs_of_def)
qed

lemma upd_mgmt_stays:
  assumes U: "slab_upd pinv pheld m m' c s ca ca' sl sl'" and "a \<in> objs_of m c2" "a \<in> mgmt m"
  shows "a \<in> objs_of m' c2"
proof (cases "c2 = c")
  case True
  have "a \<noteq> obj_addr ca sl k" if "k \<in> set (freelist sl')" "k < num ca" for k
    using slab_updD(12) [OF U that] assms(3) by auto
  then show ?thesis using True assms(2) unfolding True upd_objs_of_this [OF U] by blast
qed (use assms upd_objs_of_other [OF U] in simp)

lemma upd_slab_ok_other:
  assumes U: "slab_upd pinv pheld m m' c s ca ca' sl sl'" and h: "slab_in m c ca s2 sl2" "s2 \<noteq> s"
  shows "slab_ok ca' s2 sl2"
  using slab_invD(5) [OF slab_updD(1) [OF U] h(1)] slab_updD(8) [OF U h(2)]
    statics_cong(3,4,6,8) [OF slab_updD(4) [OF U]]
  unfolding slab_ok_def by metis

lemma upd_inv:
  assumes U: "slab_upd pinv pheld m m' c s ca ca' sl sl'"
  shows "slab_inv pinv pheld m'"
proof (rule slab_invI)
  note D = slab_invD [OF slab_updD(1) [OF U]] and F = upd_fields [OF U]
  note st = statics_cong [OF slab_updD(4) [OF U]] and at = slab_updD(2) [OF U]
  show "pinv (pages m')" using D(1) by (simp add: F)
  show "cache_ok ca2 \<and> distinct (all_slabs ca2)" if "caches m' c2 = Some ca2" for c2 ca2
    using that D(2,3) F(6) st(9) [OF slab_updD(5) [OF U]] slab_updD(6) [OF U] by (auto simp: F(1) split: if_splits)
  show "\<exists>ca3. caches m' (slabp_cache ca2) = Some ca3 \<and> \<not> off_slab ca3 \<and> gfpflags ca3 AND GFP_DMA = 0"
    if h: "caches m' c2 = Some ca2" "off_slab ca2" for c2 ca2
  proof -
    have "\<exists>ca1. caches m c2 = Some ca1 \<and> slabp_cache ca1 = slabp_cache ca2 \<and> off_slab ca1"
      using h F(6) st(4,5) by (cases "c2 = c") (simp_all add: F(1))
    then obtain ca3 where "caches m (slabp_cache ca2) = Some ca3" "\<not> off_slab ca3" "gfpflags ca3 AND GFP_DMA = 0"
      using D(4) by metis
    then show ?thesis using F(6) st(4,7) by (cases "slabp_cache ca2 = c") (simp_all add: F(1))
  qed
  show "slabs m' s2 \<noteq> None" if "caches m' c2 = Some ca2" "s2 \<in> set (all_slabs ca2)" for c2 ca2 s2
    using that D(9) [of c2 _ s2] slab_updD(7) [OF U] F(6)
    by (cases "c2 = c") (auto simp: F(1,2) slab_in_def)
  fix c2 ca2 s2 sl2 assume h: "slab_in m' c2 ca2 s2 sl2"
  show "slab_ok ca2 s2 sl2 \<and> (slab_base sl2, gfporder ca2) \<in> pheld (pages m')"
    using h D(5,6) at slab_updD(11) [OF U] upd_slab_ok_other [OF U] st(6)
    by (elim upd_slab_in [OF U]) (auto simp: F(3,11))
  show "page_links m' j = Some (c2, s2)" if "j \<in> sblk ca2 sl2" for j
    using U h
  proof (cases rule: upd_slab_in)
    case this_slab
    then show ?thesis using that D(7) [OF at] by (simp add: F(4,10))
  next
    case same_cache
    then show ?thesis using that D(7) [OF same_cache(4)] by (simp add: F(4) st(2))
  qed (use that D(7) F(4) in simp)
  show "s2 \<in> objs_of m' (slabp_cache ca2)" if "off_slab ca2"
  proof -
    have "\<exists>ca1 sl1. slab_in m c2 ca1 s2 sl1 \<and> slabp_cache ca1 = slabp_cache ca2 \<and> off_slab ca1"
      using U h
    proof (cases rule: upd_slab_in)
      case this_slab
      then show ?thesis using at that st(4,5) by auto
    next
      case same_cache
      then show ?thesis using that st(4,5) by auto
    qed (use that in auto)
    then obtain ca1 sl1 where ca1: "slab_in m c2 ca1 s2 sl1" "slabp_cache ca1 = slabp_cache ca2" "off_slab ca1" by blast
    then have "s2 \<in> mgmt m" by (auto simp: mgmt_def slab_in_def)
    with D(8) [OF ca1(1,3)] ca1(2) show ?thesis by (auto intro: upd_mgmt_stays [OF U])
  qed
qed

subsection \<open>Allocating and freeing one object\<close>

lemma slab_lists:
  assumes "distinct (all_slabs ca)"
  shows "set (all_slabs (list_del_slab s ca)) = set (all_slabs ca) - {s}" "distinct (all_slabs (list_del_slab s ca))"
    "set (slabs_full (list_del_slab s ca)) = set (slabs_full ca) - {s}"
    "set (slabs_partial (list_del_slab s ca)) = set (slabs_partial ca) - {s}"
    "set (slabs_free (list_del_slab s ca)) = set (slabs_free ca) - {s}"
    "statics (list_del_slab s ca) = statics ca" "colour_next (list_del_slab s ca) = colour_next ca"
  using assms by (auto simp: all_slabs_def list_del_slab_def statics_def distinct_remove1)

text \<open>Moving a slab to the head of one of the lists.\<close>

definition move_full :: "nat \<Rightarrow> cache \<Rightarrow> cache" where
  "move_full s ca = (list_del_slab s ca)\<lparr>slabs_full := s # slabs_full (list_del_slab s ca)\<rparr>"

definition move_partial :: "nat \<Rightarrow> cache \<Rightarrow> cache" where
  "move_partial s ca = (list_del_slab s ca)\<lparr>slabs_partial := s # slabs_partial (list_del_slab s ca)\<rparr>"

definition move_free :: "nat \<Rightarrow> cache \<Rightarrow> cache" where
  "move_free s ca = (list_del_slab s ca)\<lparr>slabs_free := s # slabs_free (list_del_slab s ca)\<rparr>"

lemma move_facts:
  assumes "distinct (all_slabs ca)" "s \<in> set (all_slabs ca)" "ca' \<in> {move_full s ca, move_partial s ca, move_free s ca}"
  shows "distinct (all_slabs ca')" "set (all_slabs ca') = set (all_slabs ca)" "statics ca' = statics ca"
    "colour_next ca' = colour_next ca"
    "t \<noteq> s \<Longrightarrow> (t \<in> set (slabs_full ca') \<longleftrightarrow> t \<in> set (slabs_full ca)) \<and> (t \<in> set (slabs_free ca') \<longleftrightarrow> t \<in> set (slabs_free ca))"
proof -
  let ?d = "list_del_slab s ca"
  note L = slab_lists [OF assms(1), of s]
  have nil: "s \<notin> set (slabs_full ?d)" "s \<notin> set (slabs_partial ?d)" "s \<notin> set (slabs_free ?d)" using L(3-5) by simp_all
  have d: "distinct (slabs_full ?d @ slabs_partial ?d @ slabs_free ?d)" using L(2) by (simp add: all_slabs_def)
  have cs: "ca' = ?d\<lparr>slabs_full := s # slabs_full ?d\<rparr> \<or> ca' = ?d\<lparr>slabs_partial := s # slabs_partial ?d\<rparr> \<or>
      ca' = ?d\<lparr>slabs_free := s # slabs_free ?d\<rparr>"
    using assms(3) by (simp add: move_full_def move_partial_def move_free_def)
  from cs nil d show "distinct (all_slabs ca')" by (elim disjE) (auto simp: all_slabs_def)
  have "set (all_slabs ca') = insert s (set (all_slabs ?d))"
    using cs by (elim disjE) (auto simp: all_slabs_def)
  then show "set (all_slabs ca') = set (all_slabs ca)"
    using L(1) insert_absorb [OF assms(2)] by simp
  show "statics ca' = statics ca" "colour_next ca' = colour_next ca"
    using cs L(6,7) by (elim disjE; simp add: statics_def)+
  show "(t \<in> set (slabs_full ca') \<longleftrightarrow> t \<in> set (slabs_full ca)) \<and> (t \<in> set (slabs_free ca') \<longleftrightarrow> t \<in> set (slabs_free ca))"
    if "t \<noteq> s"
    using cs that L(3,5) by (elim disjE) simp_all
qed

lemma stay_or_move:
  assumes "distinct (all_slabs ca)" "s \<in> set (all_slabs ca)"
    "ca' = ca \<or> ca' \<in> {move_full s ca, move_partial s ca, move_free s ca}"
  shows "distinct (all_slabs ca')" "set (all_slabs ca') = set (all_slabs ca)" "statics ca' = statics ca"
    "colour_next ca' = colour_next ca"
    "t \<noteq> s \<Longrightarrow> (t \<in> set (slabs_full ca') \<longleftrightarrow> t \<in> set (slabs_full ca)) \<and> (t \<in> set (slabs_free ca') \<longleftrightarrow> t \<in> set (slabs_free ca))"
proof -
  have mv: "ca' \<in> {move_full s ca, move_partial s ca, move_free s ca}" if "ca' \<noteq> ca" using assms(3) that by blast
  note F = move_facts [OF assms(1,2) mv]
  show "distinct (all_slabs ca')" "set (all_slabs ca') = set (all_slabs ca)" "statics ca' = statics ca"
    "colour_next ca' = colour_next ca"
    using F(1-4) assms(1) by (cases "ca' = ca"; simp)+
  show "(t \<in> set (slabs_full ca') \<longleftrightarrow> t \<in> set (slabs_full ca)) \<and> (t \<in> set (slabs_free ca') \<longleftrightarrow> t \<in> set (slabs_free ca))"
    if "t \<noteq> s" using F(5) [OF _ that] by (cases "ca' = ca") simp_all
qed

lemma move_class:
  assumes "distinct (all_slabs ca)"
  shows "s \<in> set (slabs_full (move_full s ca))" "s \<notin> set (slabs_free (move_full s ca))"
    "s \<notin> set (slabs_full (move_partial s ca))" "s \<notin> set (slabs_free (move_partial s ca))"
    "s \<notin> set (slabs_full (move_free s ca))" "s \<in> set (slabs_free (move_free s ca))"
  using slab_lists [OF assms, of s] by (simp_all add: move_full_def move_partial_def move_free_def)

lemma move_twice:
  assumes "distinct (all_slabs ca)"
  shows "move_full s (move_partial s ca) = move_full s ca"
  using assms by (simp add: move_full_def move_partial_def list_del_slab_def all_slabs_def remove1_idem)

text \<open>The slab \<^verbatim>\<open>kmem_cache_alloc_one\<close> picks, and the cache it leaves behind.\<close>

lemma alloc_one_cases:
  assumes inv: "slab_inv pinv pheld m" and ca: "caches m c = Some ca"
  obtains (none) "slabs_partial ca = []" "slabs_free ca = []" "kmem_cache_alloc_one c m = Inr None"
  | (some) s sl x xs ca' m' where "slab_in m c ca s sl" "freelist sl = x # xs" "x = sfree sl"
      "ca' \<in> {move_full s ca, move_partial s ca, ca}" "ca' = move_full s ca \<longleftrightarrow> xs = []" "s \<notin> set (slabs_free ca')"
      "kmem_cache_alloc_one c m = Inr (Some (obj_addr ca sl x, m'))"
      "m' = store_cache c ca' (store_slab s (sl\<lparr>inuse := inuse sl + 1, sfree := bufctl sl ! x\<rparr>) m)"
proof -
  note D = slab_invD [OF inv]
  have tail: "kmem_cache_alloc_one_tail c s m1 = Inr (obj_addr ca sl x,
        store_cache c (if xs = [] then move_full s ca1 else ca1) (store_slab s (sl\<lparr>inuse := inuse sl + 1, sfree := bufctl sl ! x\<rparr>) m1))"
    if "slab_ok ca s sl" "slabs m1 s = Some sl" "caches m1 c = Some ca1" "objsize ca1 = objsize ca" "freelist sl = x # xs"
      "num ca < BUFCTL_END" for s sl m1 ca1 x xs
  proof -
    have ch: "chain (bufctl sl) (sfree sl) (x # xs)" and len: "length (bufctl sl) = num ca" using that by (auto simp: slab_ok_def)
    then have "bufctl sl ! x = BUFCTL_END \<longleftrightarrow> xs = []" using that(6) by (cases xs) auto
    then show ?thesis using that ch len
      by (auto simp: kmem_cache_alloc_one_tail_def load_cache_def load_slab_def Let_def obj_addr_def move_full_def)
  qed
  have nend: "num ca < BUFCTL_END" using D(2) [OF ca] by (simp add: cache_ok_def)
  show thesis
  proof (cases "slabs_partial ca")
    case (Cons s rest)
    then obtain sl where sl: "slab_in m c ca s sl" using D(9) [OF ca, of s] by (auto simp: all_slabs_def)
    have ok: "slab_ok ca s sl" using D(5) [OF sl] .
    have nf: "s \<notin> set (slabs_full ca)" "s \<notin> set (slabs_free ca)" using D(3) [OF ca] Cons by (auto simp: all_slabs_def)
    then obtain x xs where fl: "freelist sl = x # xs" using ok by (cases "freelist sl") (auto simp: slab_ok_def)
    show ?thesis
    proof (rule some [of s sl x xs "if xs = [] then move_full s ca else ca"])
      show "kmem_cache_alloc_one c m = Inr (Some (obj_addr ca sl x, store_cache c (if xs = [] then move_full s ca else ca)
          (store_slab s (sl\<lparr>inuse := inuse sl + 1, sfree := bufctl sl ! x\<rparr>) m)))"
        using tail [OF ok _ ca refl fl nend] sl ca Cons by (simp add: kmem_cache_alloc_one_def load_cache_def slab_in_def)
      show "x = sfree sl" using ok fl by (auto simp: slab_ok_def)
    qed (use sl fl nf move_class [OF D(3) [OF ca], of s] in auto)
  next
    case Nil
    show ?thesis
    proof (cases "slabs_free ca")
      case Nil
      then show ?thesis using none \<open>slabs_partial ca = []\<close> ca by (simp add: kmem_cache_alloc_one_def load_cache_def)
    next
      case (Cons s rest)
      then obtain sl where sl: "slab_in m c ca s sl" using D(9) [OF ca, of s] by (auto simp: all_slabs_def)
      have ok: "slab_ok ca s sl" using D(5) [OF sl] .
      have "inuse sl = 0" "num ca > 0" using ok Cons D(2) [OF ca] by (auto simp: slab_ok_def cache_ok_def)
      then obtain x xs where fl: "freelist sl = x # xs" using ok by (cases "freelist sl") (auto simp: slab_ok_def)
      let ?ca = "if xs = [] then move_full s ca else move_partial s ca"
      let ?m1 = "store_cache c (move_partial s ca) m"
      have one: "kmem_cache_alloc_one c m = kbind (kmem_cache_alloc_one_tail c s ?m1) (Inr \<circ> Some)"
        using Nil Cons ca by (simp add: kmem_cache_alloc_one_def load_cache_def move_partial_def Let_def)
      have "slabs ?m1 s = Some sl" "caches ?m1 c = Some (move_partial s ca)" "objsize (move_partial s ca) = objsize ca"
        using sl by (simp_all add: store_cache_def slab_in_def move_partial_def list_del_slab_def)
      note t = tail [OF ok this fl nend]
      show ?thesis
      proof (rule some [of s sl x xs ?ca])
        show "kmem_cache_alloc_one c m = Inr (Some (obj_addr ca sl x, store_cache c ?ca
            (store_slab s (sl\<lparr>inuse := inuse sl + 1, sfree := bufctl sl ! x\<rparr>) m)))"
          unfolding one t using move_twice [OF D(3) [OF ca]] by (simp add: store_cache_def store_slab_def)
        show "x = sfree sl" using ok fl by (auto simp: slab_ok_def)
        show "?ca = move_full s ca \<longleftrightarrow> xs = []"
          using move_class(1,3) [OF D(3) [OF ca], of s] by auto
      qed (use sl fl move_class [OF D(3) [OF ca], of s] in auto)
    qed
  qed
qed

text \<open>What both leave alone.\<close>

definition frame :: "nat \<Rightarrow> 'p slab_mem \<Rightarrow> 'p slab_mem \<Rightarrow> bool" where
  "frame c m m' \<longleftrightarrow> (\<forall>c2. c2 \<noteq> c \<longrightarrow> caches m' c2 = caches m c2 \<and> objs_of m' c2 = objs_of m c2) \<and>
     map_option statics (caches m' c) = map_option statics (caches m c) \<and> cache_sizes m' = cache_sizes m"

lemma frame_refl [simp]: "frame c m m"
  by (simp add: frame_def)

lemma frame_trans: "frame c m1 m2 \<Longrightarrow> frame c m2 m3 \<Longrightarrow> frame c m1 m3"
  by (simp add: frame_def)

lemma upd_frame:
  assumes U: "slab_upd pinv pheld m m' c s ca ca' sl sl'" shows "frame c m m'"
  using upd_fields [OF U] upd_objs_of_other [OF U] slab_updD(4) [OF U] by (simp add: frame_def)

lemma upd_spare:
  assumes U: "slab_upd pinv pheld m m' c s ca ca' sl sl'" and sp: "spare pheld m i order"
  shows "spare pheld m' i order"
  unfolding spare_def
proof (intro conjI allI impI)
  show "(i, order) \<in> pheld (pages m')" using sp by (simp add: spare_def upd_fields(3) [OF U])
  have old: "sblk ca3 sl3 \<inter> blk order i = {}" if "slab_in m c3 ca3 s3 sl3" for c3 ca3 s3 sl3
    using sp that unfolding spare_def by blast
  fix c2 ca2 s2 sl2 assume "slab_in m' c2 ca2 s2 sl2"
  with U show "sblk ca2 sl2 \<inter> blk order i = {}"
    by (cases rule: upd_slab_in)
      (use old slab_updD(2) [OF U] upd_fields(10) [OF U] statics_cong(2) [OF slab_updD(4) [OF U]] in auto)
qed

lemma objs_insert:
  assumes "frame c m m'" "objs_of m' c = insert a (objs_of m c)" shows "objs m' = insert a (objs m)"
proof -
  have "objs_of m' c2 = (if c2 = c then insert a (objs_of m c2) else objs_of m c2)" for c2
    using assms by (simp add: frame_def)
  then have "x \<in> objs m' \<longleftrightarrow> x = a \<or> x \<in> objs m" for x unfolding objs_def UN_iff by (metis UNIV_I insert_iff)
  then show ?thesis by blast
qed

lemma alloc_one_correct:
  assumes inv: "slab_inv pinv pheld m" and r: "kmem_cache_alloc_one c m = Inr (Some (a, m'))"
    and ca: "caches m c = Some ca"
  shows "slab_inv pinv pheld m' \<and> mgmt m' = mgmt m \<and> a \<notin> objs m \<and> objs_of m' c = insert a (objs_of m c) \<and>
     frame c m m' \<and> (\<forall>i order. spare pheld m i order \<longrightarrow> spare pheld m' i order)"
proof -
  note D = slab_invD [OF inv]
  from inv ca show ?thesis
  proof (cases rule: alloc_one_cases)
    case none
    then show ?thesis using r by simp
  next
    case (some s sl x xs ca' m1)
    define sl' where "sl' = sl\<lparr>inuse := inuse sl + 1, sfree := bufctl sl ! x\<rparr>"
    have am: "a = obj_addr ca sl x" "m' = store_cache c ca' (store_slab s sl' m)"
      using r some(7,8) by (simp_all add: sl'_def)
    have ok: "slab_ok ca s sl" using D(5) [OF some(1)] .
    have x: "x < num ca" "chain (bufctl sl) (bufctl sl ! x) xs" "distinct xs" "x \<notin> set xs" "length (bufctl sl) = num ca"
      using ok some(2) by (auto simp: slab_ok_def)
    have "num ca < BUFCTL_END" using D(2) [OF ca] by (simp add: cache_ok_def)
    then have fl': "freelist sl' = xs" using x by (intro freelist_chain) (simp_all add: sl'_def)
    have lists: "distinct (all_slabs ca)" "s \<in> set (all_slabs ca)" using D(3) [OF ca] some(1) by (simp_all add: slab_in_def)
    have mv: "ca' = ca \<or> ca' \<in> {move_full s ca, move_partial s ca, move_free s ca}" using some(4) by auto
    have facts: "distinct (all_slabs ca')" "set (all_slabs ca') = set (all_slabs ca)" "statics ca' = statics ca"
      "colour_next ca' = colour_next ca"
      "\<And>t. t \<noteq> s \<Longrightarrow> (t \<in> set (slabs_full ca') \<longleftrightarrow> t \<in> set (slabs_full ca)) \<and> (t \<in> set (slabs_free ca') \<longleftrightarrow> t \<in> set (slabs_free ca))"
      using stay_or_move [OF lists mv] by simp_all
    have "s \<in> set (slabs_full ca') \<longleftrightarrow> xs = []"
      using some(2,4,5) move_class(1,3) [OF lists(1), of s] ok by (auto simp: slab_ok_def)
    then have "slab_ok ca' s sl'"
      using ok fl' x some(2,6) statics_cong [OF facts(3)] unfolding slab_ok_def
      by (auto simp: sl'_def slab_base_def)
    moreover have free: "obj_addr ca sl k \<notin> objs m" if "k \<in> set (x # xs)" "k < num ca" for k
      using free_not_obj [OF inv some(1) that(2)] that(1) some(2) by simp
    moreover have "mgmt m \<subseteq> objs m" by (rule mgmt_objs [OF inv])
    ultimately have U: "slab_upd pinv pheld m m' c s ca ca' sl sl'"
      using inv some(1) am(2) facts fl' by (auto simp: slab_upd_def sl'_def)
    have new: "a \<notin> objs m" using free [of x] x(1) am(1) by simp
    have "obj_addr ca sl k \<notin> objs_of m c" if "k \<in> set xs" "k < num ca" for k
      using free [of k] that by (auto simp: objs_def)
    moreover have "obj_addr ca sl k \<in> objs_of m c" if "k \<notin> set xs" "k < num ca" "k \<noteq> x" for k
      using that some(2) by (intro objs_ofI [OF some(1)]) simp_all
    ultimately have "objs_of m' c = insert a (objs_of m c)"
      unfolding upd_objs_of_this [OF U] fl' am(1) using x(1,4) by blast
    then show ?thesis
      using upd_inv [OF U] upd_mgmt [OF U] upd_frame [OF U] upd_spare [OF U] new by simp
  qed
qed

lemma objs_delete:
  assumes "frame c m m'" "objs_of m' c = objs_of m c - {a}" "\<And>c2. c2 \<noteq> c \<Longrightarrow> a \<notin> objs_of m c2"
  shows "objs m' = objs m - {a}"
proof -
  have "objs_of m' c2 = objs_of m c2 - {a}" for c2 using assms by (cases "c2 = c") (auto simp: frame_def)
  then show ?thesis by (auto simp: objs_def)
qed

lemma free_one_correct:
  assumes inv: "slab_inv pinv pheld m" and a: "a \<in> objs_of m c" "a \<notin> mgmt m"
  shows "\<exists>m'. kmem_cache_free_one c a m = Inr m' \<and> slab_inv pinv pheld m' \<and> mgmt m' = mgmt m \<and>
     objs m' = objs m - {a} \<and> frame c m m' \<and> pages m' = pages m \<and> page_links m' = page_links m"
proof -
  note D = slab_invD [OF inv]
  obtain ca s sl k where h: "slab_in m c ca s sl" "k < num ca" "k \<notin> set (freelist sl)" "a = obj_addr ca sl k"
    using a(1) by (rule objs_ofE)
  have ca: "caches m c = Some ca" "slabs m s = Some sl" "s \<in> set (all_slabs ca)" using h(1) by (simp_all add: slab_in_def)
  have ok: "slab_ok ca s sl" "cache_ok ca" using D(2,5) ca(1) h(1) by auto
  have ch: "chain (bufctl sl) (sfree sl) (freelist sl)" "distinct (freelist sl)" "length (bufctl sl) = num ca"
    "inuse sl + length (freelist sl) = num ca" using ok(1) by (simp_all add: slab_ok_def)
  have "card (set (k # freelist sl)) \<le> card {..<num ca}"
    using chain_bound [OF ch(1)] ch(3) h(2) by (intro card_mono) auto
  then have used: "inuse sl > 0" using ch(2,4) h(3) by (simp add: distinct_card)
  define sl' where "sl' = sl\<lparr>bufctl := (bufctl sl)[k := sfree sl], sfree := k, inuse := inuse sl - 1\<rparr>"
  have sl'_fields: "length (bufctl sl') = length (bufctl sl)" "s_mem sl' = s_mem sl" "colouroff sl' = colouroff sl"
    "inuse sl' = inuse sl - 1" "slab_base sl' = slab_base sl" by (simp_all add: sl'_def slab_base_def)
  have ch': "chain (bufctl sl') (sfree sl') (k # freelist sl)"
    using chain_update [OF ch(1) h(3)] h(2) ch(3) by (simp add: sl'_def)
  have "length (bufctl sl') \<le> BUFCTL_END" using ch(3) ok(2) by (simp add: sl'_def cache_ok_def)
  then have fl': "freelist sl' = k # freelist sl"
    using freelist_chain [OF ch'] ch(2) h(3) by simp
  define ca' where "ca' = (if inuse sl' = 0 then move_free s ca else if inuse sl = num ca then move_partial s ca else ca)"
  define m' where "m' = store_cache c ca' (store_slab s sl' m)"
  have "page_links m (virt_to_page a) = Some (c, s)" using D(7) [OF h(1)] obj_page [OF ok h(2)] h(4) by simp
  moreover have "(a - s_mem sl) div objsize ca = k" using h(4) ok(2) by (simp add: obj_addr_def cache_ok_def)
  ultimately have r: "kmem_cache_free_one c a m = Inr m'"
    using ca h(2) ch(3) used
    by (simp add: kmem_cache_free_one_def slab_defs m'_def ca'_def sl'_def move_free_def move_partial_def Let_def)
  have lists: "distinct (all_slabs ca)" using D(3) [OF ca(1)] .
  have mv: "ca' = ca \<or> ca' \<in> {move_full s ca, move_partial s ca, move_free s ca}" by (simp add: ca'_def)
  note F = stay_or_move [OF lists ca(3) mv]
  have "s \<notin> set (slabs_full ca') \<and> (s \<in> set (slabs_free ca') \<longleftrightarrow> inuse sl' = 0)"
    using move_class [OF lists, of s] ok(1) used ch(4) by (auto simp: ca'_def slab_ok_def sl'_def)
  then have "slab_ok ca' s sl'"
    using ok(1) ch' h(3) used statics_cong [OF F(3)] unfolding slab_ok_def fl' sl'_fields by auto
  moreover have "obj_addr ca sl j \<notin> mgmt m" if "j \<in> set (k # freelist sl)" "j < num ca" for j
    using free_not_obj [OF inv h(1) that(2)] that(1) mgmt_objs [OF inv] a(2) h(4) by auto
  ultimately have U: "slab_upd pinv pheld m m' c s ca ca' sl sl'"
    using inv h(1) m'_def F fl' by (auto simp: slab_upd_def sl'_def)
  have "obj_addr ca sl j \<notin> objs_of m c" if "j \<in> set (freelist sl)" "j < num ca" for j
    using free_not_obj [OF inv h(1) that(2,1)] by (auto simp: objs_def)
  moreover have "obj_addr ca sl j \<in> objs_of m c \<and> obj_addr ca sl j \<noteq> a" if "j \<notin> set (k # freelist sl)" "j < num ca" for j
    using that h(4) ok(2) objs_ofI [OF h(1) that(2)] by (auto simp: obj_addr_def cache_ok_def)
  ultimately have objs: "objs_of m' c = objs_of m c - {a}"
    unfolding upd_objs_of_this [OF U] fl' using h(2,4) by (auto, blast)
  have "a \<notin> objs_of m c2" if "c2 \<noteq> c" for c2
    using obj_unique [OF inv h(1,2)] h(4) that by (auto elim!: objs_ofE)
  then have "objs m' = objs m - {a}" using objs_delete [OF upd_frame [OF U] objs] by blast
  then show ?thesis
    using r upd_inv [OF U] upd_mgmt [OF U] upd_frame [OF U] upd_fields(3,4) [OF U] by blast
qed

lemma kfree_correct:
  assumes inv: "slab_inv pinv pheld m" and a: "a \<in> live m"
  shows "\<exists>m' c. kfree_obj a m = Inr m' \<and> slab_inv pinv pheld m' \<and> live m' = live m - {a} \<and> frame c m m'"
proof -
  obtain c where c: "a \<in> objs_of m c" "a \<notin> mgmt m" using a by (auto simp: live_def objs_def)
  then obtain ca s sl k where h: "slab_in m c ca s sl" "k < num ca" "a = obj_addr ca sl k" by (auto elim: objs_ofE)
  have ok: "slab_ok ca s sl" "cache_ok ca" using slab_invD(2,5) [OF inv] h(1) by (auto simp: slab_in_def)
  have "page_links m (virt_to_page a) = Some (c, s)"
    using slab_invD(7) [OF inv h(1)] obj_page [OF ok h(2)] h(3) by simp
  moreover have "a \<noteq> 0" using h(3) ok(1) by (simp add: obj_addr_def slab_ok_def page_address_def)
  ultimately have "kfree_obj a m = kmem_cache_free_one c a m" by (simp add: kfree_obj_def)
  then show ?thesis using free_one_correct [OF inv c] by (auto simp: live_def)
qed

subsection \<open>Adding a slab\<close>

lemma desc_page:
  assumes inv: "slab_inv pinv pheld m" and s: "slab_in m c ca s sl" "\<not> off_slab ca"
  shows "virt_to_page s \<in> sblk ca sl" "s < s_mem sl"
proof -
  have ok: "slab_ok ca s sl" using slab_invD(5) [OF inv s(1)] .
  then obtain x where x: "s = page_address (slab_base sl) + x" using s(2) by (auto simp: slab_ok_def dest: le_Suc_ex)
  show "s < s_mem sl" using ok s(2) by (simp add: slab_ok_def)
  then have "x < PAGE_SIZE * 2 ^ gfporder ca" using ok x by (auto simp: slab_ok_def)
  then show "virt_to_page s \<in> sblk ca sl" unfolding x sblk_def by (rule block_page)
qed

lemma obj_loc:
  assumes inv: "slab_inv pinv pheld m" and a: "a \<in> objs m"
  obtains c ca s sl where "slab_in m c ca s sl" "virt_to_page a \<in> sblk ca sl" "s_mem sl \<le> a"
proof -
  obtain c where "a \<in> objs_of m c" using a by (auto simp: objs_def)
  then obtain ca s sl k where h: "slab_in m c ca s sl" "k < num ca" "a = obj_addr ca sl k" by (rule objs_ofE)
  have "slab_ok ca s sl" "cache_ok ca" using slab_invD(2,5) [OF inv] h(1) by (auto simp: slab_in_def)
  from obj_page [OF this h(2)] show thesis using that [OF h(1)] h(3) by (simp add: obj_addr_def)
qed

definition slab_id :: "'p slab_mem \<Rightarrow> nat \<Rightarrow> bool" where
  "slab_id m s \<longleftrightarrow> (\<exists>c ca. caches m c = Some ca \<and> s \<in> set (all_slabs ca))"

lemma slab_idE:
  assumes "slab_inv pinv pheld m" "slab_id m s"
  obtains c ca sl where "slab_in m c ca s sl"
  using assms(2) slab_invD(9) [OF assms(1)] unfolding slab_id_def by blast

lemma fresh_on_slab:
  assumes inv: "slab_inv pinv pheld m" and sp: "spare pheld m i order" and x: "x < PAGE_SIZE * 2 ^ order"
  shows "\<not> slab_id m (page_address i + x)"
proof
  let ?s = "page_address i + x"
  assume "slab_id m ?s"
  with inv obtain c ca sl where s: "slab_in m c ca ?s sl" by (rule slab_idE)
  have "\<exists>c ca s sl. slab_in m c ca s sl \<and> virt_to_page ?s \<in> sblk ca sl"
  proof (cases "off_slab ca")
    case True
    then have "?s \<in> objs m" using slab_invD(8) [OF inv s] by (auto simp: objs_def)
    with inv obtain c ca s sl where "slab_in m c ca s sl" "virt_to_page ?s \<in> sblk ca sl" by (rule obj_loc)
    then show ?thesis by blast
  next
    case False
    then show ?thesis using desc_page(1) [OF inv s] s by blast
  qed
  then show False using sp block_page [OF x, of i] unfolding spare_def by blast
qed

lemma fresh_off_slab:
  assumes inv: "slab_inv pinv pheld m" and s: "s \<in> objs m" "s \<notin> mgmt m"
  shows "\<not> slab_id m s"
proof
  assume "slab_id m s"
  with inv obtain c ca sl where at: "slab_in m c ca s sl" by (rule slab_idE)
  then have on: "\<not> off_slab ca" using s(2) by (auto simp: mgmt_def slab_in_def)
  obtain c' ca' s' sl' where b: "slab_in m c' ca' s' sl'" "virt_to_page s \<in> sblk ca' sl'" "s_mem sl' \<le> s"
    using inv s(1) by (rule obj_loc)
  have "(c', s') = (c, s)" using slab_invD(7) [OF inv b(1,2)] slab_invD(7) [OF inv at desc_page(1) [OF inv at on]] by simp
  then have "sl' = sl" using at b(1) by (simp add: slab_in_def)
  then show False using b(3) desc_page(2) [OF inv at on] by simp
qed

text \<open>A new slab joins the end of its cache's list of free slabs.\<close>

definition slab_add ::
  "('p \<Rightarrow> bool) \<Rightarrow> ('p \<Rightarrow> (nat \<times> nat) set) \<Rightarrow> 'p slab_mem \<Rightarrow> 'p slab_mem \<Rightarrow> nat \<Rightarrow> nat \<Rightarrow> nat \<Rightarrow>
     cache \<Rightarrow> cache \<Rightarrow> slab \<Rightarrow> bool" where
  "slab_add pinv pheld m m' c s i ca ca' sl \<longleftrightarrow>
     slab_inv pinv pheld m \<and> caches m c = Some ca \<and> spare pheld m i (gfporder ca) \<and> \<not> slab_id m s \<and>
     (off_slab ca \<longrightarrow> s \<in> objs_of m (slabp_cache ca)) \<and>
     statics ca' = statics ca \<and> colour_next ca' = colour_next ca \<and> slabs_full ca' = slabs_full ca \<and>
     slabs_partial ca' = slabs_partial ca \<and> slabs_free ca' = slabs_free ca @ [s] \<and>
     slab_ok ca' s sl \<and> slab_base sl = i \<and> freelist sl = [0..<num ca] \<and>
     m' = store_cache c ca' (store_slab s sl (set_page_links i (gfporder ca) c s m))"

lemma slab_addD:
  assumes "slab_add pinv pheld m m' c s i ca ca' sl"
  shows "slab_inv pinv pheld m" "caches m c = Some ca" "spare pheld m i (gfporder ca)" "\<not> slab_id m s"
    "off_slab ca \<Longrightarrow> s \<in> objs_of m (slabp_cache ca)" "statics ca' = statics ca" "colour_next ca' = colour_next ca"
    "slab_ok ca' s sl" "slab_base sl = i" "freelist sl = [0..<num ca]"
    "m' = store_cache c ca' (store_slab s sl (set_page_links i (gfporder ca) c s m))"
    "set (all_slabs ca') = insert s (set (all_slabs ca))" "distinct (all_slabs ca')"
    "slabs_full ca' = slabs_full ca" "slabs_free ca' = slabs_free ca @ [s]"
proof -
  have "distinct (all_slabs ca)" "s \<notin> set (all_slabs ca)"
    using assms slab_invD(3) unfolding slab_add_def slab_id_def by blast+
  then show "set (all_slabs ca') = insert s (set (all_slabs ca))" "distinct (all_slabs ca')"
    using assms by (auto simp: slab_add_def all_slabs_def)
qed (use assms in \<open>simp_all add: slab_add_def\<close>)

lemma add_fields:
  assumes A: "slab_add pinv pheld m m' c s i ca ca' sl"
  shows "caches m' x = (if x = c then Some ca' else caches m x)" "slabs m' t = (if t = s then Some sl else slabs m t)"
    "pages m' = pages m" "cache_sizes m' = cache_sizes m"
    "page_links m' j = (if j \<in> blk (gfporder ca) i then Some (c, s) else page_links m j)"
  unfolding slab_addD(11) [OF A] by (simp_all add: slab_defs set_page_links_def blk_def)

lemma add_slab_in:
  assumes A: "slab_add pinv pheld m m' c s i ca ca' sl" and h: "slab_in m' c2 ca2 s2 sl2"
  obtains (new_slab) "c2 = c" "ca2 = ca'" "s2 = s" "sl2 = sl"
  | (same_cache) "c2 = c" "ca2 = ca'" "s2 \<noteq> s" "slab_in m c ca s2 sl2"
  | (other) "c2 \<noteq> c" "s2 \<noteq> s" "slab_in m c2 ca2 s2 sl2"
proof -
  note F = add_fields(1,2) [OF A] and ca = slab_addD(2) [OF A]
  have "s2 \<noteq> s" if "c2 \<noteq> c"
    using that h slab_addD(4) [OF A] by (auto simp: slab_in_def F slab_id_def)
  then consider "c2 = c" "s2 = s" | "c2 = c" "s2 \<noteq> s" | "c2 \<noteq> c" "s2 \<noteq> s" by blast
  then show thesis
    using h new_slab same_cache other slab_addD(12) [OF A] ca by cases (simp_all add: slab_in_def F)
qed

lemma add_slab_inI:
  assumes A: "slab_add pinv pheld m m' c s i ca ca' sl" and h: "slab_in m c2 ca2 s2 sl2"
  shows "slab_in m' c2 (if c2 = c then ca' else ca2) s2 sl2" "s2 \<noteq> s" "c2 = c \<Longrightarrow> ca2 = ca"
proof -
  show ns: "s2 \<noteq> s" using h slab_addD(4) [OF A] by (auto simp: slab_in_def slab_id_def)
  show ca: "c2 = c \<Longrightarrow> ca2 = ca" using h slab_addD(2) [OF A] by (simp add: slab_in_def)
  show "slab_in m' c2 (if c2 = c then ca' else ca2) s2 sl2"
    using h ns ca slab_addD(12) [OF A] by (auto simp: slab_in_def add_fields(1,2) [OF A])
qed

lemma add_objs:
  assumes A: "slab_add pinv pheld m m' c s i ca ca' sl"
  shows "objs_of m' c2 = objs_of m c2"
proof (intro equalityI subsetI)
  note S = statics_cong [OF slab_addD(6) [OF A]]
  fix a assume "a \<in> objs_of m' c2"
  then obtain ca2 s2 sl2 k where h: "slab_in m' c2 ca2 s2 sl2" "k < num ca2" "k \<notin> set (freelist sl2)" "a = obj_addr ca2 sl2 k"
    by (rule objs_ofE)
  from A h(1) show "a \<in> objs_of m c2"
    by (cases rule: add_slab_in) (use h slab_addD(10) [OF A] S(1,3) in \<open>auto intro: objs_ofI\<close>)
next
  note S = statics_cong [OF slab_addD(6) [OF A]]
  fix a assume "a \<in> objs_of m c2"
  then obtain ca2 s2 sl2 k where h: "slab_in m c2 ca2 s2 sl2" "k < num ca2" "k \<notin> set (freelist sl2)" "a = obj_addr ca2 sl2 k"
    by (rule objs_ofE)
  then show "a \<in> objs_of m' c2"
    using objs_ofI [OF add_slab_inI(1) [OF A h(1)], of k] S(1,3) add_slab_inI(3) [OF A h(1)] by (cases "c2 = c") auto
qed

lemma add_frame:
  assumes A: "slab_add pinv pheld m m' c s i ca ca' sl" shows "frame c m m'"
  using add_objs [OF A] slab_addD(2,6) [OF A] by (simp add: frame_def add_fields [OF A])

lemma add_mgmt:
  assumes A: "slab_add pinv pheld m m' c s i ca ca' sl"
  shows "mgmt m' = mgmt m \<union> (if off_slab ca then {s} else {})"
proof (rule set_eqI)
  fix t
  have "t \<in> mgmt m' \<longleftrightarrow> (off_slab ca \<and> t \<in> insert s (set (all_slabs ca))) \<or>
      (\<exists>c2 ca2. c2 \<noteq> c \<and> caches m c2 = Some ca2 \<and> off_slab ca2 \<and> t \<in> set (all_slabs ca2))"
    using slab_addD(12) [OF A] statics_cong(4) [OF slab_addD(6) [OF A]] by (auto simp: mgmt_def add_fields(1) [OF A])
  moreover have "t \<in> mgmt m \<longleftrightarrow> (off_slab ca \<and> t \<in> set (all_slabs ca)) \<or>
      (\<exists>c2 ca2. c2 \<noteq> c \<and> caches m c2 = Some ca2 \<and> off_slab ca2 \<and> t \<in> set (all_slabs ca2))"
    using slab_addD(2) [OF A] by (auto simp: mgmt_def) (metis option.inject)+
  ultimately show "t \<in> mgmt m' \<longleftrightarrow> t \<in> mgmt m \<union> (if off_slab ca then {s} else {})" by auto
qed

lemma add_inv:
  assumes A: "slab_add pinv pheld m m' c s i ca ca' sl" shows "slab_inv pinv pheld m'"
proof (rule slab_invI)
  note D = slab_invD [OF slab_addD(1) [OF A]] and F = add_fields [OF A] and AD = slab_addD [OF A]
  note S = statics_cong [OF AD(6)]
  have sb: "sblk ca' sl = blk (gfporder ca) i" using AD(9) S(6) by (simp add: sblk_def)
  show "pinv (pages m')" using D(1) by (simp add: F)
  show "cache_ok ca2 \<and> distinct (all_slabs ca2)" if "caches m' c2 = Some ca2" for c2 ca2
    using that D(2,3) AD(2,13) S(9) [OF AD(7)] by (auto simp: F(1) split: if_splits)
  show "\<exists>ca3. caches m' (slabp_cache ca2) = Some ca3 \<and> \<not> off_slab ca3 \<and> gfpflags ca3 AND GFP_DMA = 0"
    if h: "caches m' c2 = Some ca2" "off_slab ca2" for c2 ca2
  proof -
    have "\<exists>ca1. caches m c2 = Some ca1 \<and> slabp_cache ca1 = slabp_cache ca2 \<and> off_slab ca1"
      using h AD(2) S(4,5) by (cases "c2 = c") (simp_all add: F(1))
    then obtain ca3 where "caches m (slabp_cache ca2) = Some ca3" "\<not> off_slab ca3" "gfpflags ca3 AND GFP_DMA = 0"
      using D(4) by metis
    then show ?thesis using AD(2) S(4,7) by (cases "slabp_cache ca2 = c") (simp_all add: F(1))
  qed
  show "slabs m' s2 \<noteq> None" if "caches m' c2 = Some ca2" "s2 \<in> set (all_slabs ca2)" for c2 ca2 s2
    using that D(9) [of c2 _ s2] AD(2,12) by (cases "c2 = c") (auto simp: F(1,2) slab_in_def)
  fix c2 ca2 s2 sl2 assume h: "slab_in m' c2 ca2 s2 sl2"
  have ok_old: "slab_ok ca' s2 sl2" if "slab_in m c ca s2 sl2" "s2 \<noteq> s"
    using D(5) [OF that(1)] that(2) AD(14,15) S(3,4,6,8) unfolding slab_ok_def by (metis in_set_conv_decomp set_append UnE UnI1 set_ConsD empty_iff empty_set)
  show "slab_ok ca2 s2 sl2 \<and> (slab_base sl2, gfporder ca2) \<in> pheld (pages m')"
    using A h
    by (cases rule: add_slab_in) (use D(5,6) AD(3,8,9) ok_old S(6) in \<open>auto simp: F(3) spare_def\<close>)
  have old: "j \<notin> blk (gfporder ca) i" if "slab_in m c3 ca3 s3 sl3" "j \<in> sblk ca3 sl3" for j c3 ca3 s3 sl3
    using AD(3) that unfolding spare_def by blast
  show "page_links m' j = Some (c2, s2)" if "j \<in> sblk ca2 sl2" for j
    using A h
    by (cases rule: add_slab_in) (use that D(7) old S(2) sb in \<open>auto simp: F(5)\<close>)
  show "s2 \<in> objs_of m' (slabp_cache ca2)" if "off_slab ca2"
    unfolding add_objs [OF A] using A h
    by (cases rule: add_slab_in) (use that D(8) AD(5) S(4,5) in auto)
qed

lemma add_spare:
  assumes A: "slab_add pinv pheld m m' c s i ca ca' sl" and sp: "spare pheld m j q" "blk q j \<inter> blk (gfporder ca) i = {}"
  shows "spare pheld m' j q"
  unfolding spare_def
proof (intro conjI allI impI)
  show "(j, q) \<in> pheld (pages m')" using sp(1) by (simp add: spare_def add_fields(3) [OF A])
  fix c2 ca2 s2 sl2 assume h: "slab_in m' c2 ca2 s2 sl2"
  note S = statics_cong [OF slab_addD(6) [OF A]]
  have sb: "sblk ca' sl = blk (gfporder ca) i" using slab_addD(9) [OF A] S(6) by (simp add: sblk_def)
  have old: "sblk ca3 sl3 \<inter> blk q j = {}" if "slab_in m c3 ca3 s3 sl3" for c3 ca3 s3 sl3
    using sp(1) that unfolding spare_def by blast
  from A h show "sblk ca2 sl2 \<inter> blk q j = {}"
    by (cases rule: add_slab_in) (use sp(2) sb old S(2) in \<open>simp_all add: Int_commute\<close>)
qed

lemma slab_in_pages [simp]: "slab_in (m\<lparr>pages := p\<rparr>) c ca s sl = slab_in m c ca s sl"
  "objs_of (m\<lparr>pages := p\<rparr>) c = objs_of m c" "mgmt (m\<lparr>pages := p\<rparr>) = mgmt m" "frame c m (m\<lparr>pages := p\<rparr>)"
  "objs (m\<lparr>pages := p\<rparr>) = objs m"
  by (simp_all add: slab_in_def objs_of_def mgmt_def frame_def objs_def)

lemma inv_pages:
  assumes "slab_inv pinv pheld m" "pinv p"
    "\<And>c ca s sl. slab_in m c ca s sl \<Longrightarrow> (slab_base sl, gfporder ca) \<in> pheld p"
  shows "slab_inv pinv pheld (m\<lparr>pages := p\<rparr>)"
  using assms by (simp add: slab_inv_def)

text \<open>Fields of a cache that do not concern its slabs.\<close>

lemma cache_fields:
  assumes inv: "slab_inv pinv pheld m" and ca: "caches m c = Some ca"
    and st: "statics ca' = statics ca" "slabs_full ca' = slabs_full ca" "slabs_partial ca' = slabs_partial ca"
      "slabs_free ca' = slabs_free ca" and ok: "cache_ok ca'"
    and m': "m' = store_cache c ca' m"
  shows "slab_inv pinv pheld m'" "objs_of m' c2 = objs_of m c2" "mgmt m' = mgmt m" "frame c m m'" "pages m' = pages m"
    "spare pheld m i order \<Longrightarrow> spare pheld m' i order"
proof -
  note S = statics_cong [OF st(1)] and D = slab_invD [OF inv]
  have all: "all_slabs ca' = all_slabs ca" using st by (simp add: all_slabs_def)
  have F: "caches m' x = (if x = c then Some ca' else caches m x)" "slabs m' = slabs m" "pages m' = pages m"
    "page_links m' = page_links m" "cache_sizes m' = cache_sizes m" for x
    by (simp_all add: m' store_cache_def)
  have into: "slab_in m' c2 (if c2 = c then ca' else ca2) s2 sl2" if "slab_in m c2 ca2 s2 sl2" for c2 ca2 s2 sl2
    using that ca all by (auto simp: slab_in_def F)
  have out: "\<exists>ca1. slab_in m c2 ca1 s2 sl2 \<and> statics ca1 = statics ca2 \<and> slabs_full ca1 = slabs_full ca2 \<and> slabs_free ca1 = slabs_free ca2"
    if "slab_in m' c2 ca2 s2 sl2" for c2 ca2 s2 sl2
    using that ca all st by (cases "c2 = c") (simp_all add: slab_in_def F)
  show pg: "pages m' = pages m" by (rule F)
  show objs: "objs_of m' c2 = objs_of m c2" for c2
  proof (intro equalityI subsetI)
    fix a assume "a \<in> objs_of m' c2"
    then obtain ca2 s2 sl2 k where h: "slab_in m' c2 ca2 s2 sl2" "k < num ca2" "k \<notin> set (freelist sl2)" "a = obj_addr ca2 sl2 k"
      by (rule objs_ofE)
    obtain ca1 where "slab_in m c2 ca1 s2 sl2" "statics ca1 = statics ca2" using out [OF h(1)] by blast
    then show "a \<in> objs_of m c2" using h objs_ofI [of m c2 ca1 s2 sl2 k] statics_cong(1,3) [of ca1 ca2] by simp
  next
    fix a assume "a \<in> objs_of m c2"
    then obtain ca2 s2 sl2 k where h: "slab_in m c2 ca2 s2 sl2" "k < num ca2" "k \<notin> set (freelist sl2)" "a = obj_addr ca2 sl2 k"
      by (rule objs_ofE)
    then show "a \<in> objs_of m' c2"
      using objs_ofI [OF into [OF h(1)], of k] S(1,3) ca by (cases "c2 = c") (auto simp: slab_in_def)
  qed
  show fr: "frame c m m'" using objs ca st(1) by (simp add: frame_def F)
  have "(\<exists>c2 ca2. caches m' c2 = Some ca2 \<and> off_slab ca2 \<and> t \<in> set (all_slabs ca2)) \<longleftrightarrow>
        (\<exists>c2 ca2. caches m c2 = Some ca2 \<and> off_slab ca2 \<and> t \<in> set (all_slabs ca2))" for t
    using ca all S(4) unfolding F by (metis option.inject)
  then show "mgmt m' = mgmt m" by (simp add: mgmt_def)
  show "spare pheld m' i order" if "spare pheld m i order"
    using that out statics_cong(2) unfolding spare_def pg by metis
  have sok: "slab_ok ca2 s2 sl2" if "slab_ok ca1 s2 sl2" "statics ca1 = statics ca2" "slabs_full ca1 = slabs_full ca2"
    "slabs_free ca1 = slabs_free ca2" for ca1 ca2 s2 sl2
    using that by (auto simp: slab_ok_def statics_def)
  show "slab_inv pinv pheld m'"
  proof (rule slab_invI)
    show "pinv (pages m')" using D(1) by (simp add: F)
    show "cache_ok ca2 \<and> distinct (all_slabs ca2)" if "caches m' c2 = Some ca2" for c2 ca2
      using that D(2,3) ca ok all by (auto simp: F split: if_splits)
    show "\<exists>ca3. caches m' (slabp_cache ca2) = Some ca3 \<and> \<not> off_slab ca3 \<and> gfpflags ca3 AND GFP_DMA = 0"
      if h: "caches m' c2 = Some ca2" "off_slab ca2" for c2 ca2
    proof -
      have "\<exists>ca1. caches m c2 = Some ca1 \<and> slabp_cache ca1 = slabp_cache ca2 \<and> off_slab ca1"
        using h ca S(4,5) by (cases "c2 = c") (simp_all add: F(1))
      then obtain ca3 where "caches m (slabp_cache ca2) = Some ca3" "\<not> off_slab ca3" "gfpflags ca3 AND GFP_DMA = 0"
        using D(4) by metis
      then show ?thesis using ca S(4,7) by (cases "slabp_cache ca2 = c") (simp_all add: F(1))
    qed
    show "slabs m' s2 \<noteq> None" if "caches m' c2 = Some ca2" "s2 \<in> set (all_slabs ca2)" for c2 ca2 s2
      using that D(9) [of c2 _ s2] ca all by (cases "c2 = c") (auto simp: F slab_in_def)
    fix c2 ca2 s2 sl2 assume h: "slab_in m' c2 ca2 s2 sl2"
    then obtain ca1 where o: "slab_in m c2 ca1 s2 sl2" "statics ca1 = statics ca2" "slabs_full ca1 = slabs_full ca2"
      "slabs_free ca1 = slabs_free ca2" using out by blast
    note T = statics_cong [OF o(2)]
    show "slab_ok ca2 s2 sl2 \<and> (slab_base sl2, gfporder ca2) \<in> pheld (pages m')"
      using D(5,6) [OF o(1)] sok [OF _ o(2-4)] T(6) by (simp add: F)
    show "page_links m' j = Some (c2, s2)" if "j \<in> sblk ca2 sl2" for j using D(7) [OF o(1)] T(2) that by (simp add: F)
    show "s2 \<in> objs_of m' (slabp_cache ca2)" if "off_slab ca2" using D(8) [OF o(1)] T(4,5) that by (simp add: objs)
  qed
qed

lemma fresh_slab:
  assumes "cache_ok ca" and sl: "sl = kmem_cache_init_objs ca \<lparr>colouroff = x, s_mem = page_address i + x, inuse = 0, sfree = 0, bufctl = []\<rparr>"
  shows "freelist sl = [0..<num ca]" "slab_base sl = i" "inuse sl = 0" "colouroff sl = x" "s_mem sl = page_address i + x"
    "length (bufctl sl) = num ca" "chain (bufctl sl) (sfree sl) [0..<num ca]"
proof -
  show f: "inuse sl = 0" "colouroff sl = x" "s_mem sl = page_address i + x" "length (bufctl sl) = num ca"
    by (simp_all add: sl kmem_cache_init_objs_def)
  then show "slab_base sl = i" by (simp add: slab_base_def virt_to_page_def page_address_def)
  show ch: "chain (bufctl sl) (sfree sl) [0..<num ca]"
    using chain_fresh [of "num ca" 0] assms(1) by (simp add: sl kmem_cache_init_objs_def cache_ok_def)
  show "freelist sl = [0..<num ca]"
    using freelist_chain [OF ch] f(4) assms(1) by (simp add: cache_ok_def)
qed

subsection \<open>Growing and allocating, over any page allocator\<close>

definition grow_flags_ok :: "bool \<Rightarrow> int \<Rightarrow> bool" where
  "grow_flags_ok irq flags \<longleftrightarrow> flags AND NOT (GFP_DMA OR SLAB_LEVEL_MASK OR SLAB_NO_GROW) = 0 \<and>
     (irq \<longrightarrow> flags AND SLAB_LEVEL_MASK = SLAB_ATOMIC)"

lemma local_flags_ok:
  assumes "grow_flags_ok irq flags"
  shows "grow_flags_ok irq (flags AND SLAB_LEVEL_MASK)" "(flags AND SLAB_LEVEL_MASK) AND GFP_DMA = 0"
  using assms by (simp_all add: grow_flags_ok_def and.assoc)

lemma colour_fits:
  assumes "cache_ok ca"
  shows "(if off_slab ca then 0 else slab_size (num ca)) + num ca * objsize ca + colour_next ca * colour_off ca
       \<le> PAGE_SIZE * 2 ^ gfporder ca"
proof -
  have "colour_next ca * colour_off ca \<le> colour ca * colour_off ca"
    using assms by (intro mult_right_mono) (auto simp: cache_ok_def)
  then show ?thesis using assms unfolding cache_ok_def by linarith
qed

lemma slab_size_pos: "0 < slab_size n"
  by (simp add: slab_size_def L1_CACHE_ALIGN_def)

text \<open>One step of the allocator that may touch cache \<open>c\<close> and takes pages only from the page allocator.\<close>

definition good :: "('p \<Rightarrow> bool) \<Rightarrow> ('p \<Rightarrow> (nat \<times> nat) set) \<Rightarrow> nat \<Rightarrow> 'p slab_mem \<Rightarrow> 'p slab_mem \<Rightarrow> bool" where
  "good pinv pheld c m m' \<longleftrightarrow> slab_inv pinv pheld m' \<and> frame c m m' \<and>
     (\<forall>i order. spare pheld m i order \<longrightarrow> spare pheld m' i order)"

lemma good_refl: "slab_inv pinv pheld m \<Longrightarrow> good pinv pheld c m m"
  by (simp add: good_def)

lemma good_trans: "good pinv pheld c m1 m2 \<Longrightarrow> good pinv pheld c m2 m3 \<Longrightarrow> good pinv pheld c m1 m3"
  by (auto simp: good_def intro: frame_trans)

text \<open>An allocation from cache \<open>c\<close> alone.\<close>

definition got ::
  "('p \<Rightarrow> bool) \<Rightarrow> ('p \<Rightarrow> (nat \<times> nat) set) \<Rightarrow> nat \<Rightarrow> 'p slab_mem \<Rightarrow> nat option \<Rightarrow> 'p slab_mem \<Rightarrow> bool" where
  "got pinv pheld c m r m' \<longleftrightarrow> good pinv pheld c m m' \<and> mgmt m' = mgmt m \<and>
     (case r of None \<Rightarrow> objs_of m' c = objs_of m c
      | Some a \<Rightarrow> a \<notin> objs m \<and> objs_of m' c = insert a (objs_of m c))"

lemma objs_same: "frame c m m' \<Longrightarrow> objs_of m' c = objs_of m c \<Longrightarrow> objs m' = objs m"
  unfolding objs_def frame_def by (metis (no_types, lifting) SUP_cong)

definition same_statics :: "'p slab_mem \<Rightarrow> 'p slab_mem \<Rightarrow> bool" where
  "same_statics m m' \<longleftrightarrow> (\<forall>c. map_option statics (caches m' c) = map_option statics (caches m c)) \<and> cache_sizes m' = cache_sizes m"

lemma same_statics_refl [simp]: "same_statics m m"
  by (simp add: same_statics_def)

lemma same_statics_trans: "same_statics a b \<Longrightarrow> same_statics b c \<Longrightarrow> same_statics a c"
  by (simp add: same_statics_def)

lemma frame_statics: "frame c m m' \<Longrightarrow> same_statics m m'"
  unfolding frame_def same_statics_def by metis

lemma growing_field:
  assumes inv: "slab_inv pinv pheld m" and ca: "caches m c = Some ca"
  shows "good pinv pheld c m (store_cache c (ca\<lparr>growing := n\<rparr>) m)"
    "objs_of (store_cache c (ca\<lparr>growing := n\<rparr>) m) c2 = objs_of m c2"
    "mgmt (store_cache c (ca\<lparr>growing := n\<rparr>) m) = mgmt m"
proof -
  have "statics (ca\<lparr>growing := n\<rparr>) = statics ca" "cache_ok (ca\<lparr>growing := n\<rparr>)"
    using slab_invD(2) [OF inv ca] by (auto simp: statics_def cache_ok_def)
  note C = cache_fields [OF inv ca this(1) _ _ _ this(2) refl]
  show "good pinv pheld c m (store_cache c (ca\<lparr>growing := n\<rparr>) m)"
    "objs_of (store_cache c (ca\<lparr>growing := n\<rparr>) m) c2 = objs_of m c2"
    "mgmt (store_cache c (ca\<lparr>growing := n\<rparr>) m) = mgmt m"
    using C by (simp_all add: good_def)
qed

text \<open>The table of general caches: a plain and a DMA cache for every size.\<close>

definition sizes_ok :: "'p slab_mem \<Rightarrow> bool" where
  "sizes_ok m \<longleftrightarrow> (\<forall>(n, c, d) \<in> set (cache_sizes m).
     (\<exists>ca. caches m c = Some ca \<and> gfpflags ca AND GFP_DMA = 0 \<and> n \<le> objsize ca) \<and>
     (\<exists>ca. caches m d = Some ca \<and> gfpflags ca AND GFP_DMA \<noteq> 0 \<and> n \<le> objsize ca))"

lemma statics_Some:
  assumes "same_statics m m'" "caches m c = Some ca"
  shows "\<exists>ca'. caches m' c = Some ca' \<and> statics ca' = statics ca"
  using assms unfolding same_statics_def by (metis map_option_eq_Some option.simps(9))

lemma sizes_ok_statics:
  assumes st: "same_statics m m'" and sz: "sizes_ok m"
  shows "sizes_ok m'"
proof -
  have "\<exists>ca'. caches m' c = Some ca' \<and> gfpflags ca' = gfpflags ca \<and> objsize ca' = objsize ca"
    if "caches m c = Some ca" for c ca
    using statics_Some [OF st that] statics_cong(7,8) by blast
  note key = this
  show ?thesis
    unfolding sizes_ok_def
  proof (intro ballI, clarify)
    fix n c d assume "(n, c, d) \<in> set (cache_sizes m')"
    then have "(n, c, d) \<in> set (cache_sizes m)" using st by (simp add: same_statics_def)
    then obtain ca cb where "caches m c = Some ca" "gfpflags ca AND GFP_DMA = 0" "n \<le> objsize ca"
      "caches m d = Some cb" "gfpflags cb AND GFP_DMA \<noteq> 0" "n \<le> objsize cb" using sz unfolding sizes_ok_def by blast
    then show "(\<exists>ca. caches m' c = Some ca \<and> gfpflags ca AND GFP_DMA = 0 \<and> n \<le> objsize ca) \<and>
        (\<exists>ca. caches m' d = Some ca \<and> gfpflags ca AND GFP_DMA \<noteq> 0 \<and> n \<le> objsize ca)"
      using key [of c ca] key [of d cb] by force
  qed
qed

lemma find_general_mem: "find_general n xs = Some (c, d) \<Longrightarrow> \<exists>cs. (cs, c, d) \<in> set xs \<and> n \<le> cs"
  by (induction n xs rule: find_general.induct) (auto split: if_splits)

context page_allocator
begin

lemma getpages_correct:
  assumes inv: "slab_inv pinv pheld m" and ok: "gfporder ca < MAX_ORDER"
  obtains (none) "kmem_getpages get_pages flags ca m = Inr (None, m)"
  | (some) i p where "kmem_getpages get_pages flags ca m = Inr (Some i, m\<lparr>pages := p\<rparr>)"
      "good pinv pheld c m (m\<lparr>pages := p\<rparr>)" "spare pheld (m\<lparr>pages := p\<rparr>) i (gfporder ca)"
      "\<And>j q. spare pheld m j q \<Longrightarrow> blk q j \<inter> blk (gfporder ca) i = {}"
proof -
  have pi: "pinv (pages m)" using slab_invD(1) [OF inv] .
  obtain r p where r: "get_pages (flags OR gfpflags ca) (gfporder ca) (pages m) = Inr (r, p)"
    using get_total [OF pi ok] by blast
  show thesis
  proof (cases r)
    case None
    then have "p = pages m" using get_None [OF pi ok] r by blast
    then show ?thesis using none r None by (simp add: kmem_getpages_def)
  next
    case (Some i)
    note G = get_Some [OF pi ok, of "flags OR gfpflags ca" i p]
    have G': "pinv p" "blk (gfporder ca) i \<subseteq> pavail (pages m)" "(i, gfporder ca) \<in> pheld p" "pheld (pages m) \<subseteq> pheld p"
      using G r Some by simp_all
    have un: "blk q j \<inter> blk (gfporder ca) i = {}" if "(j, q) \<in> pheld (pages m)" for j q
      using held_unavail [OF that] G'(2) by blast
    have "slab_inv pinv pheld (m\<lparr>pages := p\<rparr>)"
      using inv G' slab_invD(6) [OF inv] by (intro inv_pages) auto
    moreover have "spare pheld (m\<lparr>pages := p\<rparr>) j q" if "spare pheld m j q" for j q
      using that G'(4) by (auto simp: spare_def)
    moreover have "spare pheld (m\<lparr>pages := p\<rparr>) i (gfporder ca)"
      using G'(3) un slab_invD(6) [OF inv] by (auto simp: spare_def sblk_def)
    ultimately show ?thesis
      using some r Some un by (auto simp: kmem_getpages_def good_def spare_def)
  qed
qed

text \<open>The last steps of \<^verbatim>\<open>kmem_cache_grow\<close>, for a slab whose management data has been placed at \<open>s\<close>.\<close>

lemma grow_attach:
  assumes inv: "slab_inv pinv pheld m" and ca: "caches m c = Some ca" and sp: "spare pheld m i (gfporder ca)"
    and new: "\<not> slab_id m s" and off: "off_slab ca \<Longrightarrow> s \<in> objs_of m (slabp_cache ca)"
    and on: "\<not> off_slab ca \<Longrightarrow> page_address i \<le> s \<and> s < page_address i + x"
    and x: "x + num ca * objsize ca \<le> PAGE_SIZE * 2 ^ gfporder ca"
    and ca0: "statics ca0 = statics ca"
    and m': "m' = store_cache c (ca\<lparr>growing := g, slabs_free := slabs_free ca @ [s], failures := 0\<rparr>)
        (store_slab s (kmem_cache_init_objs ca0 \<lparr>colouroff = x, s_mem = page_address i + x, inuse = 0, sfree = 0, bufctl = []\<rparr>)
          (set_page_links i (gfporder ca) c s m))"
  shows "slab_inv pinv pheld m'" "frame c m m'" "objs_of m' c2 = objs_of m c2" "mgmt m' = mgmt m \<union> (if off_slab ca then {s} else {})"
    "spare pheld m j q \<Longrightarrow> blk q j \<inter> blk (gfporder ca) i = {} \<Longrightarrow> spare pheld m' j q"
proof -
  let ?ca = "ca\<lparr>growing := g, slabs_free := slabs_free ca @ [s], failures := 0\<rparr>"
  define sl where "sl = kmem_cache_init_objs ca0 \<lparr>colouroff = x, s_mem = page_address i + x, inuse = 0, sfree = 0, bufctl = []\<rparr>"
  have ok: "cache_ok ca" using slab_invD(2) [OF inv ca] .
  have "num ca0 = num ca" using statics_cong(3) [OF ca0] .
  then have sl: "sl = kmem_cache_init_objs ca \<lparr>colouroff = x, s_mem = page_address i + x, inuse = 0, sfree = 0, bufctl = []\<rparr>"
    by (simp add: sl_def kmem_cache_init_objs_def)
  note F = fresh_slab [OF ok sl]
  have "s \<notin> set (slabs_full ca)" using new ca by (auto simp: slab_id_def all_slabs_def)
  then have "slab_ok ?ca s sl"
    using F x on ok by (auto simp: slab_ok_def cache_ok_def)
  then have A: "slab_add pinv pheld m m' c s i ca ?ca sl"
    using inv ca sp new off F m' by (simp add: slab_add_def statics_def sl_def)
  show "slab_inv pinv pheld m'" by (rule add_inv [OF A])
  show "frame c m m'" by (rule add_frame [OF A])
  show "objs_of m' c2 = objs_of m c2" by (rule add_objs [OF A])
  show "mgmt m' = mgmt m \<union> (if off_slab ca then {s} else {})" by (rule add_mgmt [OF A])
  show "spare pheld m j q \<Longrightarrow> blk q j \<inter> blk (gfporder ca) i = {} \<Longrightarrow> spare pheld m' j q" by (rule add_spare [OF A])
qed

lemma freepages_correct:
  assumes inv: "slab_inv pinv pheld m" and sp: "spare pheld m i (gfporder ca)"
  shows "\<exists>m'. kmem_freepages put_pages ca i m = Inr m' \<and> slab_inv pinv pheld m' \<and> caches m' = caches m \<and>
     slabs m' = slabs m \<and> cache_sizes m' = cache_sizes m"
proof -
  have "(i, gfporder ca) \<in> pheld (pages m)" using sp by (simp add: spare_def)
  then obtain p where p: "put_pages i (gfporder ca) (pages m) = Inr p" "pinv p"
    "\<forall>(j, q) \<in> pheld (pages m). blk q j \<inter> blk (gfporder ca) i = {} \<longrightarrow> (j, q) \<in> pheld p"
    using put_held [OF slab_invD(1) [OF inv]] by blast
  define m' where "m' = m\<lparr>pages := p, page_links := (\<lambda>j. if j \<in> blk (gfporder ca) i then None else page_links m j)\<rparr>"
  have r: "kmem_freepages put_pages ca i m = Inr m'" using p(1) by (simp add: kmem_freepages_def m'_def blk_def)
  have si: "slab_in m' = slab_in m" "objs_of m' = objs_of m" by (intro ext, simp add: m'_def slab_in_def objs_of_def)+
  have dis: "sblk ca2 sl \<inter> blk (gfporder ca) i = {}" if "slab_in m c ca2 s sl" for c ca2 s sl
    using sp that unfolding spare_def by blast
  note D = slab_invD [OF inv]
  have "slab_inv pinv pheld m'"
  proof (rule slab_invI)
    show "pinv (pages m')" using p(2) by (simp add: m'_def)
    fix c ca2 s sl assume h: "slab_in m' c ca2 s sl"
    then have h': "slab_in m c ca2 s sl" by (simp add: si)
    have "blk (gfporder ca2) (slab_base sl) \<inter> blk (gfporder ca) i = {}" using dis [OF h'] by (simp add: sblk_def)
    then show "slab_ok ca2 s sl \<and> (slab_base sl, gfporder ca2) \<in> pheld (pages m')"
      using D(5,6) [OF h'] p(3) by (auto simp: m'_def)
    show "page_links m' j = Some (c, s)" if "j \<in> sblk ca2 sl" for j
      using D(7) [OF h' that] dis [OF h'] that by (auto simp: m'_def)
    show "s \<in> objs_of m' (slabp_cache ca2)" if "off_slab ca2" using D(8) [OF h' that] by (simp add: si)
  qed (use D(2,3,4,9) in \<open>auto simp: m'_def slab_in_def\<close>)
  then show ?thesis using r by (auto simp: m'_def)
qed

lemma grow_unfold:
  assumes "grow_flags_ok irq flags" "flags AND SLAB_NO_GROW = 0" "caches m c = Some ca"
    "ca1 = ca\<lparr>colour_next := (if colour_next ca + 1 \<ge> colour ca then 0 else colour_next ca + 1),
      dflags := dflags ca OR 1, growing := growing ca + 1\<rparr>"
    "m1 = store_cache c ca1 m"
  shows "kmem_cache_grow gp pp alloc irq flags c m =
    kbind (kmem_getpages gp flags ca1 m1) (\<lambda>(r, m2).
      case r of
        None \<Rightarrow> Inr (False, store_cache c (ca1\<lparr>growing := growing ca1 - 1\<rparr>) m2)
      | Some i \<Rightarrow>
          kbind (kmem_cache_slabmgmt alloc ca1 (page_address i) (colour_next ca * colour_off ca) (flags AND SLAB_LEVEL_MASK) m2) (\<lambda>(r, m3).
            kbind (load_cache c m3) (\<lambda>ca3.
              case r of
                None \<Rightarrow> kbind (kmem_freepages pp ca1 i m3) (\<lambda>m4. Inr (False, store_cache c (ca3\<lparr>growing := growing ca3 - 1\<rparr>) m4))
              | Some (s, sl) \<Rightarrow>
                  Inr (True, store_cache c (ca3\<lparr>growing := growing ca3 - 1, slabs_free := slabs_free ca3 @ [s], failures := 0\<rparr>)
                    (store_slab s (kmem_cache_init_objs ca1 sl) (set_page_links i (gfporder ca1) c s m3))))))"
proof -
  have c: "(flags AND NOT (GFP_DMA OR SLAB_LEVEL_MASK OR SLAB_NO_GROW) \<noteq> 0) = False" "(flags AND SLAB_NO_GROW \<noteq> 0) = False"
    "(irq \<and> flags AND SLAB_LEVEL_MASK \<noteq> SLAB_ATOMIC) = False"
    using assms(1,2) by (auto simp: grow_flags_ok_def)
  have l: "load_cache c m = Inr ca" using assms(3) by (simp add: load_cache_def)
  show ?thesis unfolding kmem_cache_grow_def c if_False l kbind_simps Let_def assms(4,5) by (rule refl)
qed

lemma grow_on_correct:
  assumes inv: "slab_inv pinv pheld m" and ca: "caches m c = Some ca" and on: "\<not> off_slab ca"
    and fl: "grow_flags_ok irq flags"
  shows "\<exists>g m'. kmem_cache_grow get_pages put_pages alloc irq flags c m = Inr (g, m') \<and> good pinv pheld c m m' \<and>
     objs_of m' c = objs_of m c \<and> mgmt m' = mgmt m \<and> (g \<longrightarrow> (\<exists>ca'. caches m' c = Some ca' \<and> slabs_free ca' \<noteq> []))"
proof (cases "flags AND SLAB_NO_GROW = 0")
  case False
  then have "kmem_cache_grow get_pages put_pages alloc irq flags c m = Inr (False, m)"
    using fl by (simp add: kmem_cache_grow_def grow_flags_ok_def)
  then show ?thesis using good_refl [OF inv] by (intro exI [of _ False] exI [of _ m]) simp
next
  case True
  have ok: "cache_ok ca" using slab_invD(2) [OF inv ca] .
  define off where "off = colour_next ca * colour_off ca"
  define ca1 where "ca1 = ca\<lparr>colour_next := (if colour_next ca + 1 \<ge> colour ca then 0 else colour_next ca + 1),
      dflags := dflags ca OR 1, growing := growing ca + 1\<rparr>"
  define m1 where "m1 = store_cache c ca1 m"
  have st: "statics ca1 = statics ca" by (simp add: ca1_def statics_def)
  note S = statics_cong [OF st]
  have ok1: "cache_ok ca1" using ok by (auto simp: cache_ok_def ca1_def)
  note C1 = cache_fields [OF inv ca st _ _ _ ok1 m1_def]
  have g1: "good pinv pheld c m m1" "slab_inv pinv pheld m1" using C1 by (simp_all add: good_def ca1_def)
  have ca1: "caches m1 c = Some ca1" by (simp add: m1_def store_cache_def)
  note C2 = growing_field [OF g1(2) ca1, of "growing ca1 - 1"]
  have g1': "good pinv pheld c m (store_cache c (ca1\<lparr>growing := growing ca1 - 1\<rparr>) m1)"
    "objs_of (store_cache c (ca1\<lparr>growing := growing ca1 - 1\<rparr>) m1) c = objs_of m c"
    "mgmt (store_cache c (ca1\<lparr>growing := growing ca1 - 1\<rparr>) m1) = mgmt m"
    using good_trans [OF g1(1) C2(1)] C2(2,3) C1(2,3) by (simp_all add: ca1_def)
  have gfp: "gfporder ca1 < MAX_ORDER" using ok1 by (simp add: cache_ok_def)
  note unfold = grow_unfold [OF fl True ca ca1_def m1_def, of get_pages put_pages alloc]
  from g1(2) gfp show ?thesis
  proof (cases rule: getpages_correct [where flags = flags and c = c])
    case none
    then show ?thesis
      using unfold g1' by (intro exI [of _ False] exI [of _ "store_cache c (ca1\<lparr>growing := growing ca1 - 1\<rparr>) m1"]) simp
  next
    case (some i p)
    define m2 where "m2 = m1\<lparr>pages := p\<rparr>"
    let ?s = "page_address i + off" and ?x = "off + slab_size (num ca1)"
    have fits: "?x + num ca1 * objsize ca1 \<le> PAGE_SIZE * 2 ^ gfporder ca1"
      using colour_fits [OF ok] on S(3,6,8) by (simp add: off_def)
    have inv2: "slab_inv pinv pheld m2" and sp: "spare pheld m2 i (gfporder ca1)"
      using some by (simp_all add: m2_def good_def)
    have "off < PAGE_SIZE * 2 ^ gfporder ca1" using fits slab_size_pos [of "num ca1"] by linarith
    then have fresh: "\<not> slab_id m2 ?s" by (rule fresh_on_slab [OF inv2 sp])
    have ca2: "caches m2 c = Some ca1" using ca1 by (simp add: m2_def)
    define m' where "m' = store_cache c (ca1\<lparr>growing := growing ca1 - 1, slabs_free := slabs_free ca1 @ [?s], failures := 0\<rparr>)
        (store_slab ?s (kmem_cache_init_objs ca1 \<lparr>colouroff = ?x, s_mem = page_address i + ?x, inuse = 0, sfree = 0, bufctl = []\<rparr>)
          (set_page_links i (gfporder ca1) c ?s m2))"
    note A = grow_attach [OF inv2 ca2 sp fresh _ _ fits refl m'_def]
    have A': "slab_inv pinv pheld m'" "frame c m2 m'" "objs_of m' c = objs_of m2 c" "mgmt m' = mgmt m2"
      "\<And>j q. spare pheld m2 j q \<Longrightarrow> blk q j \<inter> blk (gfporder ca1) i = {} \<Longrightarrow> spare pheld m' j q"
      using A on S(4) slab_size_pos [of "num ca1"] by auto
    have "good pinv pheld c m1 m'"
      unfolding good_def
    proof (intro conjI allI impI)
      show "frame c m1 m'" using frame_trans [OF slab_in_pages(4)] A'(2) unfolding m2_def .
      fix j q assume "spare pheld m1 j q"
      then show "spare pheld m' j q" using some(2,4) A'(5) by (auto simp: m2_def good_def)
    qed (rule A')
    with g1(1) have "good pinv pheld c m m'" by (rule good_trans)
    moreover have "objs_of m' c = objs_of m c" "mgmt m' = mgmt m"
      using A'(3,4) C1 by (simp_all add: m2_def ca1_def)
    moreover have "\<exists>ca'. caches m' c = Some ca' \<and> slabs_free ca' \<noteq> []" by (simp add: m'_def store_cache_def)
    moreover have "kmem_cache_grow get_pages put_pages alloc irq flags c m = Inr (True, m')"
      unfolding unfold some(1) using on S(4) ca2
      by (simp add: kmem_cache_slabmgmt_def load_cache_def m'_def m2_def off_def Let_def)
    ultimately show ?thesis by blast
  qed
qed

text \<open>What an allocation from a cache with its management on slab does.\<close>

lemma alloc_try_on:
  assumes inv: "slab_inv pinv pheld m" and ca: "caches m c = Some ca" and on: "\<not> off_slab ca"
    and fl: "grow_flags_ok irq flags" and fuel: "2 \<le> fuel"
  shows "\<exists>r m'. alloc_try fuel get_pages put_pages irq flags c m = Inr (r, m') \<and> got pinv pheld c m r m'"
proof -
  obtain f where f: "fuel = Suc (Suc f)" using fuel that [of "fuel - 2"] by simp
  have one: "\<exists>r. alloc_try (Suc k) get_pages put_pages irq flags c m1 = Inr (r, m2) \<and> got pinv pheld c m1 r m2"
    if "kmem_cache_alloc_one c m1 = Inr (Some (a, m2))" "slab_inv pinv pheld m1" "caches m1 c = Some ca1" for m1 m2 a k ca1
  proof -
    have "got pinv pheld c m1 (Some a) m2"
      using alloc_one_correct [OF that(2,1,3)] by (simp add: got_def good_def)
    then show ?thesis using that(1) by (simp add: alloc_try.simps)
  qed
  show ?thesis
  proof (cases "\<exists>a m2. kmem_cache_alloc_one c m = Inr (Some (a, m2))")
    case True
    then show ?thesis using one [OF _ inv ca] f by blast
  next
    case False
    from inv ca False have none: "kmem_cache_alloc_one c m = Inr None" by (cases rule: alloc_one_cases) auto
    let ?al = "\<lambda>flags c m. kbind (kmem_cache_alloc_head flags c m) (\<lambda>_. alloc_try (Suc f) get_pages put_pages irq flags c m)"
    obtain g m1 where g: "kmem_cache_grow get_pages put_pages ?al irq flags c m = Inr (g, m1)" "good pinv pheld c m m1"
      "objs_of m1 c = objs_of m c" "mgmt m1 = mgmt m" "g \<longrightarrow> (\<exists>ca'. caches m1 c = Some ca' \<and> slabs_free ca' \<noteq> [])"
      using grow_on_correct [OF inv ca on fl, of ?al] by blast
    have inv1: "slab_inv pinv pheld m1" using g(2) by (simp add: good_def)
    show ?thesis
    proof (cases g)
      case False
      then show ?thesis using none g f by (simp add: alloc_try.simps got_def)
    next
      case True
      then obtain ca' where ca': "caches m1 c = Some ca'" "slabs_free ca' \<noteq> []" using g(5) by blast
      then obtain a m2 where "kmem_cache_alloc_one c m1 = Inr (Some (a, m2))"
        by (cases rule: alloc_one_cases [OF inv1 ca'(1)]) auto
      then obtain r where r: "alloc_try (Suc f) get_pages put_pages irq flags c m1 = Inr (r, m2)" "got pinv pheld c m1 r m2"
        using one [OF _ inv1 ca'(1)] by blast
      have "objs m1 = objs m" using g(2,3) by (intro objs_same [of c]) (simp_all add: good_def)
      then have "got pinv pheld c m r m2"
        using r(2) g(2-4) good_trans [OF g(2)] by (auto simp: got_def split: option.splits)
      then show ?thesis using none g(1) r(1) True f by (simp add: alloc_try.simps(2) [of "Suc f"])
    qed
  qed
qed

text \<open>Off slab: the new slab's management data is an object of a general cache.\<close>

lemma grow_off_correct:
  assumes inv: "slab_inv pinv pheld m" and ca: "caches m c = Some ca" and off: "off_slab ca"
    and fl: "grow_flags_ok irq flags"
    and alloc: "\<And>m1 ca1. slab_inv pinv pheld m1 \<Longrightarrow> caches m1 (slabp_cache ca) = Some ca1 \<Longrightarrow> \<not> off_slab ca1 \<Longrightarrow>
       gfpflags ca1 AND GFP_DMA = 0 \<Longrightarrow>
       \<exists>r m2. alloc (flags AND SLAB_LEVEL_MASK) (slabp_cache ca) m1 = Inr (r, m2) \<and> got pinv pheld (slabp_cache ca) m1 r m2"
  shows "\<exists>g m'. kmem_cache_grow get_pages put_pages alloc irq flags c m = Inr (g, m') \<and> slab_inv pinv pheld m' \<and>
     live m' = live m \<and> objs m \<subseteq> objs m' \<and> same_statics m m' \<and> (g \<longrightarrow> (\<exists>ca'. caches m' c = Some ca' \<and> slabs_free ca' \<noteq> []))"
proof (cases "flags AND SLAB_NO_GROW = 0")
  case False
  then have "kmem_cache_grow get_pages put_pages alloc irq flags c m = Inr (False, m)"
    using fl by (simp add: kmem_cache_grow_def grow_flags_ok_def)
  then show ?thesis using inv by (intro exI [of _ False] exI [of _ m]) simp
next
  case True
  have ok: "cache_ok ca" using slab_invD(2) [OF inv ca] .
  define ca1 where "ca1 = ca\<lparr>colour_next := (if colour_next ca + 1 \<ge> colour ca then 0 else colour_next ca + 1),
      dflags := dflags ca OR 1, growing := growing ca + 1\<rparr>"
  define m1 where "m1 = store_cache c ca1 m"
  have st: "statics ca1 = statics ca" by (simp add: ca1_def statics_def)
  note S = statics_cong [OF st]
  have ok1: "cache_ok ca1" using ok by (auto simp: cache_ok_def ca1_def)
  note C1 = cache_fields [OF inv ca st _ _ _ ok1 m1_def]
  have g1: "slab_inv pinv pheld m1" "frame c m m1" "live m1 = live m" "objs m1 = objs m"
    using C1 by (simp_all add: ca1_def live_def objs_def)
  have ca1: "caches m1 c = Some ca1" by (simp add: m1_def store_cache_def)
  have gfp: "gfporder ca1 < MAX_ORDER" using ok1 by (simp add: cache_ok_def)
  note unfold = grow_unfold [OF fl True ca ca1_def m1_def, of get_pages put_pages alloc]
  from g1(1) gfp show ?thesis
  proof (cases rule: getpages_correct [where flags = flags and c = c])
    case none
    let ?m = "store_cache c (ca1\<lparr>growing := growing ca1 - 1\<rparr>) m1"
    note G = growing_field [OF g1(1) ca1, of "growing ca1 - 1"]
    have "slab_inv pinv pheld ?m" "live ?m = live m" "objs ?m = objs m" "same_statics m ?m"
      using G g1 frame_statics [OF g1(2)] frame_statics [of c m1 ?m]
      by (simp_all add: good_def live_def objs_def same_statics_def)
    then show ?thesis using unfold none by (intro exI [of _ False] exI [of _ ?m]) simp
  next
    case (some i p)
    define m2 where "m2 = m1\<lparr>pages := p\<rparr>"
    have inv2: "slab_inv pinv pheld m2" and sp: "spare pheld m2 i (gfporder ca1)"
      using some by (simp_all add: m2_def good_def)
    have ca2: "caches m2 c = Some ca1" using ca1 by (simp add: m2_def)
    obtain cg where cg: "caches m2 (slabp_cache ca) = Some cg" "\<not> off_slab cg" "gfpflags cg AND GFP_DMA = 0"
      using slab_invD(4) [OF inv2 ca2] off S(4,5) by auto
    then have ne: "slabp_cache ca \<noteq> c" using ca2 off S(4) by auto
    obtain r m3 where r: "alloc (flags AND SLAB_LEVEL_MASK) (slabp_cache ca) m2 = Inr (r, m3)" "got pinv pheld (slabp_cache ca) m2 r m3"
      using alloc [OF inv2 cg] by blast
    have inv3: "slab_inv pinv pheld m3" and sp3: "spare pheld m3 i (gfporder ca1)" and fr3: "frame (slabp_cache ca) m2 m3"
      using r(2) sp by (simp_all add: got_def good_def)
    have ca3: "caches m3 c = Some ca1" using fr3 ca2 ne by (simp add: frame_def)
    have st3: "same_statics m m3"
      using frame_statics [OF g1(2)] frame_statics [OF fr3] by (simp add: same_statics_def m2_def)
    show ?thesis
    proof (cases r)
      case None
      obtain m4 where m4: "kmem_freepages put_pages ca1 i m3 = Inr m4" "slab_inv pinv pheld m4" "caches m4 = caches m3"
        "slabs m4 = slabs m3" "cache_sizes m4 = cache_sizes m3" using freepages_correct [OF inv3 sp3] by blast
      have o3: "objs m3 = objs m" "mgmt m3 = mgmt m"
        using None r(2) objs_same [OF fr3] g1(4) C1(3) by (simp_all add: got_def m2_def ca1_def)
      have o4: "objs_of m4 c2 = objs_of m3 c2" "mgmt m4 = mgmt m3" for c2
        using m4(3,4) by (simp_all add: objs_of_def mgmt_def slab_in_def)
      let ?m = "store_cache c (ca1\<lparr>growing := growing ca1 - 1\<rparr>) m4"
      have "caches m4 c = Some ca1" using m4(3) ca3 by simp
      note G = growing_field [OF m4(2) this, of "growing ca1 - 1"]
      have "slab_inv pinv pheld ?m" "live ?m = live m" "objs ?m = objs m"
        using G o3 o4 by (simp_all add: good_def live_def objs_def)
      moreover have "same_statics m ?m"
        using G(1) frame_statics [of c m4 ?m] st3 m4(3,5) by (simp add: good_def same_statics_def)
      moreover have "kmem_cache_grow get_pages put_pages alloc irq flags c m = Inr (False, ?m)"
        unfolding unfold some(1) using off S(4,5) r(1) None ca3 m4(1)
        by (simp add: kmem_cache_slabmgmt_def load_cache_def m2_def)
      ultimately show ?thesis by blast
    next
      case (Some s)
      let ?x = "colour_next ca * colour_off ca"
      have o3: "objs m3 = insert s (objs m)" "mgmt m3 = mgmt m" "s \<notin> objs m" "s \<in> objs_of m3 (slabp_cache ca1)"
        using Some r(2) objs_insert [OF fr3] g1(4) C1(3) S(5) by (simp_all add: got_def m2_def ca1_def)
      have "s \<notin> mgmt m3" using o3 mgmt_objs [OF inv] by blast
      then have fresh: "\<not> slab_id m3 s" using fresh_off_slab [OF inv3] o3(1) by simp
      have fits: "?x + num ca1 * objsize ca1 \<le> PAGE_SIZE * 2 ^ gfporder ca1"
        using colour_fits [OF ok] off S(3,6,8) by simp
      define m' where "m' = store_cache c (ca1\<lparr>growing := growing ca1 - 1, slabs_free := slabs_free ca1 @ [s], failures := 0\<rparr>)
        (store_slab s (kmem_cache_init_objs ca1 \<lparr>colouroff = ?x, s_mem = page_address i + ?x, inuse = 0, sfree = 0, bufctl = []\<rparr>)
          (set_page_links i (gfporder ca1) c s m3))"
      note A = grow_attach [OF inv3 ca3 sp3 fresh _ _ fits refl m'_def]
      have A': "slab_inv pinv pheld m'" "frame c m3 m'" "objs m' = objs m3" "mgmt m' = mgmt m3 \<union> {s}"
        using A off S(4) o3(4) by (simp_all add: objs_def)
      have "live m' = live m" "objs m \<subseteq> objs m'" using A'(3,4) o3 by (auto simp: live_def)
      moreover have "same_statics m m'" using same_statics_trans [OF st3 frame_statics [OF A'(2)]] .
      moreover have "kmem_cache_grow get_pages put_pages alloc irq flags c m = Inr (True, m')"
        unfolding unfold some(1) using off S(4,5) r(1) Some ca3
        by (simp add: kmem_cache_slabmgmt_def load_cache_def m'_def m2_def)
      moreover have "\<exists>ca'. caches m' c = Some ca' \<and> slabs_free ca' \<noteq> []" by (simp add: m'_def store_cache_def)
      ultimately show ?thesis using A'(1) by blast
    qed
  qed
qed

lemma alloc_correct:
  assumes inv: "slab_inv pinv pheld m" and ca: "caches m c = Some ca" and fl: "grow_flags_ok irq flags"
    and dma: "flags AND GFP_DMA \<noteq> 0 \<longleftrightarrow> gfpflags ca AND GFP_DMA \<noteq> 0"
  shows "\<exists>r m'. kmem_cache_alloc get_pages put_pages irq flags c m = Inr (r, m') \<and> slab_inv pinv pheld m' \<and>
     same_statics m m' \<and>
     (case r of None \<Rightarrow> live m' = live m | Some a \<Rightarrow> a \<notin> objs m \<and> live m' = insert a (live m))"
proof -
  have head: "kmem_cache_alloc get_pages put_pages irq flags c m = alloc_try 3 get_pages put_pages irq flags c m"
    using ca dma by (simp add: kmem_cache_alloc_def kmem_cache_alloc_head_def load_cache_def)
  have live_got: "(case r of None \<Rightarrow> live m' = live m1 | Some a \<Rightarrow> a \<notin> objs m1 \<and> live m' = insert a (live m1))"
    if g: "got pinv pheld c m1 r m'" "slab_inv pinv pheld m1" for m1 r m'
  proof (cases r)
    case None
    then show ?thesis using g objs_same [of c m1 m'] by (simp add: got_def good_def live_def)
  next
    case (Some a)
    then have "objs m' = insert a (objs m1)" "mgmt m' = mgmt m1" "a \<notin> objs m1"
      using g(1) objs_insert [of c m1 m' a] by (simp_all add: got_def good_def)
    moreover have "a \<notin> mgmt m1" using calculation(3) mgmt_objs [OF g(2)] by blast
    ultimately show ?thesis using Some by (auto simp: live_def)
  qed
  show ?thesis
  proof (cases "off_slab ca")
    case False
    then obtain r m' where r: "alloc_try 3 get_pages put_pages irq flags c m = Inr (r, m')" "got pinv pheld c m r m'"
      using alloc_try_on [OF inv ca False fl, of 3] by auto
    then show ?thesis
      unfolding head using live_got [OF r(2) inv] frame_statics [of c m m'] by (auto simp: got_def good_def)
  next
    case True
    show ?thesis
    proof (cases "\<exists>a m'. kmem_cache_alloc_one c m = Inr (Some (a, m'))")
      case True
      then obtain a m' where a: "kmem_cache_alloc_one c m = Inr (Some (a, m'))" by blast
      have g: "got pinv pheld c m (Some a) m'" using alloc_one_correct [OF inv a ca] by (simp add: got_def good_def)
      have "alloc_try 3 get_pages put_pages irq flags c m = Inr (Some a, m')"
        using a by (simp add: numeral_3_eq_3 alloc_try.simps)
      then show ?thesis
        unfolding head using live_got [OF g inv] g frame_statics [of c m m'] by (auto simp: got_def good_def)
    next
      case False
      from inv ca False have none: "kmem_cache_alloc_one c m = Inr None" by (cases rule: alloc_one_cases) auto
      let ?al = "\<lambda>flags c m. kbind (kmem_cache_alloc_head flags c m) (\<lambda>_. alloc_try 2 get_pages put_pages irq flags c m)"
      have al: "\<exists>r m2. ?al (flags AND SLAB_LEVEL_MASK) (slabp_cache ca) m1 = Inr (r, m2) \<and> got pinv pheld (slabp_cache ca) m1 r m2"
        if "slab_inv pinv pheld m1" "caches m1 (slabp_cache ca) = Some ca1" "\<not> off_slab ca1" "gfpflags ca1 AND GFP_DMA = 0" for m1 ca1
        using alloc_try_on [OF that(1-3) local_flags_ok(1) [OF fl], of 2] local_flags_ok(2) [OF fl] that(2,4)
        by (simp add: kmem_cache_alloc_head_def load_cache_def)
      have "\<exists>g m1. kmem_cache_grow get_pages put_pages ?al irq flags c m = Inr (g, m1) \<and> slab_inv pinv pheld m1 \<and>
        live m1 = live m \<and> objs m \<subseteq> objs m1 \<and> same_statics m m1 \<and> (g \<longrightarrow> (\<exists>ca'. caches m1 c = Some ca' \<and> slabs_free ca' \<noteq> []))"
        by (rule grow_off_correct [OF inv ca True fl]) (rule al)
      then obtain g m1 where g: "kmem_cache_grow get_pages put_pages ?al irq flags c m = Inr (g, m1)" "slab_inv pinv pheld m1"
        "live m1 = live m" "objs m \<subseteq> objs m1" "same_statics m m1" "g \<longrightarrow> (\<exists>ca'. caches m1 c = Some ca' \<and> slabs_free ca' \<noteq> [])"
        by blast
      have tr: "alloc_try 3 get_pages put_pages irq flags c m = (if g then alloc_try 2 get_pages put_pages irq flags c m1 else Inr (None, m1))"
        using none g(1) by (simp add: numeral_3_eq_3 alloc_try.simps(2) [of "Suc (Suc 0)"] numeral_2_eq_2)
      show ?thesis
      proof (cases g)
        case False
        then show ?thesis unfolding head tr using g by simp
      next
        case True
        then obtain ca' where ca': "caches m1 c = Some ca'" "slabs_free ca' \<noteq> []" using g(6) by blast
        then obtain a m2 where a: "kmem_cache_alloc_one c m1 = Inr (Some (a, m2))"
          by (cases rule: alloc_one_cases [OF g(2) ca'(1)]) auto
        have gt: "got pinv pheld c m1 (Some a) m2" using alloc_one_correct [OF g(2) a ca'(1)] by (simp add: got_def good_def)
        have "alloc_try 2 get_pages put_pages irq flags c m1 = Inr (Some a, m2)"
          using a by (simp add: numeral_2_eq_2 alloc_try.simps)
        moreover have "a \<notin> objs m" "live m2 = insert a (live m)" using live_got [OF gt g(2)] g(3,4) by auto
        moreover have "same_statics m m2"
          using same_statics_trans [OF g(5)] frame_statics [of c m1 m2] gt by (simp add: got_def good_def)
        ultimately show ?thesis unfolding head tr using True gt by (simp add: got_def good_def)
      qed
    qed
  qed
qed

lemma kmalloc_correct:
  assumes inv: "slab_inv pinv pheld m" and sz: "sizes_ok m" and fl: "grow_flags_ok irq flags"
  shows "\<exists>r m'. kmalloc_flags get_pages put_pages irq flags n m = Inr (r, m') \<and> slab_inv pinv pheld m' \<and> sizes_ok m' \<and>
     (case r of None \<Rightarrow> live m' = live m | Some a \<Rightarrow> a \<notin> objs m \<and> live m' = insert a (live m))"
proof (cases "find_general n (cache_sizes m)")
  case None
  then show ?thesis using inv sz by (simp add: kmalloc_flags_def)
next
  case (Some cd)
  then obtain cs c d where cd: "cd = (c, d)" "(cs, c, d) \<in> set (cache_sizes m)" using find_general_mem by (cases cd) blast
  let ?c = "if flags AND GFP_DMA \<noteq> 0 then d else c"
  obtain ca where ca: "caches m ?c = Some ca" "flags AND GFP_DMA \<noteq> 0 \<longleftrightarrow> gfpflags ca AND GFP_DMA \<noteq> 0"
  proof -
    obtain ca cb where "caches m c = Some ca" "gfpflags ca AND GFP_DMA = 0" "caches m d = Some cb" "gfpflags cb AND GFP_DMA \<noteq> 0"
      using sz cd(2) unfolding sizes_ok_def by blast
    then show thesis by (intro that [of "if flags AND GFP_DMA \<noteq> 0 then cb else ca"]) simp_all
  qed
  have "kmalloc_flags get_pages put_pages irq flags n m = kmem_cache_alloc get_pages put_pages irq flags ?c m"
    using Some cd(1) by (simp add: kmalloc_flags_def)
  then show ?thesis using alloc_correct [OF inv ca(1) fl ca(2)] sizes_ok_statics [OF _ sz] by fastforce
qed

end

subsection \<open>Objects do not overlap\<close>

lemma obj_byte:
  assumes "slab_ok ca s sl" "cache_ok ca" "k < num ca" "obj_addr ca sl k \<le> y" "y < obj_addr ca sl k + objsize ca"
  shows "virt_to_page y \<in> sblk ca sl"
proof -
  obtain x where x: "y = page_address (slab_base sl) + x" "x < colouroff sl + k * objsize ca + objsize ca"
    using assms(1,4,5) by (auto simp: obj_addr_def slab_ok_def intro!: that [of "y - page_address (slab_base sl)"])
  then have "x < PAGE_SIZE * 2 ^ gfporder ca" using obj_offset [OF assms(1-3)] by simp
  then show ?thesis unfolding x(1) sblk_def by (rule block_page)
qed

lemma objs_disjoint:
  assumes inv: "slab_inv pinv pheld m"
    and a: "slab_in m c ca s sl" "k < num ca" and b: "slab_in m c' ca' s' sl'" "k' < num ca'"
    and ne: "obj_addr ca sl k \<noteq> obj_addr ca' sl' k'"
  shows "{obj_addr ca sl k ..< obj_addr ca sl k + objsize ca} \<inter>
         {obj_addr ca' sl' k' ..< obj_addr ca' sl' k' + objsize ca'} = {}"
proof (rule ccontr)
  note D = slab_invD [OF inv]
  assume "\<not> ?thesis"
  then obtain y where "y \<in> {obj_addr ca sl k ..< obj_addr ca sl k + objsize ca} \<inter>
      {obj_addr ca' sl' k' ..< obj_addr ca' sl' k' + objsize ca'}" by blast
  then have y: "obj_addr ca sl k \<le> y" "y < obj_addr ca sl k + objsize ca"
    "obj_addr ca' sl' k' \<le> y" "y < obj_addr ca' sl' k' + objsize ca'" by auto
  have ok: "slab_ok ca s sl" "cache_ok ca" "slab_ok ca' s' sl'" "cache_ok ca'"
    using D(2,5) a(1) b(1) by (auto simp: slab_in_def)
  have "(c', s') = (c, s)"
    using D(7) [OF a(1) obj_byte [OF ok(1,2) a(2) y(1,2)]] D(7) [OF b(1) obj_byte [OF ok(3,4) b(2) y(3,4)]] by simp
  then have eq: "ca' = ca" "sl' = sl" using a(1) b(1) by (simp_all add: slab_in_def)
  then have "k * objsize ca < k' * objsize ca + objsize ca" "k' * objsize ca < k * objsize ca + objsize ca"
    using y by (simp_all add: obj_addr_def)
  then have "k * objsize ca < Suc k' * objsize ca" "k' * objsize ca < Suc k * objsize ca" by simp_all
  then have "k < Suc k'" "k' < Suc k" using mult_less_cancel2 by blast+
  then have "k' = k" by simp
  then show False using ne eq by simp
qed

end
