(* ===== verification/User_Calls.thy ===== *)
theory User_Calls
  imports Policy
begin

text \<open>
  The functions of user_files/hw1_syscalls.h through which a program makes the four system calls.
  Each tests some of its arguments, traps into the kernel and turns a negative result into
  \<open>-1\<close> with \<^verbatim>\<open>errno\<close> set. The trap is the argument \<open>call\<close>; a result is the returned value, \<^verbatim>\<open>errno\<close>
  and what the kernel leaves.
\<close>

subsection \<open>The functions\<close>

text \<open>The kernel's answer arrives in an unsigned variable; \<^verbatim>\<open>-res\<close> is computed in 32 bits.\<close>

definition trap_result :: "int \<Rightarrow> int \<Rightarrow> int \<times> int" where
  "trap_result r errno =
     (let res = u32 r
      in if res = 0 then (0, errno) else (-1, if res \<ge> u32 (-125) then s32 (u32 (- res)) else errno))"

definition enable_policy ::
  "(int \<Rightarrow> int \<Rightarrow> int \<Rightarrow> 's \<Rightarrow> (int \<times> 's) kres) \<Rightarrow> int \<Rightarrow> int \<Rightarrow> int \<Rightarrow> int \<Rightarrow> 's \<Rightarrow> ((int \<times> int) \<times> 's) kres" where
  "enable_policy call pd size0 password errno s =
     (if pd < 0 then Inr ((-1, ESRCH), s)
      else if size0 < 0 then Inr ((-1, EINVAL), s)
      else kbind (call pd size0 password s) (\<lambda>(res, s1). Inr (trap_result res errno, s1)))"

definition disable_policy ::
  "(int \<Rightarrow> int \<Rightarrow> 's \<Rightarrow> (int \<times> 's) kres) \<Rightarrow> int \<Rightarrow> int \<Rightarrow> int \<Rightarrow> 's \<Rightarrow> ((int \<times> int) \<times> 's) kres" where
  "disable_policy call pd password errno s =
     (if pd < 0 then Inr ((-1, ESRCH), s)
      else kbind (call pd password s) (\<lambda>(res, s1). Inr (trap_result res errno, s1)))"

definition set_process_capabilities ::
  "(int \<Rightarrow> int \<Rightarrow> int \<Rightarrow> 's \<Rightarrow> (int \<times> 's) kres) \<Rightarrow> int \<Rightarrow> int \<Rightarrow> int \<Rightarrow> int \<Rightarrow> 's \<Rightarrow> ((int \<times> int) \<times> 's) kres" where
  "set_process_capabilities call pd new_level password errno s =
     (if pd < 0 then Inr ((-1, ESRCH), s)
      else kbind (call pd new_level password s) (\<lambda>(res, s1). Inr (trap_result res errno, s1)))"

text \<open>The second component is what reaches the caller's array.\<close>

definition get_process_log ::
  "(int \<Rightarrow> int \<Rightarrow> 's \<Rightarrow> (int \<times> log_buf \<times> 's) kres) \<Rightarrow> int \<Rightarrow> int \<Rightarrow> int \<Rightarrow> 's \<Rightarrow> ((int \<times> int) \<times> log_buf \<times> 's) kres" where
  "get_process_log call pd size0 errno s =
     (if pd < 0 then Inr ((-1, ESRCH), [], s)
      else if size0 = 0 then Inr ((0, errno), [], s)
      else kbind (call pd size0 s) (\<lambda>(res, out, s1). Inr (trap_result res errno, out, s1)))"

subsection \<open>What a caller sees\<close>

lemma trap_result_ok [simp]: "trap_result 0 errno = (0, errno)"
  by (simp add: trap_result_def u32_def)

lemma trap_result_error:
  assumes "1 \<le> e" "e \<le> 125"
  shows "trap_result (- e) errno = (-1, e)"
proof -
  have u: "u32 (- e) = 4294967296 - e" using assms by (simp add: u32_def zmod_zminus1_eq_if)
  have "u32 (- (4294967296 - e)) = e" using assms by (simp add: u32_def)
  moreover have "s32 e = e" using assms by (intro s32_id) auto
  ultimately show ?thesis using assms u by (simp add: trap_result_def Let_def) (simp add: u32_def)
qed

text \<open>The result as the program sees it: 0, or \<open>-1\<close> and the error in \<^verbatim>\<open>errno\<close>.\<close>

definition reports :: "int \<Rightarrow> int \<Rightarrow> int \<times> int \<Rightarrow> bool" where
  "reports r errno x \<longleftrightarrow> (if r = 0 then x = (0, errno) else x = (-1, - r))"

lemma trap_reports: "- 125 \<le> r \<Longrightarrow> r \<le> 0 \<Longrightarrow> reports r errno (trap_result r errno)"
  using trap_result_error [of "- r" errno] by (cases "r = 0") (auto simp: reports_def)

context allocator
begin

text \<open>
  Made through its function, a call has the effect the specification of the system call gives, and
  reports its result; the negative process ids that the functions turn down belong to no process.
\<close>

lemma user_enable:
  assumes "kernel_ok live mem_inv s" "sz * 12 < 4294967296" and "pd < 0 \<Longrightarrow> tasks s pd = None" and "0 \<le> sz"
  shows "\<exists>r x s'. enable_policy (sys_enable_policy kmalloc kfree) pd sz password errno s = Inr (x, s') \<and>
    kernel_ok live mem_inv s' \<and> spec_enable pd sz password (view s) r (view s') \<and> reports r errno x"
proof (cases "pd < 0")
  case True
  then show ?thesis using assms(1,3)
    by (intro exI [of _ "- ESRCH"] exI) (auto simp: enable_policy_def spec_enable_def reports_def view_def)
next
  case False
  obtain r s' where s': "sys_enable_policy kmalloc kfree pd sz password s = Inr (r, s')" "kernel_ok live mem_inv s'"
    "spec_enable pd sz password (view s) r (view s')"
    using enable_correct [OF assms(1,2)] by blast
  have "- 125 \<le> r" "r \<le> 0" using s'(3) by (auto simp: spec_enable_def split: if_splits)
  then show ?thesis using False assms(4) s' trap_reports by (intro exI [of _ r] exI) (auto simp: enable_policy_def)
qed

lemma user_disable:
  assumes "kernel_ok live mem_inv s" and "pd < 0 \<Longrightarrow> tasks s pd = None"
  shows "\<exists>x s'. disable_policy (sys_disable_policy kfree) pd password errno s = Inr (x, s') \<and> kernel_ok live mem_inv s' \<and>
    view s' = snd (spec_disable pd password (view s)) \<and> reports (fst (spec_disable pd password (view s))) errno x"
proof (cases "pd < 0")
  case True
  then show ?thesis using assms by (auto simp: disable_policy_def spec_disable_def reports_def view_def)
next
  case False
  have "- 125 \<le> fst (spec_disable pd password (view s))" "fst (spec_disable pd password (view s)) \<le> 0"
    by (auto simp: spec_disable_def)
  note r = trap_reports [OF this, of errno]
  show ?thesis using False disable_correct [OF assms(1), of pd password] r
    by (intro exI [of _ "trap_result _ errno"]) (auto simp: disable_policy_def)
qed

lemma user_capabilities:
  assumes "kernel_ok live mem_inv s" and "pd < 0 \<Longrightarrow> tasks s pd = None"
  shows "\<exists>x s'. set_process_capabilities sys_set_process_capabilities pd lvl password errno s = Inr (x, s') \<and>
    kernel_ok live mem_inv s' \<and> view s' = snd (spec_set_capabilities pd lvl password (view s)) \<and>
    reports (fst (spec_set_capabilities pd lvl password (view s))) errno x"
proof (cases "pd < 0")
  case True
  then show ?thesis using assms by (auto simp: set_process_capabilities_def spec_set_capabilities_def reports_def view_def)
next
  case False
  have "- 125 \<le> fst (spec_set_capabilities pd lvl password (view s))" "fst (spec_set_capabilities pd lvl password (view s)) \<le> 0"
    by (auto simp: spec_set_capabilities_def split: option.split)
  note r = trap_reports [OF this, of errno]
  show ?thesis using False capabilities_correct [OF assms(1), of pd lvl password] r
    by (intro exI [of _ "trap_result _ errno"]) (auto simp: set_process_capabilities_def)
qed

lemma user_get:
  assumes "kernel_ok live mem_inv s" "\<And>pv. view s pd = Some (Some pv) \<Longrightarrow> pv_exact pv"
    and "pd < 0 \<Longrightarrow> tasks s pd = None" and "sz \<noteq> 0"
  shows "\<exists>r x out s'. get_process_log (sys_get_process_log kmalloc kfree left) pd sz errno s = Inr (x, map Some out, s') \<and>
    kernel_ok live mem_inv s' \<and> spec_get_log (left = 0) pd sz (view s) r out (view s') \<and> reports r errno x"
proof (cases "pd < 0")
  case True
  then show ?thesis using assms(1,3)
    by (intro exI [of _ "- ESRCH"] exI [of _ "(-1, ESRCH)"] exI [of _ "[]"] exI [of _ s])
      (auto simp: get_process_log_def spec_get_log_def reports_def view_def)
next
  case False
  obtain r out s' where s': "sys_get_process_log kmalloc kfree left pd sz s = Inr (r, map Some out, s')" "kernel_ok live mem_inv s'"
    "spec_get_log (left = 0) pd sz (view s) r out (view s')"
    using get_correct [OF assms(1,2)] assms(4) by blast
  have "- 125 \<le> r" "r \<le> 0" using s'(3) by (auto simp: spec_get_log_def split: if_splits option.splits)
  then show ?thesis using False assms(4) s' trap_reports by (intro exI [of _ r] exI) (auto simp: get_process_log_def)
qed

end

text \<open>
  With size 0 the function answers 0 itself: also for a process without a policy or no process at
  all, which the system call refuses.
\<close>

lemma user_get_none: "0 \<le> pd \<Longrightarrow> get_process_log call pd 0 errno s = Inr ((0, errno), [], s)"
  by (simp add: get_process_log_def)

end
