(* ===== verification/Kmalloc.thy ===== *)
theory Kmalloc
  imports Slab Policy_Runs User_Calls
begin

text \<open>
  \<^verbatim>\<open>kmalloc(n, GFP_KERNEL)\<close> and \<^verbatim>\<open>kfree\<close> in process context, on the slab allocator of one memory zone:
  the allocator the policy code runs on. The slab code is shown not to fault on a state with its
  invariant, so the two functions below drop its result type; the interpretation of \<open>allocator\<close>
  discharges the laws the policy proofs rest on.
\<close>

type_synonym kmem_state = "zone slab_mem"

definition kmalloc :: "kmem_state kmalloc_fn" where
  "kmalloc n m = (case kmalloc_flags (\<lambda>flags. rmqueue False) free_pages_count False GFP_KERNEL (nat (u32 n)) m of
      Inl _ \<Rightarrow> (None, m) | Inr r \<Rightarrow> r)"

definition kfree :: "kmem_state kfree_fn" where
  "kfree a m = (case kfree_obj a m of Inl _ \<Rightarrow> m | Inr m' \<Rightarrow> m')"

definition kmem_inv :: "kmem_state \<Rightarrow> bool" where
  "kmem_inv m \<longleftrightarrow> slab_inv zone_inv held m \<and> sizes_ok m"

lemma kernel_flags_ok: "grow_flags_ok False GFP_KERNEL"
  by (simp add: grow_flags_ok_def)

lemma kmalloc_result:
  assumes "kmem_inv m"
  obtains r m' where "kmalloc_flags (\<lambda>flags. rmqueue False) free_pages_count False GFP_KERNEL n m = Inr (r, m')"
    "kmem_inv m'" "case r of None \<Rightarrow> live m' = live m | Some a \<Rightarrow> a \<notin> objs m \<and> live m' = insert a (live m)"
  using buddy_zone.kmalloc_correct [of m False GFP_KERNEL n] assms kernel_flags_ok by (auto simp: kmem_inv_def)

interpretation slab: allocator kmalloc kfree live kmem_inv
proof
  fix m m' :: kmem_state and n a
  assume inv: "kmem_inv m"
  obtain r m1 where r: "kmalloc_flags (\<lambda>flags. rmqueue False) free_pages_count False GFP_KERNEL (nat (u32 n)) m = Inr (r, m1)"
    "kmem_inv m1" "case r of None \<Rightarrow> live m1 = live m | Some a \<Rightarrow> a \<notin> objs m \<and> live m1 = insert a (live m)"
    using inv by (rule kmalloc_result)
  then have k: "kmalloc n m = (r, m1)" by (simp add: kmalloc_def)
  show "kmem_inv m' \<and> a \<notin> live m \<and> live m' = insert a (live m)" if "kmalloc n m = (Some a, m')"
    using that k r(2,3) by (auto simp: live_def)
  show "kmem_inv m' \<and> live m' = live m" if "kmalloc n m = (None, m')" using that k r(2,3) by simp
  show "kmem_inv (kfree a m) \<and> live (kfree a m) = live m - {a}" if a: "a \<in> live m"
  proof -
    obtain m' c where m': "kfree_obj a m = Inr m'" "slab_inv zone_inv held m'" "live m' = live m - {a}" "frame c m m'"
      using kfree_correct [of zone_inv held m a] a inv by (auto simp: kmem_inv_def)
    then show ?thesis
      using inv sizes_ok_statics [OF frame_statics] by (auto simp: kfree_def kmem_inv_def)
  qed
qed

subsection \<open>A small machine\<close>

text \<open>
  Four pages and one general cache of 32-byte objects with its DMA twin: page 0 is a slab of four
  objects, the first two allocated, and pages 2 and 3 are a free block. The properties are
  instantiated at this state.
\<close>

definition blank_page :: page where
  "blank_page = \<lparr>count = 0, PG_lru = False, PG_reserved = False, PG_swap_cache = False, PG_locked = False,
     PG_active = False, PG_inactive_dirty = False, PG_inactive_clean = False, PG_referenced = False,
     PG_dirty = False, buffers = False, mapping = False, pte_chain = False, age = 0\<rparr>"

definition small_zone :: zone where
  "small_zone = \<lparr>cpu_nr_pages = 0, cpu_max_nr_pages = 0, cpu_head = [], free_pages = 2, active_pages = 0,
     inactive_dirty_pages = 0, inactive_clean_pages = 0, pages_min = 0, pages_low = 0, pages_high = 0,
     active_list = [], inactive_dirty_list = [], inactive_clean_list = [],
     free_list = (\<lambda>order. if order = 1 then [2] else []), bitmap = (\<lambda>order i. order = 1 \<and> i = 0),
     zone_start_mapnr = 0, zsize = 4, max_mapnr = 4,
     mem_map = (\<lambda>i. if i = 0 then blank_page\<lparr>count := 1\<rparr> else blank_page),
     nr_active_pages = 0, nr_inactive_dirty_pages = 0, nr_inactive_clean_pages = 0\<rparr>"

definition general_cache :: "int \<Rightarrow> nat list \<Rightarrow> cache" where
  "general_cache gf sls = \<lparr>slabs_full = [], slabs_partial = sls, slabs_free = [], objsize = 32, off_slab = False,
     num = 4, gfporder = 0, gfpflags = gf, colour = 0, colour_off = 32, colour_next = 0, slabp_cache = 0,
     growing = 0, dflags = 0, failures = 0\<rparr>"

definition small_slab :: slab where
  "small_slab = \<lparr>colouroff = 64, s_mem = 3221225536, inuse = 2, sfree = 2,
     bufctl = [BUFCTL_END, BUFCTL_END, 3, BUFCTL_END]\<rparr>"

definition small_mem :: kmem_state where
  "small_mem = \<lparr>caches = [1 \<mapsto> general_cache 0 [3221225472], 2 \<mapsto> general_cache GFP_DMA []],
     slabs = [3221225472 \<mapsto> small_slab], page_links = [0 \<mapsto> (1, 3221225472)],
     cache_sizes = [(32, 1, 2)], pages = small_zone\<rparr>"

lemma small_on_list: "on_list small_zone order i \<longleftrightarrow> order = 1 \<and> i = 2"
  by (auto simp: on_list_def small_zone_def)

lemma small_listed: "listed small_zone = {2, 3}"
  by (auto simp: listed_def small_on_list blk_def)

lemma small_bitmap: "i div 4 = 0 \<longleftrightarrow> i = 2 \<or> buddy 1 i = 2" if "2 dvd i"
proof -
  have "(i XOR 2) XOR 2 = i" by (simp add: xor.assoc)
  then have "buddy 1 i = 2 \<longleftrightarrow> i = 0" by (auto simp: buddy_def)
  then show ?thesis using that by (auto elim!: dvdE)
qed

lemma small_lists_inv: "lists_inv small_zone"
proof -
  have "bitmap small_zone order (drop_bit (Suc order) i) \<longleftrightarrow>
      i \<in> set (free_list small_zone order) \<or> buddy order i \<in> set (free_list small_zone order)"
    if "2 ^ order dvd i" for order i
    using small_bitmap [of i] that by (cases "order = 1") (simp_all add: small_zone_def drop_bit_eq_div)
  moreover have "buddy order i \<notin> set (free_list small_zone order)" if "i \<in> set (free_list small_zone order)" for order i
    using that by (auto simp: small_zone_def buddy_def split: if_splits)
  ultimately show ?thesis
    by (simp add: lists_inv_def small_on_list) (simp add: small_zone_def)
qed

lemma small_zone_inv: "zone_inv small_zone"
  using small_lists_inv
  by (auto simp: zone_inv_def avail_def small_listed) (simp_all add: small_zone_def blank_page_def page_clean_def)

lemma small_held: "(0, 0) \<in> held small_zone"
  by (auto simp: held_def avail_def small_listed blk_def) (simp_all add: small_zone_def blank_page_def page_clean_def)

lemma small_freelist: "freelist small_slab = [2, 3]"
  by (rule freelist_chain) (simp_all add: small_slab_def)

lemma small_slab_in: "slab_in small_mem c ca s sl \<longleftrightarrow>
    c = 1 \<and> ca = general_cache 0 [3221225472] \<and> s = 3221225472 \<and> sl = small_slab"
  by (auto simp: slab_in_def small_mem_def general_cache_def all_slabs_def split: if_splits)

lemma small_slab_ok: "slab_ok (general_cache 0 [3221225472]) 3221225472 small_slab"
  by (simp add: slab_ok_def small_freelist)
    (simp add: small_slab_def general_cache_def slab_base_def page_address_def virt_to_page_def)

lemma small_kmem_inv: "kmem_inv small_mem"
  unfolding kmem_inv_def slab_inv_def small_slab_in
  using small_zone_inv small_held small_slab_ok
  by (auto simp: small_mem_def general_cache_def small_slab_def cache_ok_def all_slabs_def sblk_def blk_def
      slab_base_def virt_to_page_def sizes_ok_def slab_size_def L1_CACHE_ALIGN_def split: if_splits)

lemma small_objs: "x \<in> objs small_mem \<longleftrightarrow> x = 3221225536 \<or> x = 3221225568"
proof -
  have "x \<in> objs small_mem \<longleftrightarrow> (\<exists>k. x = 3221225536 + k * 32 \<and> k < 4 \<and> k \<noteq> 2 \<and> k \<noteq> 3)"
    by (simp add: objs_def objs_of_def small_slab_in small_freelist obj_addr_def)
      (simp add: general_cache_def small_slab_def)
  also have "\<dots> \<longleftrightarrow> (\<exists>k. x = 3221225536 + k * 32 \<and> (k = 0 \<or> k = 1))"
    by (rule iff_exI) auto
  finally show ?thesis by auto
qed

lemma small_live: "live small_mem = {3221225536, 3221225568}"
proof -
  have "mgmt small_mem = {}" by (auto simp: mgmt_def small_mem_def general_cache_def split: if_splits)
  then show ?thesis using small_objs by (auto simp: live_def)
qed

subsection \<open>Allocating on the small machine\<close>

text \<open>The machine after one object more has been taken.\<close>

definition small_mem1 :: kmem_state where
  "small_mem1 = store_slab 3221225472 (small_slab\<lparr>inuse := 3, sfree := 3\<rparr>) small_mem"

lemma small_alloc_one:
  "kmem_cache_alloc_one 1 small_mem = Inr (Some (3221225600, small_mem1))"
  "\<exists>m. kmem_cache_alloc_one 1 small_mem1 = Inr (Some (3221225632, m))"
  by (simp_all add: kmem_cache_alloc_one_def kmem_cache_alloc_one_tail_def load_cache_def load_slab_def small_mem_def
     small_mem1_def general_cache_def small_slab_def store_cache_def store_slab_def Let_def)
    (auto simp: fun_eq_iff)

lemma kmalloc_general:
  assumes "kmem_cache_alloc_one 1 m = Inr (Some (a, m1))" "caches m 1 = Some (general_cache 0 [s])" "cache_sizes m = [(32, 1, 2)]"
    and "nat (u32 n) \<le> 32"
  shows "kmalloc n m = (Some a, m1)"
proof -
  have h: "kmem_cache_alloc_head 496 1 m = Inr ()"
    using assms(2) by (simp add: kmem_cache_alloc_head_def load_cache_def general_cache_def)
  have "alloc_try 3 gp pp False 496 1 m = Inr (Some a, m1)" for gp pp
    using alloc_try.simps(2) [of 2 gp pp False 496 1 m] assms(1) by (simp add: numeral_3_eq_3 numeral_2_eq_2)
  then have "kmem_cache_alloc gp pp False 496 1 m = Inr (Some a, m1)" for gp pp
    using h by (simp add: kmem_cache_alloc_def)
  then show ?thesis using assms by (simp add: kmalloc_def kmalloc_flags_def)
qed

lemma small_kmalloc:
  assumes "nat (u32 n) \<le> 32"
  shows "kmalloc n small_mem = (Some 3221225600, small_mem1)" "\<exists>m. kmalloc n small_mem1 = (Some 3221225632, m)"
proof -
  show "kmalloc n small_mem = (Some 3221225600, small_mem1)"
    by (rule kmalloc_general [OF small_alloc_one(1) _ _ assms, of 3221225472]) (simp_all add: small_mem_def)
  obtain m where m: "kmem_cache_alloc_one 1 small_mem1 = Inr (Some (3221225632, m))" using small_alloc_one(2) by blast
  have "kmalloc n small_mem1 = (Some 3221225632, m)"
    by (rule kmalloc_general [OF m _ _ assms, of 3221225472]) (simp_all add: small_mem1_def small_mem_def store_slab_def)
  then show "\<exists>m. kmalloc n small_mem1 = (Some 3221225632, m)" ..
qed

end
