(* ===== verification/Scheduler_Props.thy ===== *)
theory Scheduler_Props
  imports Scheduler_Ops
begin

text \<open>
  What the scheduler promises: which task runs, what the tick and a wake-up do, and the requests
  that change priorities. The properties are instantiated at a processor with three tasks.
\<close>

section \<open>A sample processor\<close>

text \<open>
  Process 1 runs, process 2 waits for the processor at a better priority, process 3 sleeps.
\<close>

definition three_task :: "int \<Rightarrow> int \<Rightarrow> int \<Rightarrow> array_id option \<Rightarrow> int \<Rightarrow> ptr \<Rightarrow> task" where
  "three_task p st pr arr on log = \<lparr>pid = p, state = st, policy_on = on, policy_level = (if on = 1 then 0 else 2), logArray = log,
     prio = pr, static_prio = 120, sleep_avg = 0, sleep_timestamp = 0, sched_policy = 0, rt_priority = 0,
     time_slice = 1, first_time_slice = 0, need_resched = 0, run_array = arr, sigpending = 0, uid = 0, euid = 0\<rparr>"

definition three_rq :: runqueue where
  "three_rq = \<lparr>nr_running = 2, nr_switches = 0, expired_timestamp = 0, nr_uninterruptible = 0, curr = 1, active = Arr0,
     expired = Arr1, arrays = (\<lambda>a. case a of
        Arr0 \<Rightarrow> \<lparr>nr_active = 2, abitmap = (\<lambda>i. i \<in> {118, 120, 140}), queue = (\<lambda>_. [])(118 := [2], 120 := [1])\<rparr>
      | Arr1 \<Rightarrow> \<lparr>nr_active = 0, abitmap = (\<lambda>i. i = 140), queue = (\<lambda>_. [])\<rparr>)\<rparr>"

definition three_sched :: "int \<Rightarrow> ptr \<Rightarrow> (nat \<Rightarrow> kobj option) \<Rightarrow> 'm \<Rightarrow> 'm sched" where
  "three_sched on log obs m = \<lparr>tasks = [1 \<mapsto> three_task 1 0 120 (Some Arr0) on log, 2 \<mapsto> three_task 2 0 118 (Some Arr0) 0 NULL,
       3 \<mapsto> three_task 3 1 117 None 0 NULL],
     kobjs = obs, kmem = m, jiffies = 1000, rq = three_rq, idle_task = three_task 0 0 140 None 0 NULL,
     kstat_user = 0, kstat_nice = 0, kstat_system = 0\<rparr>"

lemma three_tasks:
  "sched_task (three_sched on log obs m) = [0 \<mapsto> three_task 0 0 140 None 0 NULL, 1 \<mapsto> three_task 1 0 120 (Some Arr0) on log,
     2 \<mapsto> three_task 2 0 118 (Some Arr0) 0 NULL, 3 \<mapsto> three_task 3 1 117 None 0 NULL]"
  "rq (three_sched on log obs m) = three_rq" "jiffies (three_sched on log obs m) = 1000"
  by (auto simp: fun_eq_iff sched_task_def three_sched_def)

lemma three_rq_simps [simp]: "curr three_rq = 1" "active three_rq = Arr0" "expired three_rq = Arr1" "nr_running three_rq = 2"
  by (simp_all add: three_rq_def)

lemma three_total: "ntotal (arrays three_rq a) = (case a of Arr0 \<Rightarrow> 2 | Arr1 \<Rightarrow> 0)"
proof (cases a)
  case Arr0
  have "ntotal (arrays three_rq Arr0) = (\<Sum>i<140::nat. (if i = 118 then 1 else 0) + (if i = 120 then 1 else 0))"
    unfolding ntotal_def by (intro sum.cong) (auto simp: three_rq_def)
  then show ?thesis using Arr0 by (simp add: sum.distrib)
qed (simp add: three_rq_def ntotal_def)

lemma three_inv: "sched_inv (three_sched on log obs m)"
proof -
  let ?T = "sched_task (three_sched on log obs m)"
  have "array_ok ?T a (arrays three_rq a)" for a
    using three_total [of a]
    by (cases a) (auto simp: array_ok_def three_tasks three_rq_def three_task_def)
  then have "arrays_ok ?T three_rq"
    by (rule arrays_okI) (auto simp: three_tasks three_rq_def three_task_def split: if_splits)
  moreover have "core ?T three_rq" if "arrays_ok ?T three_rq"
    using that by (simp add: core_def three_rq_def)
  moreover have "task_sane t" if "?T p = Some t" "p \<noteq> 0" for p t
    using that by (auto simp: three_tasks three_task_def task_sane_def split: if_splits)
  ultimately show ?thesis
    unfolding sched_ok_def by (auto simp: three_tasks(1,2)) (auto simp: three_task_def split: if_splits)
qed

section \<open>Properties\<close>

text \<open>
  C12. \<^verbatim>\<open>schedule\<close> returns, whatever the running task is about to do: the processor then has a
  runnable task that no waiting task of the active array beats, the idle task only when nothing is
  queued, and the request to reschedule is cleared. Two passes are enough.
\<close>

theorem schedule_runs_best_task:
  assumes "sched_inv s"
  shows "\<exists>s' t. schedule False s = Inr s' \<and> sched_inv s' \<and> best (sched_task s') (rq s') (curr (rq s')) \<and>
    sched_task s' (curr (rq s')) = Some t \<and> state t = 0 \<and> need_resched t = 0"
proof -
  obtain s' t where "schedule False s = Inr s'" "sched_inv s'" "chosen s'"
    "sched_task s' (curr (rq s')) = Some t" "need_resched t = 0"
    using assms by (rule schedule_correct)
  then show ?thesis by (auto simp: chosen_def)
qed

theorem schedule_runs_best_task_witness:
  "\<exists>s' t. schedule False (three_sched 0 NULL Map.empty ()) = Inr s' \<and> sched_inv s' \<and>
    sched_task s' (curr (rq s')) = Some t \<and> state t = 0"
  using schedule_runs_best_task [OF three_inv, of 0 NULL Map.empty "()"] by blast

text \<open>
  C22. The tick of a task that is not a real-time one: the slice shrinks by one, and at its end the task
  has a new slice and a new dynamic priority, asks for a reschedule, and waits in the expired array
  unless it is interactive and nobody starves there.
\<close>

theorem tick_expires_slice:
  assumes "sched_inv s" "curr (rq s) \<noteq> 0" "sched_task s (curr (rq s)) = Some t"
    and "run_array t = Some (active (rq s))" "\<not> rt_task t"
  shows "\<exists>s' t'. scheduler_tick nested user sys s = Inr s' \<and> sched_inv s' \<and> curr (rq s') = curr (rq s) \<and>
    sched_task s' (curr (rq s)) = Some t' \<and>
    (if time_slice t = 1
     then need_resched t' = 1 \<and> time_slice t' = TASK_TIMESLICE t' \<and> prio t' = effective_prio t' \<and>
       run_array t' = Some (if \<not> TASK_INTERACTIVE t' \<or> EXPIRED_STARVING s then expired (rq s) else active (rq s))
     else time_slice t' = time_slice t - 1 \<and> run_array t' = run_array t \<and> prio t' = prio t)"
proof -
  define s2 where "s2 = (let s1 = (if TASK_NICE t > 0 then s\<lparr>kstat_nice := kstat_nice s + user\<rparr> else s\<lparr>kstat_user := kstat_user s + user\<rparr>)
    in s1\<lparr>kstat_system := kstat_system s1 + sys\<rparr>)"
  have s2: "sched_task s2 = sched_task s" "rq s2 = rq s" "jiffies s2 = jiffies s" by (simp_all add: s2_def Let_def)
  have e: "scheduler_tick nested user sys s = tick_other (curr (rq s)) t s2"
    using assms s2 by (simp add: scheduler_tick_def Let_def s2_def)
  have st: "EXPIRED_STARVING s2 = EXPIRED_STARVING s" using s2 by (simp add: EXPIRED_STARVING_def)
  have "sched_inv s2" using assms(1) s2 by simp
  from tick_other_correct [OF this, of "curr (rq s)" t] show ?thesis
    unfolding e s2 st using assms(2-4) by simp
qed

theorem tick_expires_slice_witness:
  "\<exists>s' t'. scheduler_tick False 1 0 (three_sched 0 NULL Map.empty ()) = Inr s' \<and> sched_task s' 1 = Some t' \<and>
    need_resched t' = 1 \<and> time_slice t' = TASK_TIMESLICE t'"
proof -
  let ?s = "three_sched 0 NULL Map.empty ()"
  have "sched_task ?s (curr (rq ?s)) = Some (three_task 1 0 120 (Some Arr0) 0 NULL)" by (simp add: three_tasks)
  from tick_expires_slice [OF three_inv _ this, of False 1 0] show ?thesis
    by (simp add: three_tasks rt_task_def) (auto simp: three_task_def)
qed



text \<open>
  C28. \<^verbatim>\<open>_sched_find_first_bit\<close>, which tests the five words of the bit map one after the other, gives the
  least set bit.
\<close>

theorem find_first_bit_is_least:
  assumes "\<exists>i<160. b i"
  shows "sched_find_first_bit b = Inr (LEAST i. b i)"
proof -
  obtain i where i: "sched_find_first_bit b = Inr i" "b i" "\<forall>j<i. \<not> b j" using find_first_bit_correct [OF assms] by blast
  then have "(LEAST i. b i) = i" by (intro Least_equality) (auto simp: not_less [symmetric])
  then show ?thesis using i(1) by simp
qed

theorem find_first_bit_is_least_witness: "sched_find_first_bit (\<lambda>i. i = 118 \<or> i = 140) = Inr 118"
proof -
  have "(LEAST i. i = 118 \<or> i = 140) = (118 :: nat)" by (rule Least_equality) auto
  moreover have "\<exists>i<160::nat. i = 118 \<or> i = 140" by (intro exI [of _ 118]) simp
  ultimately show ?thesis using find_first_bit_is_least [of "\<lambda>i. i = 118 \<or> i = 140"] by simp
qed

text \<open>
  C29. Of a task with a valid nice value: the slice is 5 to 153 ticks, the dynamic priority stays among the
  levels of user tasks and within five of the static one.
\<close>

theorem slices_and_bonuses_bounded:
  assumes "task_sane t"
  shows "5 \<le> TASK_TIMESLICE t \<and> TASK_TIMESLICE t \<le> 153 \<and> 100 \<le> effective_prio t \<and> effective_prio t \<le> 139 \<and>
    \<bar>effective_prio t - static_prio t\<bar> \<le> 5"
proof -
  have t: "100 \<le> static_prio t" "static_prio t < 140" "0 \<le> sleep_avg t" "sleep_avg t \<le> 1024"
    using assms by (auto simp: task_sane_def)
  define b where "b = 1000 * sleep_avg t div 1024 div 100 - 5"
  have b: "- 5 \<le> b" "b \<le> 5" using t(3,4) unfolding b_def by linarith+
  have "u32 (1000 * sleep_avg t) = 1000 * sleep_avg t" using t by (intro u32_id) auto
  moreover have "s32 b = b" using b by (intro s32_id) auto
  ultimately have "effective_prio t = (let p = static_prio t - b; q = (if p < 100 then 100 else p) in if q > 139 then 139 else q)"
    by (simp add: effective_prio_def Let_def b_def)
  then show ?thesis using timeslice_range [OF t(1,2)] b t(1,2) by (auto simp: Let_def)
qed

theorem slices_and_bonuses_bounded_witness:
  "TASK_TIMESLICE (three_task 1 0 120 None 0 NULL) \<le> 153 \<and> effective_prio (three_task 1 0 120 None 0 NULL) \<le> 139"
  using slices_and_bonuses_bounded [of "three_task 1 0 120 None 0 NULL"] by (simp add: task_sane_def three_task_def)

text \<open>
  C31. \<^verbatim>\<open>set_user_nice\<close> gives the task the nice value when it is valid and else does nothing. Whatever the
  new priority, the running task is never asked to reschedule for another one: the test that should do it
  compares the new priority with itself.
\<close>

theorem set_user_nice_only_touches_task:
  assumes "sched_inv s" "p \<noteq> 0" "sched_task s p = Some t"
  shows "\<exists>s' t'. set_user_nice p nice s = Inr s' \<and> sched_inv s' \<and> sched_task s' p = Some t' \<and>
    (if -20 \<le> nice \<and> nice \<le> 19 then TASK_NICE t' = nice else s' = s) \<and>
    state t' = state t \<and> run_array t' = run_array t \<and> curr (rq s') = curr (rq s) \<and>
    (\<forall>q. q \<noteq> p \<longrightarrow> sched_task s' q = sched_task s q)"
proof -
  obtain s' t' where "set_user_nice p nice s = Inr s'" "sched_inv s'" "sched_task s' p = Some t'"
    "-20 \<le> nice \<and> nice \<le> 19 \<longrightarrow> TASK_NICE t' = nice" "\<not> (-20 \<le> nice \<and> nice \<le> 19) \<longrightarrow> s' = s"
    "state t' = state t" "run_array t' = run_array t" "curr (rq s') = curr (rq s)"
    "\<forall>q. q \<noteq> p \<longrightarrow> sched_task s' q = sched_task s q"
    using assms by (rule set_user_nice_correct)
  then show ?thesis by auto
qed

theorem set_user_nice_only_touches_task_witness:
  "\<exists>s' t t'. set_user_nice 2 (-20) (three_sched 0 NULL Map.empty ()) = Inr s' \<and>
    sched_task s' 2 = Some t' \<and> TASK_NICE t' = -20 \<and> sched_task s' (curr (rq s')) = Some t \<and> need_resched t = 0"
proof -
  have "sched_task (three_sched 0 NULL Map.empty ()) 2 = Some (three_task 2 0 118 (Some Arr0) 0 NULL)" by (simp add: three_tasks)
  from set_user_nice_only_touches_task [OF three_inv _ this, of "-20"] show ?thesis
    by (auto simp: three_tasks) (auto simp: three_task_def)
qed

text \<open>
  C30. \<^verbatim>\<open>setscheduler\<close> refuses exactly the requests that are not allowed and then changes nothing; else the
  task has the policy and the priority asked for and is queued exactly when it was.
\<close>

theorem setscheduler_all_or_nothing:
  assumes "sched_inv s" "p \<noteq> 0" "sched_task s p = Some t" "sched_task s (curr (rq s)) = Some c" "0 \<le> policy"
  shows "\<exists>r s' t'. setscheduler_task capable policy lp p s = Inr (r, s') \<and> sched_inv s' \<and> sched_task s' p = Some t' \<and>
    (if setscheduler_refuses capable policy lp t c then r < 0 \<and> s' = s
     else r = 0 \<and> sched_policy t' = policy \<and> rt_priority t' = lp \<and> (run_array t' = None \<longleftrightarrow> run_array t = None) \<and>
       (policy \<noteq> SCHED_OTHER \<longrightarrow> prio t' = 99 - lp))"
proof -
  obtain r s' t' where r: "setscheduler_task capable policy lp p s = Inr (r, s')" "sched_inv s'" "sched_task s' p = Some t'"
    "r \<noteq> 0 \<longleftrightarrow> setscheduler_refuses capable policy lp t c" "r \<noteq> 0 \<longrightarrow> s' = s"
    "r = 0 \<longrightarrow> sched_policy t' = policy \<and> rt_priority t' = lp \<and> (run_array t' = None \<longleftrightarrow> run_array t = None) \<and>
       (policy \<noteq> SCHED_OTHER \<longrightarrow> prio t' = 99 - lp)"
    by (rule setscheduler_task_correct [OF assms])
  moreover have "r < 0" if "setscheduler_refuses capable policy lp t c"
    using that r(1) assms(3-5) by (auto simp: setscheduler_task_def setscheduler_refuses_def Let_def split: if_splits)
  ultimately show ?thesis by auto
qed

theorem setscheduler_all_or_nothing_witness:
  "\<exists>s' t'. setscheduler_task True SCHED_FIFO 50 2 (three_sched 0 NULL Map.empty ()) = Inr (0, s') \<and>
    sched_task s' 2 = Some t' \<and> prio t' = 49"
proof -
  let ?s = "three_sched 0 NULL Map.empty ()"
  have "sched_task ?s 2 = Some (three_task 2 0 118 (Some Arr0) 0 NULL)"
    "sched_task ?s (curr (rq ?s)) = Some (three_task 1 0 120 (Some Arr0) 0 NULL)" by (simp_all add: three_tasks)
  from setscheduler_all_or_nothing [OF three_inv _ this, of SCHED_FIFO True 50] show ?thesis
    by (auto simp: setscheduler_refuses_def)
qed

end
