(* ===== verification/Process_Props.thy ===== *)
theory Process_Props
  imports Fork_Inv Kmalloc Scheduler_Props
begin

text \<open>
  The properties of the process table, of process ids and of \<^verbatim>\<open>do_fork\<close>, over a small system of
  three processes.
\<close>

section \<open>A system of three processes\<close>

definition trio_proc :: "int \<Rightarrow> proc" where
  "trio_proc a = \<lparr>pr_pid = a, pr_pgrp = a, pr_tgid = a, pr_session = a, pr_exit_code = 0, pr_exit_signal = 17,
     pr_ptrace = 0, pr_flags = 0, self_exec_id = 0, parent_exec_id = 0,
     next_task = (if a = 3 then 0 else a + 1), prev_task = (if a = 0 then 3 else a - 1),
     p_opptr = 0, p_pptr = 0, p_cptr = (if a = 0 then Some 3 else None),
     p_ysptr = (if a = 1 \<or> a = 2 then Some (a + 1) else None), p_osptr = (if a = 2 \<or> a = 3 then Some (a - 1) else None),
     thread_next = a, thread_prev = a, pidhash_next = None, pidhash_pprev = Bucket (nat a)\<rparr>"

definition trio_table :: ptable where
  "trio_table = \<lparr>procs = trio_proc, pidhash = (\<lambda>h. if h \<in> {1, 2, 3} then Some (int h) else None),
     nr_threads = 3, last_pid = 3, next_safe = 32768\<rparr>"

definition trio :: "'m \<Rightarrow> 'm psys" where
  "trio m = \<lparr>tasks = tasks (three_sched 0 NULL Map.empty m), kobjs = Map.empty, kmem = m, jiffies = 1000, rq = three_rq,
     idle_task = three_task 0 0 140 None 0 NULL, kstat_user = 0, kstat_nice = 0, kstat_system = 0,
     ptab = trio_table, uprocesses = (\<lambda>_. 3), max_threads = 100, total_forks = 3\<rparr>"

lemma trio_hash: "pid_hashfn 1 = 1" "pid_hashfn 2 = 2" "pid_hashfn 3 = 3"
  by (simp_all add: pid_hashfn_def)

lemma trio_ptable_ok:
  "ptable_ok trio_table [1, 2, 3] (\<lambda>h. if h \<in> {1, 2, 3} then [int h] else []) (\<lambda>a. if a = 0 then [3, 2, 1] else [])"
proof -
  have "task_ring trio_table [1, 2, 3]" by (simp add: task_ring_def ring_def trio_table_def trio_proc_def)
  moreover have "hash_ok trio_table {1, 2, 3} (\<lambda>h. if h \<in> {1, 2, 3} then [int h] else [])"
    unfolding hash_ok_def by (auto simp: trio_table_def trio_proc_def trio_hash dll_def)
  moreover have "family_ok trio_table {1, 2, 3} (\<lambda>a. if a = 0 then [3, 2, 1] else [])"
    unfolding family_ok_def by (auto simp: trio_table_def trio_proc_def dll_def)
  ultimately show ?thesis by (simp add: ptable_ok_def) (simp add: trio_table_def trio_proc_def)
qed

lemma trio_used: "used trio_table [1, 2, 3] = {1, 2, 3}"
  by (auto simp: used_def ids_def trio_table_def trio_proc_def)

lemma trio_pid_inv: "pid_inv trio_table [1, 2, 3]"
  by (simp add: pid_inv_def trio_used) (simp add: trio_table_def)

lemma trio_procs_ok: "procs_ok (trio m) [1, 2, 3]"
proof -
  have "ptab (trio m) = trio_table" "dom (tasks (trio m)) = {1, 2, 3}" by (auto simp: trio_def three_sched_def)
  then show ?thesis using trio_ptable_ok trio_pid_inv
    unfolding procs_ok_def by (auto simp: trio_table_def trio_proc_def)
qed

lemma trio_ok: "kernel_ok live kmem_inv (trio small_mem)" "sched_inv (trio m)" "curr (rq (trio m)) = 1" "free_pid (ptab (trio m)) [1, 2, 3]"
proof -
  have off: "policy_on t = 0 \<and> policy_level t = 2" if "tasks (trio small_mem) p = Some t" for p t
    using that by (auto simp: trio_def three_sched_def three_task_def split: if_splits)
  then have "log_objs_at (trio small_mem) p = {}" for p
    by (cases "tasks (trio small_mem) p") (auto simp: log_objs_at_def log_objs_def)
  then have "policy_inv (trio small_mem)" using off by (auto simp: policy_inv_def task_ok_def trio_def)
  then show "kernel_ok live kmem_inv (trio small_mem)" using small_kmem_inv by (simp add: kernel_ok_def mem_ok_def trio_def)
  have "sched_task (trio m) = sched_task (three_sched 0 NULL Map.empty m)" by (auto simp: fun_eq_iff sched_task_def trio_def three_sched_def)
  then show "sched_inv (trio m)" using three_inv [of 0 NULL Map.empty m] by (simp add: three_tasks(2)) (simp add: trio_def)
  show "curr (rq (trio m)) = 1" by (simp add: trio_def)
  show "free_pid (ptab (trio m)) [1, 2, 3]"
    unfolding free_pid_def by (rule exI [of _ 400]) (simp add: trio_def trio_used, simp add: trio_table_def)
qed

section \<open>\<^verbatim>\<open>do_fork\<close>\<close>

lemma kstore_kobjs: "kstore q ob s = Inr s' \<Longrightarrow> \<exists>k. s' = s\<lparr>kobjs := k\<rparr>"
  by (auto simp: kstore_def split: ptr.splits option.splits)

lemma policy_check_kobjs:
  assumes "policy_check req cur s = Inr (r, s')"
  shows "\<exists>k. s' = s\<lparr>kobjs := k\<rparr>"
proof -
  have "\<exists>k. s = s\<lparr>kobjs := k\<rparr>" by (rule exI [of _ "kobjs s"]) simp
  then show ?thesis
    using assms by (auto simp: policy_check_def split: option.splits if_splits elim!: kbind_eq_InrE dest!: kstore_kobjs)
qed

lemma sched_task_kobjs [simp]: "sched_task (s\<lparr>kobjs := k\<rparr>) = sched_task s"
  by (simp add: sched_task_def fun_eq_iff)

text \<open>
  C4. \<^verbatim>\<open>do_fork\<close> of a process whose level is below 2 is refused, recorded in its log and changes nothing
  else. Of every other process it makes a new process exactly when the flags agree, there is memory,
  no limit is reached and the state of the parent can be copied; then the new id was free, the
  process is found under it, can run, has half the parent's slice and no policy, and its user is
  charged for one process more. Else it returns an error and no process, queue or count has changed.
  All invariants are kept.
\<close>

theorem do_fork_makes_process:
  assumes inv: "sched_inv s" "kernel_ok live kmem_inv s" "procs_ok s ts"
    and cur: "curr (rq s) \<noteq> 0" "sched_task s (curr (rq s)) = Some c"
    and room: "\<And>pv. view s (curr (rq s)) = Some (Some pv) \<Longrightarrow> pv_level pv < 2 \<Longrightarrow> int (length (pv_log pv)) < pv_capacity pv"
    and free: "free_pid (ptab s) ts" and err: "\<And>e. copy_err = Some e \<Longrightarrow> e < 0"
    and fl: "and fl CLONE_PTRACE = 0" "and fl CLONE_VFORK = 0"
  shows "\<exists>r s'. do_fork capable alloc_ok nproc copy_err fl s = Inr (r, s') \<and> sched_inv s' \<and> kernel_ok live kmem_inv s' \<and>
    (if policy_on c = 1 \<and> policy_level c < 2
     then r = - EINVAL \<and> fork_failed ts s s' \<and> view s' = snd (spec_check 2 (curr (rq s)) (s32 (jiffies s)) (view s))
     else if fork_allowed capable alloc_ok nproc copy_err fl c s
     then forked c ts (count_user (uid c) s) r s' \<and> view s' = (view s)(r \<mapsto> None)
     else r < 0 \<and> fork_failed ts s s' \<and> view s' = view s)"
proof -
  let ?p = "curr (rq s)"
  have t: "tasks s ?p = Some c" using cur by (simp add: sched_task_def)
  obtain s1 where s1: "policy_check 2 ?p s = Inr (fst (spec_check 2 ?p (s32 (jiffies s)) (view s)), s1)"
    "kernel_ok live kmem_inv s1" "view s1 = snd (spec_check 2 ?p (s32 (jiffies s)) (view s))"
    using slab.check_correct [OF inv(2) t room] by blast
  show ?thesis
  proof (cases "policy_on c = 1 \<and> policy_level c < 2")
    case True
    have "\<exists>s1. policy_check 2 ?p s = Inr (Some (- EINVAL), s1)"
      using s1(1) t True by (auto simp: policy_check_def task_by_pid_def)
    then have e: "do_fork capable alloc_ok nproc copy_err fl s = Inr (- EINVAL, s1)"
      using s1(1) by (auto simp: do_fork_def do_fork_check_def)
    obtain k where k: "s1 = s\<lparr>kobjs := k\<rparr>" using policy_check_kobjs [OF s1(1)] by blast
    have "procs_ok s1 ts = procs_ok s ts" unfolding procs_ok_def by (simp add: k)
    then have "fork_failed ts s s1" "sched_inv s1" using inv(1,3) by (simp_all add: fork_failed_def k)
    then show ?thesis using e s1 True by simp
  next
    case False
    then have pass: "do_fork_check ?p s = Inr (None, s)" using t by (auto simp: do_fork_check_def policy_check_def task_by_pid_def)
    obtain r s' where R: "do_fork capable alloc_ok nproc copy_err fl s = Inr (r, s')" "sched_inv s'"
      "if fork_allowed capable alloc_ok nproc copy_err fl c s then forked c ts (count_user (uid c) s) r s'
       else r < 0 \<and> kobjs s' = kobjs s \<and> kmem s' = kmem s \<and> fork_failed ts s s'"
      by (rule do_fork_run [OF inv(1,3) cur free err pass])
    show ?thesis
    proof (cases "fork_allowed capable alloc_ok nproc copy_err fl c s")
      case True
      let ?s = "count_user (uid c) s"
      have "policy_frame s ?s" by (simp add: policy_frame_def)
      note f = policy_frame_view [OF this]
      have ok: "forked c ts ?s r s'" "kernel_ok live kmem_inv ?s" "procs_ok ?s ts" using R(3) True f inv by simp_all
      show ?thesis using R False True f(1) forked_policy [OF ok] by auto
    next
      case N: False
      then have "policy_frame s s'" using R(3) by (simp add: policy_frame_def fork_failed_def)
      from policy_frame_view [OF this] show ?thesis using R False N inv(2) by auto
    qed
  qed
qed

theorem do_fork_makes_process_witness:
  "\<exists>r s'. do_fork False True 10 None 0 (trio small_mem) = Inr (r, s') \<and> r \<notin> {1, 2, 3} \<and>
     find_task_by_pid (ptab s') r = Some (Some r) \<and> view s' r = Some None \<and> uprocesses s' 0 = 4"
proof -
  let ?s = "trio small_mem" and ?c = "three_task 1 0 120 (Some Arr0) 0 NULL"
  have c: "sched_task ?s (curr (rq ?s)) = Some ?c" "curr (rq ?s) \<noteq> 0"
    by (simp_all add: trio_ok sched_task_def) (simp add: trio_def three_sched_def)
  then have v: "view ?s (curr (rq ?s)) = Some None" by (simp add: view_def sched_task_def three_task_def)
  have a: "fork_allowed False True 10 None 0 ?c ?s" by (simp add: fork_allowed_def trio_def trio_table_def)
  have "\<exists>r s'. do_fork False True 10 None 0 ?s = Inr (r, s') \<and> sched_inv s' \<and> kernel_ok live kmem_inv s' \<and>
    (if policy_on ?c = 1 \<and> policy_level ?c < 2
     then r = - EINVAL \<and> fork_failed [1, 2, 3] ?s s' \<and> view s' = snd (spec_check 2 (curr (rq ?s)) (s32 (jiffies ?s)) (view ?s))
     else if fork_allowed False True 10 None 0 ?c ?s
     then forked ?c [1, 2, 3] (count_user (uid ?c) ?s) r s' \<and> view s' = (view ?s)(r \<mapsto> None)
     else r < 0 \<and> fork_failed [1, 2, 3] ?s s' \<and> view s' = view ?s)"
    by (rule do_fork_makes_process) (use trio_ok trio_procs_ok c v in simp_all)
  then obtain r s' where "do_fork False True 10 None 0 ?s = Inr (r, s')" "forked ?c [1, 2, 3] (count_user (uid ?c) ?s) r s'"
    "view s' = (view ?s)(r \<mapsto> None)" using a by (auto simp: three_task_def)
  then show ?thesis by (intro exI [of _ r] exI [of _ s']) (auto simp: forked_def count_user_def three_task_def trio_def)
qed

section \<open>Process ids\<close>





section \<open>The process table\<close>

text \<open>
  C20. Taking a process out of the table keeps the ring, the hash chains and the lists of children well
  formed; its id is no longer found, and every other process is found under its own id.
\<close>

theorem unhash_process_forgets:
  assumes "ptable_ok s ts bk ch" "p \<in> set ts"
  shows "(\<exists>bk ch. ptable_ok (unhash_process p s) (remove1 p ts) bk ch) \<and>
    find_task_by_pid (unhash_process p s) (pr_pid (procs s p)) = Some None \<and>
    (\<forall>a \<in> set ts - {p}. find_task_by_pid (unhash_process p s) (pr_pid (procs s a)) = Some (Some a))"
proof -
  let ?s = "unhash_process p s"
  note U = unhash_process_ok [OF assms]
  have d: "distinct ts" "inj_on (\<lambda>a. pr_pid (procs s a)) (set ts)" using assms(1) by (auto simp: ptable_ok_def task_ring_def ring_def)
  have S: "set (remove1 p ts) = set ts - {p}" using d(1) by simp
  have h: "hash_ok ?s (set ts - {p}) (\<lambda>h. remove1 p (bk h))" "inj_on (\<lambda>a. pr_pid (procs ?s a)) (set ts - {p})"
    using U(1) by (simp_all add: ptable_ok_def S)
  note F = find_task_by_pid_correct [OF h, unfolded U(2)]
  have "\<forall>a \<in> set ts - {p}. pr_pid (procs s a) \<noteq> pr_pid (procs s p)" using d(2) assms(2) by (auto simp: inj_on_def)
  then show ?thesis using U(1) F by blast
qed

theorem unhash_process_forgets_witness:
  "find_task_by_pid (unhash_process 2 trio_table) 2 = Some None \<and> find_task_by_pid (unhash_process 2 trio_table) 3 = Some (Some 3)"
  using unhash_process_forgets [OF trio_ptable_ok, of 2] by (simp add: trio_table_def trio_proc_def)

text \<open>
  C21. Where the task structures and the process table agree, the hash table finds a process exactly when
  the calls of the policy see it.
\<close>

theorem lookup_agrees:
  assumes "procs_ok s ts"
  shows "find_task_by_pid (ptab s) pd = Some (map_option (\<lambda>_. pd) (task_by_pid s pd))"
proof -
  obtain bk ch where "ptable_ok (ptab s) ts bk ch" using assms by (auto simp: procs_ok_def)
  then have h: "hash_ok (ptab s) (set ts) bk" "inj_on (\<lambda>a. pr_pid (procs (ptab s) a)) (set ts)" by (simp_all add: ptable_ok_def)
  have p: "pr_pid (procs (ptab s) a) = a" if "a \<in> set ts" for a using assms that by (simp add: procs_ok_def)
  have d: "set ts = dom (tasks s)" using assms by (simp add: procs_ok_def)
  show ?thesis
  proof (cases "pd \<in> set ts")
    case True
    then show ?thesis using find_task_by_pid_correct(1) [OF h True] p d by (auto simp: task_by_pid_def)
  next
    case False
    then have "\<forall>a \<in> set ts. pr_pid (procs (ptab s) a) \<noteq> pd" using p by auto
    moreover have "tasks s pd = None" using False unfolding d by auto
    ultimately show ?thesis using find_task_by_pid_correct(2) [OF h] by (simp add: task_by_pid_def)
  qed
qed

theorem lookup_agrees_witness:
  "find_task_by_pid (ptab (trio small_mem)) 2 = Some (Some 2) \<and> find_task_by_pid (ptab (trio small_mem)) 7 = Some None"
  using lookup_agrees [OF trio_procs_ok, of small_mem 2] lookup_agrees [OF trio_procs_ok, of small_mem 7]
  by (simp add: task_by_pid_def trio_def three_sched_def)

end
