(* ===== verification/Slab_Layout.thy ===== *)
theory Slab_Layout
  imports Slab
begin

text \<open>
  The layout \<^verbatim>\<open>kmem_cache_create\<close> computes (mm/slab.c): the counting loop of
  \<^verbatim>\<open>kmem_cache_estimate\<close> ends and finds the largest number of objects that fit, the search
  for a page order succeeds for every admitted object size, and the resulting cache satisfies
  the part of the slab invariant that concerns a cache alone.
\<close>

definition slab_bytes :: "nat \<Rightarrow> nat \<Rightarrow> nat \<Rightarrow> nat \<Rightarrow> nat" where
  "slab_bytes size' base extra i = i * size' + L1_CACHE_ALIGN (base + i * extra)"

lemma L1_CACHE_ALIGN_bounds: "x \<le> L1_CACHE_ALIGN x" "L1_CACHE_ALIGN x < x + 32"
proof -
  have "(x + 31) div 32 * 32 + (x + 31) mod 32 = x + 31" by (rule div_mult_mod_eq)
  moreover have "(x + 31) mod 32 < 32" by simp
  ultimately show "x \<le> L1_CACHE_ALIGN x" "L1_CACHE_ALIGN x < x + 32" by (simp_all add: L1_CACHE_ALIGN_def)
qed

lemma L1_CACHE_ALIGN_mono: "x \<le> y \<Longrightarrow> L1_CACHE_ALIGN x \<le> L1_CACHE_ALIGN y"
  by (simp add: L1_CACHE_ALIGN_def div_le_mono)

lemma slab_bytes_mono: "i \<le> j \<Longrightarrow> slab_bytes size' base extra i \<le> slab_bytes size' base extra j"
  unfolding slab_bytes_def by (intro add_mono mult_le_mono L1_CACHE_ALIGN_mono) simp_all

lemma estimate_loop_ends:
  assumes "0 < size'"
  shows "\<exists>n. estimate_loop size' base extra wastage i = Some n \<and> i \<le> n \<and>
    wastage < slab_bytes size' base extra n \<and> (\<forall>j. i \<le> j \<longrightarrow> j < n \<longrightarrow> slab_bytes size' base extra j \<le> wastage)"
proof (induction "wastage + 1 - i" arbitrary: i rule: less_induct)
  case less
  show ?case
  proof (cases "slab_bytes size' base extra i \<le> wastage")
    case True
    have "i \<le> i * size'" using assms by simp
    also have "\<dots> \<le> wastage" using True unfolding slab_bytes_def by linarith
    finally have "i \<le> wastage" .
    then have "wastage + 1 - (i + 1) < wastage + 1 - i" by simp
    from less [OF this] obtain n where n: "estimate_loop size' base extra wastage (i + 1) = Some n" "i + 1 \<le> n"
      "wastage < slab_bytes size' base extra n"
      "\<forall>j. i + 1 \<le> j \<longrightarrow> j < n \<longrightarrow> slab_bytes size' base extra j \<le> wastage"
      by blast
    have "slab_bytes size' base extra j \<le> wastage" if "i \<le> j" "j < n" for j
      using that True n(4) by (cases "j = i") auto
    with n True show ?thesis
      by (subst estimate_loop.simps) (auto simp: slab_bytes_def)
  next
    case False
    then show ?thesis by (subst estimate_loop.simps) (auto simp: slab_bytes_def)
  qed
qed

text \<open>The number of objects is the largest that fits beside the management data.\<close>

lemma estimate_correct:
  assumes size: "0 < size'" and order: "order \<le> 5"
  shows "\<exists>left n. kmem_cache_estimate order size' off = Inr (left, n) \<and>
    (if off then 0 else slab_size n) + n * size' + left = PAGE_SIZE * 2 ^ order \<and>
    PAGE_SIZE * 2 ^ order < (if off then 0 else slab_size (n + 1)) + (n + 1) * size'"
proof -
  let ?w = "PAGE_SIZE * 2 ^ order" and ?b = "if off then 0 else 24 :: nat" and ?e = "if off then 0 else 4 :: nat"
  obtain i where i: "estimate_loop size' ?b ?e ?w 0 = Some i" "?w < slab_bytes size' ?b ?e i"
    "\<And>j. j < i \<Longrightarrow> slab_bytes size' ?b ?e j \<le> ?w"
    using estimate_loop_ends [OF size, of ?b ?e ?w 0] by auto
  have w: "4096 \<le> ?w" by simp
  have "slab_bytes size' ?b ?e 0 \<le> 4096" by (simp add: slab_bytes_def L1_CACHE_ALIGN_def)
  then have "slab_bytes size' ?b ?e 0 \<le> ?w" using w by (rule order_trans)
  then have pos: "0 < i" using i(2) by (cases i) auto
  have fit: "slab_bytes size' ?b ?e (i - 1) \<le> ?w" using i(3) [of "i - 1"] pos by simp
  have "(2 :: nat) ^ order \<le> 2 ^ 5" using order by (intro power_increasing) simp_all
  then have "?w \<le> 131072" by simp
  moreover have "i - 1 \<le> (i - 1) * size'" using size by simp
  ultimately have small: "i - 1 \<le> 131072" using fit unfolding slab_bytes_def by linarith
  have e: "kmem_cache_estimate order size' off =
      Inr (?w - (i - 1) * size' - L1_CACHE_ALIGN (?b + (i - 1) * ?e), i - 1)"
    using i(1) pos small by (simp add: kmem_cache_estimate_def Let_def)
  have s: "(if off then 0 else slab_size k) = L1_CACHE_ALIGN (?b + k * ?e)" for k
    by (simp add: slab_size_def L1_CACHE_ALIGN_def add.commute)
  have "i - 1 + 1 = i" using pos by simp
  then show ?thesis
    using fit i(2) unfolding e by (simp add: s slab_bytes_def del: mult_Suc)
qed

lemma estimate_cases:
  assumes "0 < size'" "order \<le> 5"
  shows "\<exists>left n. kmem_cache_estimate order size' off = Inr (left, n) \<and>
    (if off then 0 else slab_size n) + n * size' + left = PAGE_SIZE * 2 ^ order \<and>
    (n = 0 \<longrightarrow> PAGE_SIZE * 2 ^ order < (if off then 0 else 32) + size') \<and>
    n * size' \<le> PAGE_SIZE * 2 ^ order"
proof -
  obtain left n where e: "kmem_cache_estimate order size' off = Inr (left, n)"
    "(if off then 0 else slab_size n) + n * size' + left = PAGE_SIZE * 2 ^ order"
    "PAGE_SIZE * 2 ^ order < (if off then 0 else slab_size (n + 1)) + (n + 1) * size'"
    using estimate_correct [OF assms] by blast
  have "n = 0 \<longrightarrow> PAGE_SIZE * 2 ^ order < (if off then 0 else 32) + size'"
    using e(3) by (auto simp: slab_size_def L1_CACHE_ALIGN_def)
  moreover have "n * size' \<le> PAGE_SIZE * 2 ^ order" using e(2) by linarith
  ultimately show ?thesis using e(1,2) by blast
qed

text \<open>
  The page order: with on-slab management the objects are small and order 0 already holds one;
  with off-slab management order 5 does. \<open>limit\<close> is \<^verbatim>\<open>offslab_limit\<close>, the number of objects a
  general cache can manage; eight objects of the smallest off-slab size fill a page.
\<close>

lemma cal_order_correct:
  assumes "0 < size'" "order + k = 5" "size' \<le> 131072" and on: "\<not> off \<Longrightarrow> size' \<le> 4064"
    and lim: "off \<Longrightarrow> 512 \<le> size' \<and> 8 \<le> limit"
  shows "\<exists>order' left n. cal_order k size' off limit brk order = Inr (order', left, n) \<and> order' \<le> 5 \<and>
    (if off then 0 else slab_size n) + n * size' + left = PAGE_SIZE * 2 ^ order' \<and> 0 < n"
  using assms(2)
proof (induction k arbitrary: order)
  case 0
  then have "order \<le> 5" by simp
  from estimate_cases [OF assms(1) this, of off] obtain left n where e: "kmem_cache_estimate order size' off = Inr (left, n)"
    "(if off then 0 else slab_size n) + n * size' + left = PAGE_SIZE * 2 ^ order"
    "n = 0 \<longrightarrow> PAGE_SIZE * 2 ^ order < (if off then 0 else 32) + size'"
    "n * size' \<le> PAGE_SIZE * 2 ^ order" by blast
  have "n \<noteq> 0" using e(3) 0 assms(3) on by (cases off) auto
  then show ?case using e 0 by (subst cal_order.simps) auto
next
  case (Suc k)
  then have "order \<le> 5" by simp
  from estimate_cases [OF assms(1) this, of off] obtain left n where e: "kmem_cache_estimate order size' off = Inr (left, n)"
    "(if off then 0 else slab_size n) + n * size' + left = PAGE_SIZE * 2 ^ order"
    "n = 0 \<longrightarrow> PAGE_SIZE * 2 ^ order < (if off then 0 else 32) + size'"
    "n * size' \<le> PAGE_SIZE * 2 ^ order" by blast
  note IH = Suc.IH [of "order + 1"]
  show ?case
  proof (cases "off \<and> n > limit")
    case True
    then have big: "9 * size' \<le> PAGE_SIZE * 2 ^ order"
      using lim e(4) mult_le_mono1 [of 9 n size'] by linarith
    have o: "0 < order" using big lim True by (cases order) auto
    then have half: "PAGE_SIZE * 2 ^ order = 2 * (PAGE_SIZE * 2 ^ (order - 1))" by (cases order) auto
    have "order - 1 \<le> 5" using \<open>order \<le> 5\<close> by simp
    from estimate_cases [OF assms(1) this, of off] obtain left' n' where e': "kmem_cache_estimate (order - 1) size' off = Inr (left', n')"
      "(if off then 0 else slab_size n') + n' * size' + left' = PAGE_SIZE * 2 ^ (order - 1)"
      "n' = 0 \<longrightarrow> PAGE_SIZE * 2 ^ (order - 1) < (if off then 0 else 32) + size'"
      "n' * size' \<le> PAGE_SIZE * 2 ^ (order - 1)" by blast
    have "n' \<noteq> 0" using e'(3) big half True assms(1) by auto
    then show ?thesis using e e' o True \<open>order \<le> 5\<close> by (subst cal_order.simps) auto
  next
    case False
    have "cal_order (Suc k) size' off limit brk order = cal_order k size' off limit brk (order + 1) \<or>
        cal_order (Suc k) size' off limit brk order = Inr (order, left, n) \<and> n \<noteq> 0"
      using e(1) False cal_order.simps [of "Suc k" size' off limit brk order] by auto
    then show ?thesis
    proof
      assume "cal_order (Suc k) size' off limit brk order = cal_order k size' off limit brk (order + 1)"
      then show ?thesis using IH Suc.prems by simp
    next
      assume "cal_order (Suc k) size' off limit brk order = Inr (order, left, n) \<and> n \<noteq> 0"
      then show ?thesis using e(2) \<open>order \<le> 5\<close> by blast
    qed
  qed
qed

lemma halve_align_pow:
  assumes "align \<in> {4, 8, 16, 32}" "4 \<le> size'"
  shows "halve_align size' align \<in> {4, 8, 16, 32}"
proof -
  have "halve_align size' 4 = 4" using assms(2) by (subst halve_align.simps) simp
  moreover have "halve_align size' 8 \<in> {8, halve_align size' 4}" by (subst halve_align.simps) simp
  moreover have "halve_align size' 16 \<in> {16, halve_align size' 8}" by (subst halve_align.simps) simp
  moreover have "halve_align size' 32 \<in> {32, halve_align size' 16}" by (subst halve_align.simps) simp
  ultimately show ?thesis using assms(1) by auto
qed

lemma round_up:
  fixes a x :: nat
  assumes "0 < a"
  shows "x \<le> (x + a - 1) div a * a" "(x + a - 1) div a * a < x + a" "a dvd (x + a - 1) div a * a"
proof -
  have e: "(x + a - 1) div a * a + (x + a - 1) mod a = x + a - 1" by (rule div_mult_mod_eq)
  moreover have "(x + a - 1) mod a < a" using assms by simp
  ultimately show "x \<le> (x + a - 1) div a * a" "(x + a - 1) div a * a < x + a" using assms by linarith+
qed simp

text \<open>
  The size after both roundings: at least the size asked for, a multiple of four, and still at
  most 32 pages, small when the management stays on the slab.
\<close>

lemma layout_size:
  fixes size0 size1 a :: nat
  assumes "4 \<le> size0" "size0 \<le> 131072" "4 dvd size1" "size0 \<le> size1" "size1 < size0 + 4" "a \<in> {4, 8, 16, 32}"
  shows "size1 \<le> (size1 + a - 1) div a * a" "(size1 + a - 1) div a * a \<le> 131072"
    "size1 < 512 \<Longrightarrow> (size1 + a - 1) div a * a \<le> 512"
proof -
  let ?r = "(size1 + a - 1) div a * a"
  have a: "0 < a" "a dvd 131072" "a dvd 512" using assms(6) by auto
  note r = round_up [OF a(1), of size1]
  show "size1 \<le> ?r" by (rule r(1))
  have s1: "size1 \<le> 131072" using assms(2,3,5) by (auto elim!: dvdE)
  have up: "?r \<le> b" if b: "a dvd b" "size1 \<le> b" for b
  proof -
    obtain k where k: "b = a * k" using b(1) by (rule dvdE)
    have "(size1 + a - 1) div a \<le> k"
      using b(2) a(1) by (simp add: k less_Suc_eq_le [symmetric] div_less_iff_less_mult algebra_simps)
    then show ?thesis by (simp add: k)
  qed
  show "?r \<le> 131072" using up [OF a(2) s1] .
  show "?r \<le> 512" if "size1 < 512" using up [OF a(3)] that by simp
qed

text \<open>The cache built from an order, the bytes left over and the number of objects.\<close>

lemma layout_fits:
  assumes fit: "(if off0 then 0 else slab_size n) + n * size' + left0 = PAGE_SIZE * 2 ^ order"
    and n: "0 < n" "0 < size'" "order \<le> 5"
    and onto: "onto = (off0 \<and> left0 \<ge> slab_size n)"
    and ca: "objsize ca = size'" "off_slab ca = (off0 \<and> \<not> onto)" "num ca = n" "gfporder ca = order"
      "colour_next ca = 0" "colour ca = (if onto then left0 - slab_size n else left0) div colour_off ca"
  shows "cache_ok ca"
proof -
  have "(2 :: nat) ^ order \<le> 2 ^ 5" using n(3) by (intro power_increasing) simp_all
  then have "PAGE_SIZE * 2 ^ order \<le> 131072" by simp
  moreover have "n \<le> n * size'" using n(2) by simp
  ultimately have "num ca < BUFCTL_END" using fit ca(3) by linarith
  moreover have "colour ca * colour_off ca \<le> (if onto then left0 - slab_size n else left0)"
    unfolding ca(6) by (rule div_times_less_eq_dividend)
  then have "(if off_slab ca then 0 else slab_size n) + n * size' + colour ca * colour_off ca \<le> PAGE_SIZE * 2 ^ order"
    using fit ca(2) onto by (cases off0; cases onto) auto
  ultimately show ?thesis using n ca(1-5) by (cases "off0 \<and> \<not> onto") (simp_all add: cache_ok_def)
qed

lemma layout_correct:
  assumes size: "4 \<le> size0" "size0 \<le> 131072" "offset0 \<le> size0" and lim: "8 \<le> limit"
  shows "\<exists>ca. kmem_cache_layout fg limit brk size0 offset0 hwalign dma = Inr (Some ca) \<and> cache_ok ca \<and>
    size0 \<le> objsize ca \<and> all_slabs ca = [] \<and>
    (off_slab ca \<longrightarrow> slabp_cache ca = fg (slab_size (num ca)))"
proof -
  define s1 s2 where "s1 = word_size size0" and "s2 = aligned_size hwalign s1"
  have s1: "size0 \<le> s1" "s1 < size0 + 4" "4 dvd s1"
    using round_up [of 4 size0] by (auto simp: s1_def word_size_def mod_eq_0_iff_dvd)
  have "halve_align s1 32 \<in> {4, 8, 16, 32}" using s1(1) size(1) by (intro halve_align_pow) auto
  then have a: "create_align hwalign s1 \<in> {4, 8, 16, 32}" by (simp add: create_align_def)
  note l = layout_size [OF size(1,2) s1(3,1,2) a]
  have "s1 \<le> 131072" using l by simp
  then have s2: "s1 \<le> s2" "s2 \<le> 131072" "s1 < 512 \<Longrightarrow> s2 \<le> 512"
    using l by (cases hwalign; simp add: s2_def aligned_size_def)+
  have "0 < s2" using s1 s2 size by linarith
  moreover have "\<not> 512 \<le> s1 \<Longrightarrow> s2 \<le> 4064" "512 \<le> s1 \<Longrightarrow> 512 \<le> s2 \<and> 8 \<le> limit" using s2 lim by auto
  ultimately obtain order left n where c: "cal_order 5 s2 (512 \<le> s1) limit brk 0 = Inr (order, left, n)" "order \<le> 5"
    "(if 512 \<le> s1 then 0 else slab_size n) + n * s2 + left = PAGE_SIZE * 2 ^ order" "0 < n"
    using cal_order_correct [of s2 0 5 "512 \<le> s1" limit brk] s2(2) by auto
  let ?ca = "layout_cache fg (512 \<le> s1) (create_align hwalign s1) s2 offset0 dma order left n"
  have "kmem_cache_layout fg limit brk size0 offset0 hwalign dma = Inr (Some ?ca)"
    using size c(1,4) by (simp add: kmem_cache_layout_def Let_def s1_def [symmetric] s2_def [symmetric])
  moreover have "cache_ok ?ca"
    by (rule layout_fits [OF c(3,4) \<open>0 < s2\<close> c(2) refl]) (simp_all add: layout_cache_def Let_def)
  ultimately show ?thesis using s1 s2 by (auto simp: all_slabs_def layout_cache_def Let_def)
qed

end
