(* ===== verification/Slab_Shrink.thy ===== *)
theory Slab_Shrink
  imports Slab
begin

text \<open>
  Shrinking a cache (\<^verbatim>\<open>__kmem_cache_shrink_locked\<close> and \<^verbatim>\<open>kmem_slab_destroy\<close> of mm/slab.c): the free
  slabs go back to the page allocator, the objects in use stay as they are.
\<close>

lemma empty_freelist:
  assumes ok: "slab_ok ca s sl" and "inuse sl = 0"
  shows "set (freelist sl) = {..<num ca}"
proof (rule card_subset_eq)
  show "set (freelist sl) \<subseteq> {..<num ca}" using chain_bound [of "bufctl sl" "sfree sl"] ok by (simp add: slab_ok_def)
  show "card (set (freelist sl)) = card {..<num ca}" using assms by (simp add: slab_ok_def distinct_card)
qed simp

text \<open>Taking an empty slab off its list.\<close>

definition slab_drop ::
  "('p \<Rightarrow> bool) \<Rightarrow> ('p \<Rightarrow> (nat \<times> nat) set) \<Rightarrow> 'p slab_mem \<Rightarrow> 'p slab_mem \<Rightarrow> nat \<Rightarrow> nat \<Rightarrow> cache \<Rightarrow> slab \<Rightarrow> bool" where
  "slab_drop pinv pheld m m' c s ca sl \<longleftrightarrow> slab_inv pinv pheld m \<and> slab_in m c ca s sl \<and> inuse sl = 0 \<and>
     m' = store_cache c (list_del_slab s ca) m"

lemma dropD:
  assumes "slab_drop pinv pheld m m' c s ca sl"
  shows "slab_inv pinv pheld m" "slab_in m c ca s sl" "inuse sl = 0" "m' = store_cache c (list_del_slab s ca) m"
    "caches m c = Some ca" "s \<in> set (all_slabs ca)" "slabs m s = Some sl" "distinct (all_slabs ca)"
    "caches m' x = (if x = c then Some (list_del_slab s ca) else caches m x)" "slabs m' = slabs m" "pages m' = pages m"
    "page_links m' = page_links m" "cache_sizes m' = cache_sizes m"
  using assms slab_invD(3) by (simp_all add: slab_drop_def slab_in_def store_cache_def) blast

lemma drop_only:
  assumes A: "slab_drop pinv pheld m m' c s ca sl" and "slab_in m c2 ca2 s sl2"
  shows "c2 = c" "ca2 = ca" "sl2 = sl"
proof -
  show "c2 = c" using slab_unique [OF dropD(1,2) [OF A] assms(2)] by simp
  then show "ca2 = ca" "sl2 = sl" using assms(2) dropD(5,7) [OF A] by (auto simp: slab_in_def)
qed

lemma drop_slab_in:
  assumes A: "slab_drop pinv pheld m m' c s ca sl" and h: "slab_in m' c2 ca2 s2 sl2"
  obtains (other) "c2 \<noteq> c" "s2 \<noteq> s" "slab_in m c2 ca2 s2 sl2"
  | (same) "c2 = c" "ca2 = list_del_slab s ca" "s2 \<noteq> s" "slab_in m c ca s2 sl2"
proof (cases "c2 = c")
  case True
  then have "ca2 = list_del_slab s ca" "s2 \<in> set (all_slabs ca) - {s}" "slabs m s2 = Some sl2"
    using h dropD(9,10) [OF A] slab_lists(1) [OF dropD(8) [OF A]] by (auto simp: slab_in_def)
  then show ?thesis using True same dropD(5) [OF A] by (simp add: slab_in_def)
next
  case False
  then have "slab_in m c2 ca2 s2 sl2" using h dropD(9,10) [OF A] by (simp add: slab_in_def)
  then show ?thesis using False other drop_only(1) [OF A] by blast
qed

lemma drop_slab_inI:
  assumes A: "slab_drop pinv pheld m m' c s ca sl" and h: "slab_in m c2 ca2 s2 sl2" "s2 \<noteq> s"
  shows "slab_in m' c2 (if c2 = c then list_del_slab s ca else ca2) s2 sl2" "c2 = c \<Longrightarrow> ca2 = ca"
  using h dropD(5,9,10) [OF A] slab_lists(1) [OF dropD(8) [OF A]] by (auto simp: slab_in_def)

lemmas drop_statics = statics_cong [OF slab_lists(6) [OF dropD(8)]]

lemma drop_objs:
  assumes A: "slab_drop pinv pheld m m' c s ca sl"
  shows "objs_of m' c2 = objs_of m c2"
proof (intro equalityI subsetI)
  fix a assume "a \<in> objs_of m' c2"
  then obtain ca2 s2 sl2 k where k: "slab_in m' c2 ca2 s2 sl2" "k < num ca2" "k \<notin> set (freelist sl2)" "a = obj_addr ca2 sl2 k"
    by (rule objs_ofE)
  from A k(1) show "a \<in> objs_of m c2"
    by (cases rule: drop_slab_in) (use k drop_statics(1,3) [OF A] objs_ofI in fastforce)+
next
  fix a assume "a \<in> objs_of m c2"
  then obtain ca2 s2 sl2 k where k: "slab_in m c2 ca2 s2 sl2" "k < num ca2" "k \<notin> set (freelist sl2)" "a = obj_addr ca2 sl2 k"
    by (rule objs_ofE)
  have "set (freelist sl) = {..<num ca}"
    using empty_freelist slab_invD(5) [OF dropD(1,2) [OF A]] dropD(3) [OF A] by blast
  then have "s2 \<noteq> s" using k drop_only [OF A, of c2 ca2 sl2] by auto
  note i = drop_slab_inI [OF A k(1) this]
  from objs_ofI [OF i(1), of k] show "a \<in> objs_of m' c2"
    using k i(2) drop_statics(1,3) [OF A] by (cases "c2 = c") auto
qed

lemma mgmtI: "caches m c = Some ca \<Longrightarrow> off_slab ca \<Longrightarrow> t \<in> set (all_slabs ca) \<Longrightarrow> t \<in> mgmt m"
  unfolding mgmt_def by blast

lemma mgmtE:
  assumes "t \<in> mgmt m"
  obtains c ca where "caches m c = Some ca" "off_slab ca" "t \<in> set (all_slabs ca)"
  using assms unfolding mgmt_def by blast

lemma drop_mgmt:
  assumes A: "slab_drop pinv pheld m m' c s ca sl"
  shows "mgmt m' = (if off_slab ca then mgmt m - {s} else mgmt m)"
proof -
  note L = slab_lists(1) [OF dropD(8) [OF A], of s] and S = drop_statics(4) [OF A, of s]
  have alone: "c2 = c" if "caches m c2 = Some ca2" "s \<in> set (all_slabs ca2)" for c2 ca2
    using slab_invD(9) [OF dropD(1) [OF A] that] drop_only(1) [OF A] by blast
  have "t \<in> mgmt m' \<longleftrightarrow> t \<in> mgmt m \<and> (off_slab ca \<longrightarrow> t \<noteq> s)" for t
  proof
    assume "t \<in> mgmt m'"
    then obtain c2 ca2 where h: "caches m' c2 = Some ca2" "off_slab ca2" "t \<in> set (all_slabs ca2)" by (rule mgmtE)
    show "t \<in> mgmt m \<and> (off_slab ca \<longrightarrow> t \<noteq> s)"
    proof (cases "c2 = c")
      case True
      then have "off_slab ca" "t \<in> set (all_slabs ca) - {s}" using h L S dropD(9) [OF A] by auto
      then show ?thesis using mgmtI [OF dropD(5) [OF A]] by simp
    next
      case False
      then have "caches m c2 = Some ca2" using h dropD(9) [OF A] by simp
      then show ?thesis using mgmtI h(2,3) alone False by blast
    qed
  next
    assume t: "t \<in> mgmt m \<and> (off_slab ca \<longrightarrow> t \<noteq> s)"
    then obtain c2 ca2 where h: "caches m c2 = Some ca2" "off_slab ca2" "t \<in> set (all_slabs ca2)" by (blast elim: mgmtE)
    show "t \<in> mgmt m'"
    proof (cases "c2 = c")
      case True
      then have "off_slab (list_del_slab s ca)" "t \<in> set (all_slabs (list_del_slab s ca))"
        using h t L S dropD(5) [OF A] by auto
      then show ?thesis using mgmtI [of m' c "list_del_slab s ca"] dropD(9) [OF A] by simp
    next
      case False
      then have "caches m' c2 = Some ca2" using h dropD(9) [OF A] by simp
      then show ?thesis using h(2,3) by (rule mgmtI)
    qed
  qed
  then show ?thesis by auto
qed

lemma drop_spare:
  assumes A: "slab_drop pinv pheld m m' c s ca sl"
  shows "spare pheld m' (slab_base sl) (gfporder ca)"
proof -
  note D = slab_invD [OF dropD(1) [OF A]]
  have sep: "sblk ca2 sl2 \<inter> sblk ca sl = {}" if "slab_in m c2 ca2 s2 sl2" "s2 \<noteq> s" for c2 ca2 s2 sl2
    using D(7) [OF that(1)] D(7) [OF dropD(2) [OF A]] that(2) by fastforce
  have "sblk ca2 sl2 \<inter> sblk ca sl = {}" if h: "slab_in m' c2 ca2 s2 sl2" for c2 ca2 s2 sl2
    using A h by (cases rule: drop_slab_in) (use sep drop_statics(2) [OF A] in auto)
  moreover have "(slab_base sl, gfporder ca) \<in> pheld (pages m')" using D(6) [OF dropD(2) [OF A]] dropD(11) [OF A] by simp
  ultimately show ?thesis by (simp add: spare_def sblk_def)
qed

lemma drop_slab_ok:
  assumes A: "slab_drop pinv pheld m m' c s ca sl" and "slab_in m c ca s2 sl2" "s2 \<noteq> s"
  shows "slab_ok (list_del_slab s ca) s2 sl2"
proof -
  have "slab_ok ca s2 sl2" using slab_invD(5) [OF dropD(1) [OF A]] assms(2) by blast
  then show ?thesis
    using assms(3) slab_lists(3,5) [OF dropD(8) [OF A], of s] drop_statics [OF A, of s] by (auto simp: slab_ok_def)
qed

lemma drop_inv:
  assumes A: "slab_drop pinv pheld m m' c s ca sl"
  shows "slab_inv pinv pheld m'"
proof (rule slab_invI)
  note D = slab_invD [OF dropD(1) [OF A]] and F = dropD(9-12) [OF A] and L = slab_lists [OF dropD(8) [OF A], of s]
  note S = drop_statics [OF A, of s]
  show "pinv (pages m')" using D(1) F by simp
  show "cache_ok ca2 \<and> distinct (all_slabs ca2)" if "caches m' c2 = Some ca2" for c2 ca2
    using that D(2,3) F(1) L(2,7) S(9) dropD(5) [OF A] by (cases "c2 = c") auto
  show "\<exists>ca3. caches m' (slabp_cache ca2) = Some ca3 \<and> \<not> off_slab ca3 \<and> gfpflags ca3 AND GFP_DMA = 0"
    if h: "caches m' c2 = Some ca2" "off_slab ca2" for c2 ca2
  proof -
    have "\<exists>ca1. caches m c2 = Some ca1 \<and> slabp_cache ca1 = slabp_cache ca2 \<and> off_slab ca1"
      using h dropD(5) [OF A] S(4,5) F(1) by (cases "c2 = c") auto
    then obtain ca3 where "caches m (slabp_cache ca2) = Some ca3" "\<not> off_slab ca3" "gfpflags ca3 AND GFP_DMA = 0"
      using D(4) by metis
    then show ?thesis using dropD(5) [OF A] S(4,7) F(1) by (cases "slabp_cache ca2 = c") simp_all
  qed
  show "slabs m' s2 \<noteq> None" if "caches m' c2 = Some ca2" "s2 \<in> set (all_slabs ca2)" for c2 ca2 s2
    using that D(9) [of c2 _ s2] L(1) F dropD(5) [OF A] by (cases "c2 = c") (auto simp: slab_in_def)
  fix c2 ca2 s2 sl2 assume h: "slab_in m' c2 ca2 s2 sl2"
  show "slab_ok ca2 s2 sl2 \<and> (slab_base sl2, gfporder ca2) \<in> pheld (pages m')"
    using A h by (cases rule: drop_slab_in) (use D(5,6) F S(6) drop_slab_ok [OF A] in auto)
  show "page_links m' j = Some (c2, s2)" if "j \<in> sblk ca2 sl2" for j
    using A h by (cases rule: drop_slab_in) (use D(7) F S(2) that in auto)
  show "s2 \<in> objs_of m' (slabp_cache ca2)" if "off_slab ca2"
    using A h by (cases rule: drop_slab_in) (use D(8) S(4,5) that drop_objs [OF A] in auto)
qed

lemma drop_gone:
  assumes A: "slab_drop pinv pheld m m' c s ca sl"
  shows "\<not> slab_in m' c2 ca2 s sl2"
  using A drop_slab_in [OF A, of c2 ca2 s sl2] by blast

text \<open>Forgetting a slab descriptor that is on no list.\<close>

lemma forget_slab:
  assumes inv: "slab_inv pinv pheld m" and gone: "\<And>c ca sl. \<not> slab_in m c ca s sl"
    and m': "m' = m\<lparr>slabs := (slabs m)(s := None)\<rparr>"
  shows "slab_inv pinv pheld m'" "objs_of m' = objs_of m" "mgmt m' = mgmt m"
proof -
  have si: "slab_in m' = slab_in m"
    using gone by (intro ext) (auto simp: m' slab_in_def)
  then show ob: "objs_of m' = objs_of m" by (intro ext) (simp add: objs_of_def)
  show "mgmt m' = mgmt m" by (simp add: mgmt_def m')
  note D = slab_invD [OF inv]
  show "slab_inv pinv pheld m'"
  proof (rule slab_invI)
    show "slabs m' s2 \<noteq> None" if "caches m' c2 = Some ca2" "s2 \<in> set (all_slabs ca2)" for c2 ca2 s2
      using that D(9) [of c2 ca2 s2] gone by (auto simp: m' slab_in_def)
  qed (use D in \<open>simp_all add: si ob\<close>, simp_all add: m')
qed

context page_allocator
begin

lemma destroy_correct:
  assumes A: "slab_drop pinv pheld m m1 c s ca sl"
  shows "\<exists>m'. kmem_slab_destroy put_pages c s m1 = Inr m' \<and> slab_inv pinv pheld m' \<and> live m' = live m \<and>
    same_statics m m' \<and> caches m' c = Some (list_del_slab s ca)"
proof -
  let ?ca = "list_del_slab s ca"
  note S = drop_statics [OF A, of s]
  have "spare pheld m1 (slab_base sl) (gfporder ?ca)" using drop_spare [OF A] S(6) by simp
  then obtain m2 where m2: "kmem_freepages put_pages ?ca (slab_base sl) m1 = Inr m2" "slab_inv pinv pheld m2"
    "caches m2 = caches m1" "slabs m2 = slabs m1" "cache_sizes m2 = cache_sizes m1"
    using freepages_correct [OF drop_inv [OF A]] by blast
  have si: "slab_in m2 = slab_in m1" using m2 by (intro ext) (simp add: slab_in_def)
  then have ob2: "objs_of m2 = objs_of m" using drop_objs [OF A] by (intro ext) (simp add: objs_of_def)
  have mg2: "mgmt m2 = mgmt m1" using m2(3) by (simp add: mgmt_def)
  define m3 where "m3 = m2\<lparr>slabs := (slabs m2)(s := None)\<rparr>"
  note f = forget_slab [OF m2(2) _ m3_def, unfolded si, OF drop_gone [OF A]]
  have c3: "caches m3 = caches m1" "cache_sizes m3 = cache_sizes m" using m2 dropD(13) [OF A] by (simp_all add: m3_def)
  have c1: "caches m1 x = (if x = c then Some ?ca else caches m x)" for x by (rule dropD(9) [OF A])
  have st: "same_statics m m3"
    using c1 c3 dropD(5) [OF A] slab_lists(6) [OF dropD(8) [OF A]] by (simp add: same_statics_def)
  have r: "kmem_slab_destroy put_pages c s m1 =
      (if off_slab ca then kmem_cache_free_one (slabp_cache ca) s m3 else Inr m3)"
    using m2(1) c1 dropD(7,10) [OF A] S(4,5)
    by (simp add: kmem_slab_destroy_def load_cache_def load_slab_def slab_base_def m3_def)
  show ?thesis
  proof (cases "off_slab ca")
    case False
    then show ?thesis
      using r f ob2 mg2 drop_mgmt [OF A] st c3 c1 by (simp add: live_def objs_def)
  next
    case True
    have so: "s \<in> objs_of m3 (slabp_cache ca)"
      using slab_invD(8) [OF dropD(1,2) [OF A] True] by (simp add: f ob2)
    have sm: "s \<in> mgmt m" by (rule mgmtI [OF dropD(5) [OF A] True dropD(6) [OF A]])
    have mg: "mgmt m3 = mgmt m - {s}" using f(3) mg2 drop_mgmt [OF A] True by simp
    then have "s \<notin> mgmt m3" by simp
    from free_one_correct [OF f(1) so this] obtain m' where m': "kmem_cache_free_one (slabp_cache ca) s m3 = Inr m'"
      "slab_inv pinv pheld m'" "mgmt m' = mgmt m3" "objs m' = objs m3 - {s}" "frame (slabp_cache ca) m3 m'" by blast
    have "slabp_cache ca \<noteq> c"
      using slab_invD(4) [OF dropD(1) [OF A] dropD(5) [OF A] True] dropD(5) [OF A] True by auto
    then have "caches m' c = Some ?ca" using m'(5) c1 c3 by (simp add: frame_def)
    moreover have "live m' = live m" using m' mg sm ob2 f(2) by (auto simp: live_def objs_def)
    ultimately show ?thesis
      using r True m' same_statics_trans [OF st frame_statics [OF m'(5)]] by simp
  qed
qed

text \<open>
  The loop: with as much fuel as there are free slabs it ends, the objects in use are the same,
  and unless the cache is growing no free slab is left.
\<close>

lemma shrink_correct:
  assumes "slab_inv pinv pheld m" "caches m c = Some ca" "length (slabs_free ca) \<le> k"
  shows "\<exists>n m' ca'. kmem_cache_shrink_locked k put_pages ret c m = Inr (ret + n, m') \<and> slab_inv pinv pheld m' \<and>
    live m' = live m \<and> same_statics m m' \<and> caches m' c = Some ca' \<and> slabs_full ca' = slabs_full ca \<and>
    slabs_partial ca' = slabs_partial ca \<and>
    (growing ca = 0 \<longrightarrow> n = length (slabs_free ca) \<and> slabs_free ca' = [])"
  using assms
proof (induction k arbitrary: m ca ret)
  case 0
  then show ?case
    by (subst kmem_cache_shrink_locked.simps) (simp add: load_cache_def)
next
  case (Suc k)
  show ?case
  proof (cases "growing ca \<noteq> 0 \<or> slabs_free ca = []")
    case True
    then show ?thesis
      using Suc.prems by (subst kmem_cache_shrink_locked.simps) (auto simp: load_cache_def)
  next
    case False
    define s where "s = last (slabs_free ca)"
    have s: "s \<in> set (slabs_free ca)" using False by (simp add: s_def)
    then obtain sl where sl: "slab_in m c ca s sl"
      using slab_invD(9) [OF Suc.prems(1,2), of s] by (auto simp: all_slabs_def)
    then have "inuse sl = 0" using slab_invD(5) [OF Suc.prems(1) sl] s by (simp add: slab_ok_def)
    then have A: "slab_drop pinv pheld m (store_cache c (list_del_slab s ca) m) c s ca sl"
      using Suc.prems(1) sl by (simp add: slab_drop_def)
    obtain m1 where m1: "kmem_slab_destroy put_pages c s (store_cache c (list_del_slab s ca) m) = Inr m1"
      "slab_inv pinv pheld m1" "live m1 = live m" "same_statics m m1" "caches m1 c = Some (list_del_slab s ca)"
      using destroy_correct [OF A] by blast
    have d: "distinct (all_slabs ca)" by (rule dropD(8) [OF A])
    have "s \<notin> set (slabs_full ca)" "s \<notin> set (slabs_partial ca)" using d s by (auto simp: all_slabs_def)
    moreover have "slabs_free ca = butlast (slabs_free ca) @ [s]" using False by (simp add: s_def)
    then have "remove1 s (slabs_free ca) = butlast (slabs_free ca)"
      using d by (metis all_slabs_def append_Nil2 distinct_append not_distinct_conv_prefix remove1.simps(2)
          remove1_append)
    ultimately have l: "slabs_full (list_del_slab s ca) = slabs_full ca" "slabs_partial (list_del_slab s ca) = slabs_partial ca"
      "length (slabs_free (list_del_slab s ca)) = length (slabs_free ca) - 1" "growing (list_del_slab s ca) = growing ca"
      by (simp_all add: list_del_slab_def remove1_idem)
    have "length (slabs_free (list_del_slab s ca)) \<le> k" using l(3) Suc.prems(3) by simp
    from Suc.IH [OF m1(2,5) this, of "ret + 1"]
    obtain n m' ca' where n: "kmem_cache_shrink_locked k put_pages (ret + 1) c m1 = Inr (ret + 1 + n, m')"
      "slab_inv pinv pheld m'" "live m' = live m1" "same_statics m1 m'" "caches m' c = Some ca'"
      "slabs_full ca' = slabs_full ca" "slabs_partial ca' = slabs_partial ca"
      "growing ca = 0 \<longrightarrow> n = length (slabs_free ca) - 1 \<and> slabs_free ca' = []" unfolding l by (elim exE conjE that)
    have "kmem_cache_shrink_locked (Suc k) put_pages ret c m = Inr (ret + (n + 1), m')"
      using False Suc.prems(2) m1(1) n(1)
      by (subst kmem_cache_shrink_locked.simps) (simp add: load_cache_def Let_def s_def)
    moreover have "0 < length (slabs_free ca)" using False by simp
    ultimately show ?thesis
      using n m1 False same_statics_trans [OF m1(4) n(4)]
      by (intro exI [of _ "n + 1"] exI [of _ m'] exI [of _ ca']) auto
  qed
qed

end

end
