(* ===== verification/Memory_Props.thy ===== *)
theory Memory_Props
  imports Kmalloc Slab_Layout Slab_Shrink
begin

text \<open>
  What the memory allocators promise: the buddy allocator of one zone, the slab caches on top of it
  and \<^verbatim>\<open>kmalloc\<close>. The properties are instantiated at the small machine of theory \<open>Kmalloc\<close>.
\<close>

section \<open>Pages\<close>

text \<open>
  C16. \<^verbatim>\<open>rmqueue\<close> never faults on a consistent zone. It gives nothing only when no list of the order
  or of a higher one has a block; else the block was free, is no longer, and every other held block
  stays held.
\<close>

theorem rmqueue_takes_free_block:
  assumes "zone_inv z" "order < MAX_ORDER"
  shows "\<exists>res z'. rmqueue memalloc order z = Inr (res, z') \<and>
    (case res of
       None \<Rightarrow> z' = z \<and> (\<forall>c. order \<le> c \<longrightarrow> c < MAX_ORDER \<longrightarrow> free_list z c = [])
     | Some pg \<Rightarrow> zone_inv z' \<and> blk order pg \<subseteq> avail z \<and> avail z' = avail z - blk order pg \<and>
         (pg, order) \<in> held z' \<and> held z \<subseteq> held z')"
proof -
  obtain res z' where r: "rmqueue memalloc order z = Inr (res, z')" using rmqueue_total [OF assms] by blast
  then show ?thesis using rmqueue_correct [OF assms r] by blast
qed

theorem rmqueue_takes_free_block_witness:
  "\<exists>pg z'. rmqueue False 0 small_zone = Inr (Some pg, z') \<and> zone_inv z' \<and> avail z' = avail small_zone - {pg}"
proof -
  obtain res z' where r: "rmqueue False 0 small_zone = Inr (res, z')"
    "case res of
       None \<Rightarrow> z' = small_zone \<and> (\<forall>c. 0 \<le> c \<longrightarrow> c < MAX_ORDER \<longrightarrow> free_list small_zone c = [])
     | Some pg \<Rightarrow> zone_inv z' \<and> blk 0 pg \<subseteq> avail small_zone \<and> avail z' = avail small_zone - blk 0 pg \<and>
         (pg, 0) \<in> held z' \<and> held small_zone \<subseteq> held z'"
    using rmqueue_takes_free_block [OF small_zone_inv, of 0 False] by auto
  have "free_list small_zone 1 \<noteq> []" by (simp add: small_zone_def)
  then show ?thesis using r by (cases res) (auto simp: blk_def)
qed

text \<open>
  C17. \<^verbatim>\<open>__free_pages\<close> of a held block never faults, returns exactly its pages, merging it with its free
  buddies, and leaves the blocks that do not overlap it held.
\<close>

theorem free_pages_returns_block:
  assumes "zone_inv z" "(i, order) \<in> held z"
  shows "\<exists>z'. free_pages_count i order z = Inr z' \<and> zone_inv z' \<and> avail z' = avail z \<union> blk order i \<and>
     (\<forall>(j, q) \<in> held z. blk q j \<inter> blk order i = {} \<longrightarrow> (j, q) \<in> held z')"
  using assms by (rule free_correct)

theorem free_pages_returns_block_witness:
  "\<exists>z'. free_pages_count 0 0 small_zone = Inr z' \<and> zone_inv z' \<and> avail z' = insert 0 (avail small_zone)"
  using free_pages_returns_block [OF small_zone_inv small_held] by (auto simp: blk_def)

text \<open>
  C18. Taking a block and giving it back restores the set of free pages.
\<close>

theorem pages_round_trip:
  assumes "zone_inv z" "order < MAX_ORDER" "rmqueue memalloc order z = Inr (Some pg, z1)"
  shows "\<exists>z2. free_pages_count pg order z1 = Inr z2 \<and> zone_inv z2 \<and> avail z2 = avail z"
proof -
  have a: "zone_inv z1" "blk order pg \<subseteq> avail z" "avail z1 = avail z - blk order pg" "(pg, order) \<in> held z1"
    using rmqueue_correct [OF assms] by simp_all
  then show ?thesis using free_correct [OF a(1,4)] by auto
qed

lemma small_rmqueue: "\<exists>pg z'. rmqueue False 0 small_zone = Inr (Some pg, z')"
proof -
  obtain res z' where r: "rmqueue False 0 small_zone = Inr (res, z')" using rmqueue_total [OF small_zone_inv, of 0 False] by auto
  have "free_list small_zone 1 \<noteq> []" by (simp add: small_zone_def)
  then show ?thesis using rmqueue_correct [OF small_zone_inv _ r] r by (cases res) auto
qed

theorem pages_round_trip_witness:
  "\<exists>pg z1 z2. rmqueue False 0 small_zone = Inr (Some pg, z1) \<and> free_pages_count pg 0 z1 = Inr z2 \<and>
    avail z2 = avail small_zone"
proof -
  obtain pg z1 where r: "rmqueue False 0 small_zone = Inr (Some pg, z1)" using small_rmqueue by blast
  show ?thesis using pages_round_trip [OF small_zone_inv _ r] r by auto
qed

section \<open>Objects\<close>

text \<open>
  C13. \<^verbatim>\<open>kmalloc\<close> never faults, and an object it gives was not in use; a failure changes no object.
\<close>

theorem kmalloc_gives_fresh_object:
  assumes "kmem_inv m"
  shows "\<exists>r m'. kmalloc_flags (\<lambda>flags. rmqueue False) free_pages_count False GFP_KERNEL n m = Inr (r, m') \<and> kmem_inv m' \<and>
    (case r of None \<Rightarrow> live m' = live m | Some a \<Rightarrow> a \<notin> live m \<and> live m' = insert a (live m))"
proof -
  obtain r m' where "kmalloc_flags (\<lambda>flags. rmqueue False) free_pages_count False GFP_KERNEL n m = Inr (r, m')"
    "kmem_inv m'" "case r of None \<Rightarrow> live m' = live m | Some a \<Rightarrow> a \<notin> objs m \<and> live m' = insert a (live m)"
    using assms by (rule kmalloc_result)
  then show ?thesis by (auto simp: live_def split: option.splits)
qed

theorem kmalloc_gives_fresh_object_witness:
  "\<exists>r m'. kmalloc_flags (\<lambda>flags. rmqueue False) free_pages_count False GFP_KERNEL 20 small_mem = Inr (r, m') \<and>
    kmem_inv m' \<and> {3221225536, 3221225568} \<subseteq> live m'"
  using kmalloc_gives_fresh_object [OF small_kmem_inv, of 20] by (force simp: small_live split: option.splits)

text \<open>
  C14. \<^verbatim>\<open>kfree\<close> of an object in use never faults and ends the use of that object and of no other.
\<close>

theorem kfree_releases_object:
  assumes "kmem_inv m" "a \<in> live m"
  shows "\<exists>m'. kfree_obj a m = Inr m' \<and> kmem_inv m' \<and> live m' = live m - {a}"
proof -
  obtain m' c where m': "kfree_obj a m = Inr m'" "slab_inv zone_inv held m'" "live m' = live m - {a}" "frame c m m'"
    using kfree_correct [of zone_inv held m a] assms by (auto simp: kmem_inv_def)
  then show ?thesis using assms(1) sizes_ok_statics [OF frame_statics] by (auto simp: kmem_inv_def)
qed

theorem kfree_releases_object_witness:
  "\<exists>m'. kfree_obj 3221225536 small_mem = Inr m' \<and> kmem_inv m' \<and> live m' = {3221225568}"
  using kfree_releases_object [OF small_kmem_inv, of 3221225536] by (auto simp: small_live)



section \<open>Caches\<close>

text \<open>
  C26. \<^verbatim>\<open>kmem_cache_create\<close> finds a layout for every object size from a word to 128 KB: the objects, the
  slab management where it is on the slab, and the colouring fit into the pages of the slab, and
  the loops that search for it end.
\<close>

theorem cache_layout_fits:
  assumes "4 \<le> size0" "size0 \<le> 131072" "offset0 \<le> size0" and "8 \<le> limit"
  shows "\<exists>ca. kmem_cache_layout fg limit brk size0 offset0 hwalign dma = Inr (Some ca) \<and> cache_ok ca \<and>
    size0 \<le> objsize ca \<and> all_slabs ca = [] \<and>
    (off_slab ca \<longrightarrow> slabp_cache ca = fg (slab_size (num ca)))"
  using assms by (rule layout_correct)

theorem cache_layout_fits_witness:
  "\<exists>ca. kmem_cache_layout (\<lambda>_. 7) 64 2 100 0 True False = Inr (Some ca) \<and> cache_ok ca \<and> 100 \<le> objsize ca"
  using cache_layout_fits [of 100 0 64 "\<lambda>_. 7" 2 True False] by auto

text \<open>
  C27. Shrinking a cache ends, destroys every slab without objects when the cache is not growing, and
  touches no object in use.
\<close>

theorem cache_shrink_frees_slabs:
  assumes "slab_inv zone_inv held m" "caches m c = Some ca" "length (slabs_free ca) \<le> k"
  shows "\<exists>n m' ca'. kmem_cache_shrink_locked k free_pages_count ret c m = Inr (ret + n, m') \<and> slab_inv zone_inv held m' \<and>
    live m' = live m \<and> same_statics m m' \<and> caches m' c = Some ca' \<and> slabs_full ca' = slabs_full ca \<and>
    slabs_partial ca' = slabs_partial ca \<and>
    (growing ca = 0 \<longrightarrow> n = length (slabs_free ca) \<and> slabs_free ca' = [])"
  using assms by (rule buddy_zone.shrink_correct)

theorem cache_shrink_frees_slabs_witness:
  "\<exists>m'. kmem_cache_shrink_locked 0 free_pages_count 0 1 small_mem = Inr (0, m') \<and> live m' = live small_mem"
proof -
  have "slab_inv zone_inv held small_mem" using small_kmem_inv by (simp add: kmem_inv_def)
  moreover have "caches small_mem 1 = Some (general_cache 0 [3221225472])" by (simp add: small_mem_def)
  ultimately show ?thesis
    using cache_shrink_frees_slabs [of small_mem 1 "general_cache 0 [3221225472]" 0 0] by (auto simp: general_cache_def)
qed

end
