(* ===== verification/Cstring.thy ===== *)
theory Cstring
  imports Kernel_Prelude
begin

text \<open>
  The portable string and memory routines of lib/string.c and the character table of lib/ctype.c,
  on a byte memory: an address is an \<^typ>\<open>int\<close>, a byte an \<open>8 word\<close>, \<^verbatim>\<open>char\<close> is signed as on i386. A
  routine that only stops at a NUL byte is a partial function: \<open>None\<close> when it never stops. A loop
  that counts a \<^verbatim>\<open>size_t\<close> down recurses on it.
\<close>

subsection \<open>Memory\<close>

type_synonym byte = "8 word"
type_synonym bmem = "int \<Rightarrow> byte"

subsection \<open>Character classes\<close>

abbreviation (input) "CU \<equiv> 1 :: int"
abbreviation (input) "CL \<equiv> 2 :: int"
abbreviation (input) "CD \<equiv> 4 :: int"
abbreviation (input) "CC \<equiv> 8 :: int"
abbreviation (input) "CP \<equiv> 16 :: int"
abbreviation (input) "CS \<equiv> 32 :: int"
abbreviation (input) "CX \<equiv> 64 :: int"
abbreviation (input) "CSP \<equiv> 128 :: int"

definition ctype :: "int list" where
  "ctype =
     [CC, CC, CC, CC, CC, CC, CC, CC] @
     [CC, or CC CS, or CC CS, or CC CS, or CC CS, or CC CS, CC, CC] @
     replicate 8 CC @ replicate 8 CC @
     [or CS CSP, CP, CP, CP, CP, CP, CP, CP] @ replicate 8 CP @
     replicate 8 CD @ [CD, CD, CP, CP, CP, CP, CP, CP] @
     [CP, or CU CX, or CU CX, or CU CX, or CU CX, or CU CX, or CU CX, CU] @
     replicate 8 CU @ replicate 8 CU @ [CU, CU, CU, CP, CP, CP, CP, CP] @
     [CP, or CL CX, or CL CX, or CL CX, or CL CX, or CL CX, or CL CX, CL] @
     replicate 8 CL @ replicate 8 CL @ [CL, CL, CL, CP, CP, CP, CP, CC] @
     replicate 16 0 @ replicate 16 0 @
     [or CS CSP] @ replicate 15 CP @ replicate 16 CP @ replicate 16 CU @
     replicate 7 CU @ [CP] @ replicate 7 CU @ [CL] @ replicate 16 CL @
     replicate 7 CL @ [CP] @ replicate 8 CL"

definition ismask :: "byte \<Rightarrow> int" where
  "ismask c = ctype ! unat c"

definition isdigit :: "byte \<Rightarrow> bool" where
  "isdigit c \<longleftrightarrow> and (ismask c) CD \<noteq> 0"

definition islower :: "byte \<Rightarrow> bool" where
  "islower c \<longleftrightarrow> and (ismask c) CL \<noteq> 0"

definition isspace :: "byte \<Rightarrow> bool" where
  "isspace c \<longleftrightarrow> and (ismask c) CS \<noteq> 0"

definition isupper :: "byte \<Rightarrow> bool" where
  "isupper c \<longleftrightarrow> and (ismask c) CU \<noteq> 0"

definition isxdigit :: "byte \<Rightarrow> bool" where
  "isxdigit c \<longleftrightarrow> and (ismask c) (or CD CX) \<noteq> 0"

definition tolower :: "byte \<Rightarrow> byte" where
  "tolower c = (if isupper c then c - (65 - 97) else c)"

definition toupper :: "byte \<Rightarrow> byte" where
  "toupper c = (if islower c then c - (97 - 65) else c)"

subsection \<open>Comparing\<close>

fun strnicmp_loop :: "bmem \<Rightarrow> int \<Rightarrow> int \<Rightarrow> nat \<Rightarrow> byte \<times> byte" where
  "strnicmp_loop m s1 s2 0 = (0, 0)"
| "strnicmp_loop m s1 s2 (Suc len) =
     (if m s1 = 0 \<or> m s2 = 0 then (m s1, m s2)
      else if m s1 = m s2 then (if len = 0 then (m s1, m s2) else strnicmp_loop m (s1 + 1) (s2 + 1) len)
      else if tolower (m s1) \<noteq> tolower (m s2) \<or> len = 0 then (tolower (m s1), tolower (m s2))
      else strnicmp_loop m (s1 + 1) (s2 + 1) len)"

definition strnicmp :: "bmem \<Rightarrow> int \<Rightarrow> int \<Rightarrow> nat \<Rightarrow> int" where
  "strnicmp m s1 s2 len = (let (c1, c2) = strnicmp_loop m s1 s2 len in uint c1 - uint c2)"

text \<open>\<^verbatim>\<open>__res\<close> is a \<^verbatim>\<open>signed char\<close>: the difference of two bytes wraps to 8 bits.\<close>

partial_function (option) strcmp :: "bmem \<Rightarrow> int \<Rightarrow> int \<Rightarrow> int option" where
  "strcmp m cs ct =
     (let res = sint (m cs - m ct)
      in if res \<noteq> 0 \<or> m cs = 0 then Some res else strcmp m (cs + 1) (ct + 1))"

fun strncmp_loop :: "bmem \<Rightarrow> int \<Rightarrow> int \<Rightarrow> nat \<Rightarrow> int \<Rightarrow> int" where
  "strncmp_loop m cs ct 0 res0 = res0"
| "strncmp_loop m cs ct (Suc count) res0 =
     (let res = sint (m cs - m ct)
      in if res \<noteq> 0 \<or> m cs = 0 then res else strncmp_loop m (cs + 1) (ct + 1) count res)"

definition strncmp :: "bmem \<Rightarrow> int \<Rightarrow> int \<Rightarrow> nat \<Rightarrow> int" where
  "strncmp m cs ct count = strncmp_loop m cs ct count 0"

fun memcmp_loop :: "bmem \<Rightarrow> int \<Rightarrow> int \<Rightarrow> nat \<Rightarrow> int \<Rightarrow> int" where
  "memcmp_loop m su1 su2 0 res0 = res0"
| "memcmp_loop m su1 su2 (Suc count) res0 =
     (let res = uint (m su1) - uint (m su2)
      in if res \<noteq> 0 then res else memcmp_loop m (su1 + 1) (su2 + 1) count res)"

definition memcmp :: "bmem \<Rightarrow> int \<Rightarrow> int \<Rightarrow> nat \<Rightarrow> int" where
  "memcmp m cs ct count = memcmp_loop m cs ct count 0"

subsection \<open>Measuring and searching\<close>

partial_function (option) strlen_loop :: "bmem \<Rightarrow> int \<Rightarrow> int \<Rightarrow> int option" where
  "strlen_loop m s sc = (if m sc \<noteq> 0 then strlen_loop m s (sc + 1) else Some (sc - s))"

definition strlen :: "bmem \<Rightarrow> int \<Rightarrow> int option" where
  "strlen m s = strlen_loop m s s"

fun strnlen_loop :: "bmem \<Rightarrow> int \<Rightarrow> int \<Rightarrow> nat \<Rightarrow> int" where
  "strnlen_loop m s sc 0 = sc - s"
| "strnlen_loop m s sc (Suc count) = (if m sc \<noteq> 0 then strnlen_loop m s (sc + 1) count else sc - s)"

definition strnlen :: "bmem \<Rightarrow> int \<Rightarrow> nat \<Rightarrow> int" where
  "strnlen m s count = strnlen_loop m s s count"

text \<open>\<open>Some None\<close> is a search that ends with a null pointer.\<close>

partial_function (option) strchr :: "bmem \<Rightarrow> int \<Rightarrow> byte \<Rightarrow> int option option" where
  "strchr m s c = (if m s \<noteq> c then (if m s = 0 then Some None else strchr m (s + 1) c) else Some (Some s))"

function strrchr_loop :: "bmem \<Rightarrow> int \<Rightarrow> int \<Rightarrow> byte \<Rightarrow> int option" where
  "strrchr_loop m s p c =
     (if m p = c then Some p else if p - 1 \<ge> s then strrchr_loop m s (p - 1) c else None)"
  by pat_completeness auto
termination
  by (relation "measure (\<lambda>(m, s, p, c). nat (p - s))") auto

definition strrchr :: "bmem \<Rightarrow> int \<Rightarrow> byte \<Rightarrow> int option option" where
  "strrchr m s c = (case strlen m s of None \<Rightarrow> None | Some n \<Rightarrow> Some (strrchr_loop m s (s + n) c))"

text \<open>The inner loops of \<^verbatim>\<open>strspn\<close> and \<^verbatim>\<open>strpbrk\<close>: where the byte is found, or the NUL.\<close>

partial_function (option) find_char :: "bmem \<Rightarrow> byte \<Rightarrow> int \<Rightarrow> int option" where
  "find_char m c a = (if m a \<noteq> 0 then (if c = m a then Some a else find_char m c (a + 1)) else Some a)"

partial_function (option) strspn_loop :: "bmem \<Rightarrow> int \<Rightarrow> int \<Rightarrow> int \<Rightarrow> int option" where
  "strspn_loop m p acc n =
     (if m p \<noteq> 0 then
        (case find_char m (m p) acc of
           None \<Rightarrow> None
         | Some a \<Rightarrow> if m a = 0 then Some n else strspn_loop m (p + 1) acc (n + 1))
      else Some n)"

definition strspn :: "bmem \<Rightarrow> int \<Rightarrow> int \<Rightarrow> int option" where
  "strspn m s acc = strspn_loop m s acc 0"

partial_function (option) strpbrk :: "bmem \<Rightarrow> int \<Rightarrow> int \<Rightarrow> int option option" where
  "strpbrk m cs ct =
     (if m cs \<noteq> 0 then
        (case find_char m (m cs) ct of
           None \<Rightarrow> None
         | Some a \<Rightarrow> if m a \<noteq> 0 then Some (Some cs) else strpbrk m (cs + 1) ct)
      else Some None)"

fun memscan :: "bmem \<Rightarrow> int \<Rightarrow> int \<Rightarrow> nat \<Rightarrow> int" where
  "memscan m p c 0 = p"
| "memscan m p c (Suc n) = (if uint (m p) = c then p else memscan m (p + 1) c n)"

fun memchr :: "bmem \<Rightarrow> int \<Rightarrow> int \<Rightarrow> nat \<Rightarrow> int option" where
  "memchr m p c 0 = None"
| "memchr m p c (Suc n) = (if word_of_int c = m p then Some p else memchr m (p + 1) c n)"

function strstr_loop :: "bmem \<Rightarrow> int \<Rightarrow> int \<Rightarrow> int \<Rightarrow> int \<Rightarrow> int option" where
  "strstr_loop m s1 s2 l1 l2 =
     (if l1 \<ge> l2 then (if memcmp m s1 s2 (nat l2) = 0 then Some s1 else strstr_loop m (s1 + 1) s2 (l1 - 1) l2)
      else None)"
  by pat_completeness auto
termination
  by (relation "measure (\<lambda>(m, s1, s2, l1, l2). nat (l1 - l2 + 1))") auto

definition strstr :: "bmem \<Rightarrow> int \<Rightarrow> int \<Rightarrow> int option option" where
  "strstr m s1 s2 =
     (case strlen m s2 of
        None \<Rightarrow> None
      | Some l2 \<Rightarrow> if l2 = 0 then Some (Some s1)
                   else (case strlen m s1 of None \<Rightarrow> None | Some l1 \<Rightarrow> Some (strstr_loop m s1 s2 l1 l2)))"

subsection \<open>Copying\<close>

partial_function (option) copy_string :: "bmem \<Rightarrow> int \<Rightarrow> int \<Rightarrow> bmem option" where
  "copy_string m dest src =
     (let c = m src; m1 = m(dest := c)
      in if c \<noteq> 0 then copy_string m1 (dest + 1) (src + 1) else Some m1)"

definition strcpy :: "bmem \<Rightarrow> int \<Rightarrow> int \<Rightarrow> (int \<times> bmem) option" where
  "strcpy m dest src = map_option (Pair dest) (copy_string m dest src)"

fun strncpy_loop :: "bmem \<Rightarrow> int \<Rightarrow> int \<Rightarrow> nat \<Rightarrow> bmem" where
  "strncpy_loop m dest src 0 = m"
| "strncpy_loop m dest src (Suc count) =
     (let c = m src; m1 = m(dest := c)
      in if c \<noteq> 0 then strncpy_loop m1 (dest + 1) (src + 1) count else m1)"

definition strncpy :: "bmem \<Rightarrow> int \<Rightarrow> int \<Rightarrow> nat \<Rightarrow> int \<times> bmem" where
  "strncpy m dest src count = (dest, strncpy_loop m dest src count)"

definition strcat :: "bmem \<Rightarrow> int \<Rightarrow> int \<Rightarrow> (int \<times> bmem) option" where
  "strcat m dest src =
     (case strlen m dest of
        None \<Rightarrow> None
      | Some n \<Rightarrow> map_option (Pair dest) (copy_string m (dest + n) src))"

fun strncat_loop :: "bmem \<Rightarrow> int \<Rightarrow> int \<Rightarrow> nat \<Rightarrow> bmem" where
  "strncat_loop m dest src 0 = m"
| "strncat_loop m dest src (Suc count) =
     (let c = m src; m1 = m(dest := c)
      in if c \<noteq> 0 then (if count = 0 then m1(dest + 1 := 0) else strncat_loop m1 (dest + 1) (src + 1) count)
         else m1)"

definition strncat :: "bmem \<Rightarrow> int \<Rightarrow> int \<Rightarrow> nat \<Rightarrow> (int \<times> bmem) option" where
  "strncat m dest src count =
     (if count = 0 then Some (dest, m)
      else case strlen m dest of
             None \<Rightarrow> None
           | Some n \<Rightarrow> Some (dest, strncat_loop m (dest + n) src count))"

fun memset_loop :: "bmem \<Rightarrow> int \<Rightarrow> byte \<Rightarrow> nat \<Rightarrow> bmem" where
  "memset_loop m xs c 0 = m"
| "memset_loop m xs c (Suc count) = memset_loop (m(xs := c)) (xs + 1) c count"

definition memset :: "bmem \<Rightarrow> int \<Rightarrow> int \<Rightarrow> nat \<Rightarrow> int \<times> bmem" where
  "memset m s c count = (s, memset_loop m s (word_of_int c) count)"

fun copy_up :: "bmem \<Rightarrow> int \<Rightarrow> int \<Rightarrow> nat \<Rightarrow> bmem" where
  "copy_up m tmp s 0 = m"
| "copy_up m tmp s (Suc count) = copy_up (m(tmp := m s)) (tmp + 1) (s + 1) count"

fun copy_down :: "bmem \<Rightarrow> int \<Rightarrow> int \<Rightarrow> nat \<Rightarrow> bmem" where
  "copy_down m tmp s 0 = m"
| "copy_down m tmp s (Suc count) = copy_down (m(tmp - 1 := m (s - 1))) (tmp - 1) (s - 1) count"

definition memcpy :: "bmem \<Rightarrow> int \<Rightarrow> int \<Rightarrow> nat \<Rightarrow> int \<times> bmem" where
  "memcpy m dest src count = (dest, copy_up m dest src count)"

definition bcopy :: "bmem \<Rightarrow> int \<Rightarrow> int \<Rightarrow> int \<Rightarrow> int \<times> bmem" where
  "bcopy m src dest count = (dest, copy_up m dest src (nat (u32 count)))"

definition memmove :: "bmem \<Rightarrow> int \<Rightarrow> int \<Rightarrow> nat \<Rightarrow> int \<times> bmem" where
  "memmove m dest src count =
     (dest, if dest \<le> src then copy_up m dest src count
            else copy_down m (dest + int count) (src + int count) count)"

subsection \<open>Splitting\<close>

text \<open>\<open>s\<close> is the pointer the caller passes by reference, \<open>None\<close> when it is null.\<close>

definition strsep :: "bmem \<Rightarrow> int option \<Rightarrow> int \<Rightarrow> (int option \<times> int option \<times> bmem) option" where
  "strsep m s ct =
     (case s of
        None \<Rightarrow> Some (None, None, m)
      | Some sbegin \<Rightarrow>
          (case strpbrk m sbegin ct of
             None \<Rightarrow> None
           | Some None \<Rightarrow> Some (Some sbegin, None, m)
           | Some (Some e) \<Rightarrow> Some (Some sbegin, Some (e + 1), m(e := 0))))"

text \<open>\<open>saved\<close> is the variable \<^verbatim>\<open>___strtok\<close>.\<close>

definition strtok :: "bmem \<Rightarrow> int option \<Rightarrow> int option \<Rightarrow> int \<Rightarrow> (int option \<times> int option \<times> bmem) option" where
  "strtok m saved s ct =
     (case (case s of Some a \<Rightarrow> Some a | None \<Rightarrow> saved) of
        None \<Rightarrow> Some (None, saved, m)
      | Some sbegin0 \<Rightarrow>
          (case strspn m sbegin0 ct of
             None \<Rightarrow> None
           | Some n \<Rightarrow>
               let sbegin = sbegin0 + n
               in if m sbegin = 0 then Some (None, None, m)
                  else (case strpbrk m sbegin ct of
                          None \<Rightarrow> None
                        | Some None \<Rightarrow> Some (Some sbegin, None, m)
                        | Some (Some e) \<Rightarrow>
                            if m e \<noteq> 0 then Some (Some sbegin, Some (e + 1), m(e := 0))
                            else Some (Some sbegin, Some e, m))))"

declare strrchr_loop.simps [simp del] strstr_loop.simps [simp del]

section \<open>Properties\<close>

text \<open>The C string at an address: its bytes, then a NUL.\<close>

fun cstr :: "bmem \<Rightarrow> int \<Rightarrow> byte list \<Rightarrow> bool" where
  "cstr m a [] \<longleftrightarrow> m a = 0"
| "cstr m a (x # xs) \<longleftrightarrow> m a = x \<and> x \<noteq> 0 \<and> cstr m (a + 1) xs"

lemma cstr_iff:
  "cstr m a xs \<longleftrightarrow> (\<forall>i<length xs. m (a + int i) = xs ! i \<and> xs ! i \<noteq> 0) \<and> m (a + int (length xs)) = 0"
proof (induction xs arbitrary: a)
  case (Cons x xs)
  then show ?case by (auto simp: less_Suc_eq_0_disj ac_simps)
qed simp

lemma cstr_cong: "(\<And>q. a \<le> q \<Longrightarrow> q \<le> a + int (length xs) \<Longrightarrow> m' q = m q) \<Longrightarrow> cstr m' a xs = cstr m a xs"
  by (induction xs arbitrary: a) auto

lemma cstr_unique: "cstr m a xs \<Longrightarrow> cstr m a ys \<Longrightarrow> xs = ys"
proof (induction xs arbitrary: a ys)
  case Nil
  then show ?case by (cases ys) auto
next
  case (Cons x xs)
  then show ?case by (cases ys) auto
qed

lemma cstr_drop: "cstr m a xs \<Longrightarrow> i \<le> length xs \<Longrightarrow> cstr m (a + int i) (drop i xs)"
proof (induction xs arbitrary: a i)
  case (Cons x xs)
  show ?case
  proof (cases i)
    case (Suc j)
    then show ?thesis using Cons.IH [of "a + 1" j] Cons.prems by (simp add: algebra_simps)
  qed (use Cons.prems in simp)
qed simp

lemma cstr_append: "cstr m a (xs @ ys) \<longleftrightarrow> (\<forall>i<length xs. m (a + int i) = xs ! i \<and> xs ! i \<noteq> 0) \<and> cstr m (a + int (length xs)) ys"
proof (induction xs arbitrary: a)
  case (Cons x xs)
  then show ?case by (auto simp: less_Suc_eq_0_disj ac_simps)
qed simp

subsection \<open>Measuring and searching\<close>

lemma strlen_correct:
  assumes "cstr m a xs"
  shows "strlen m a = Some (int (length xs))"
proof -
  have "cstr m p ys \<Longrightarrow> strlen_loop m a p = Some (p + int (length ys) - a)" for p ys
    by (induction ys arbitrary: p) (subst strlen_loop.simps, simp)+
  then show ?thesis using assms by (simp add: strlen_def)
qed

lemma strnlen_correct:
  assumes "cstr m a xs"
  shows "strnlen m a n = int (min n (length xs))"
proof -
  have "cstr m p ys \<Longrightarrow> strnlen_loop m a p n = p + int (min n (length ys)) - a" for p ys
  proof (induction ys arbitrary: p n)
    case Nil
    then show ?case by (cases n) auto
  next
    case (Cons y ys)
    then show ?case by (cases n) auto
  qed
  then show ?thesis using assms by (simp add: strnlen_def)
qed

lemma strchr_correct:
  assumes "cstr m a xs" and "c \<noteq> 0"
  shows "strchr m a c = Some (if c \<in> set xs then Some (a + int (length (takeWhile (\<lambda>x. x \<noteq> c) xs))) else None)"
  using assms
proof (induction xs arbitrary: a)
  case Nil
  then show ?case by (subst strchr.simps) simp
next
  case (Cons x xs)
  then show ?case by (subst strchr.simps) auto
qed

lemma strchr_end:
  assumes "cstr m a xs"
  shows "strchr m a 0 = Some (Some (a + int (length xs)))"
  using assms
proof (induction xs arbitrary: a)
  case Nil
  then show ?case by (subst strchr.simps) simp
next
  case (Cons x xs)
  then show ?case by (subst strchr.simps) auto
qed

lemma strrchr_loop_correct:
  assumes "s \<le> p"
  shows "case strrchr_loop m s p c of
      Some q \<Rightarrow> s \<le> q \<and> q \<le> p \<and> m q = c \<and> (\<forall>r. q < r \<longrightarrow> r \<le> p \<longrightarrow> m r \<noteq> c)
    | None \<Rightarrow> \<forall>r. s \<le> r \<longrightarrow> r \<le> p \<longrightarrow> m r \<noteq> c"
  using assms
proof (induction m s p c rule: strrchr_loop.induct)
  case (1 m s p c)
  show ?case
  proof (cases "m p = c \<or> p = s")
    case True
    then show ?thesis by (subst strrchr_loop.simps) (use "1.prems" in auto)
  next
    case False
    with "1.prems" have "s \<le> p - 1" by simp
    with False
    have e: "strrchr_loop m s p c = strrchr_loop m s (p - 1) c" by (subst strrchr_loop.simps) simp
    have "m r \<noteq> c" if "r \<le> p" "\<not> r \<le> p - 1" for r using that False by (cases "r = p") auto
    then show ?thesis using "1.IH" False \<open>s \<le> p - 1\<close> unfolding e by (fastforce split: option.splits)
  qed
qed

lemma find_char_correct:
  assumes "cstr m a xs"
  shows "find_char m c a = Some (a + int (length (takeWhile (\<lambda>x. x \<noteq> c) xs)))"
  using assms
proof (induction xs arbitrary: a)
  case Nil
  then show ?case by (subst find_char.simps) simp
next
  case (Cons x xs)
  then show ?case by (subst find_char.simps) auto
qed

lemma found_char:
  assumes "cstr m a xs"
  shows "m (a + int (length (takeWhile (\<lambda>x. x \<noteq> c) xs))) = 0 \<longleftrightarrow> c \<notin> set xs"
  using assms
proof (induction xs arbitrary: a)
  case (Cons x xs)
  then show ?case using Cons.IH [of "a + 1"] by (auto simp: algebra_simps)
qed simp

lemma strspn_correct:
  assumes "cstr m a xs" and acc: "cstr m b cs"
  shows "strspn m a b = Some (int (length (takeWhile (\<lambda>x. x \<in> set cs) xs)))"
proof -
  have "cstr m p ys \<Longrightarrow> strspn_loop m p b n = Some (n + int (length (takeWhile (\<lambda>x. x \<in> set cs) ys)))" for p ys n
  proof (induction ys arbitrary: p n)
    case Nil
    then show ?case by (subst strspn_loop.simps) simp
  next
    case (Cons y ys)
    then show ?case by (subst strspn_loop.simps) (simp add: find_char_correct [OF acc] found_char [OF acc])
  qed
  then show ?thesis using assms by (simp add: strspn_def)
qed

lemma strpbrk_correct:
  assumes "cstr m a xs" and acc: "cstr m b cs"
  shows "strpbrk m a b = Some (if set xs \<inter> set cs = {} then None
           else Some (a + int (length (takeWhile (\<lambda>x. x \<notin> set cs) xs))))"
  using assms(1)
proof (induction xs arbitrary: a)
  case Nil
  then show ?case by (subst strpbrk.simps) simp
next
  case (Cons y ys)
  then show ?case by (subst strpbrk.simps) (simp add: find_char_correct [OF acc] found_char [OF acc])
qed

lemma strrchr_correct:
  assumes "cstr m a xs" and "c \<noteq> 0"
  shows "strrchr m a c = Some None \<and> c \<notin> set xs \<or>
    (\<exists>i<length xs. strrchr m a c = Some (Some (a + int i)) \<and> xs ! i = c \<and> c \<notin> set (drop (Suc i) xs))"
proof -
  let ?r = "strrchr_loop m a (a + int (length xs)) c"
  have r: "strrchr m a c = Some ?r" by (simp add: strrchr_def strlen_correct [OF assms(1)])
  have m: "m (a + int i) = xs ! i" if "i < length xs" for i using assms(1) that by (simp add: cstr_iff)
  have e: "m (a + int (length xs)) \<noteq> c" using assms by (simp add: cstr_iff)
  show ?thesis
  proof (cases ?r)
    case None
    have "xs ! i \<noteq> c" if "i < length xs" for i
      using strrchr_loop_correct [of a "a + int (length xs)" m c] None m [OF that] that by (auto dest: spec [of _ "a + int i"])
    then show ?thesis using r None by (auto simp: in_set_conv_nth)
  next
    case (Some q)
    then have q: "a \<le> q" "q \<le> a + int (length xs)" "m q = c" "\<forall>r. q < r \<longrightarrow> r \<le> a + int (length xs) \<longrightarrow> m r \<noteq> c"
      using strrchr_loop_correct [of a "a + int (length xs)" m c] by auto
    define i where "i = nat (q - a)"
    have "q \<noteq> a + int (length xs)" using q(3) e by auto
    then have i: "q = a + int i" "i < length xs" using q(1,2) by (auto simp: i_def)
    have "xs ! j \<noteq> c" if "Suc i \<le> j" "j < length xs" for j
      using q(4) i(1) m [OF that(2)] that by (auto dest: spec [of _ "a + int j"])
    then have "c \<notin> set (drop (Suc i) xs)" by (auto simp: in_set_conv_nth)
    then show ?thesis using r Some i q(3) m by auto
  qed
qed

subsection \<open>Comparing\<close>

lemma byte_zero: "sint (x :: byte) = 0 \<longleftrightarrow> x = 0"
  by (rule signed_eq_0_iff)

lemma byte_diff: "sint (x - y :: byte) = 0 \<longleftrightarrow> x = y"
  by (simp add: byte_zero)

text \<open>Strings compare as 0 exactly when they are equal; a length limits the comparison.\<close>

lemma strcmp_correct:
  assumes "cstr m a xs" "cstr m b ys"
  obtains r where "strcmp m a b = Some r" "r = 0 \<longleftrightarrow> xs = ys"
proof -
  have "\<exists>r. strcmp m a b = Some r \<and> (r = 0 \<longleftrightarrow> xs = ys)"
    using assms
  proof (induction xs arbitrary: a b ys)
    case Nil
    then show ?case by (cases ys) (subst strcmp.simps, auto simp: byte_zero)+
  next
    case (Cons x xs)
    then show ?case by (cases ys) (subst strcmp.simps, auto simp: byte_zero)+
  qed
  then show thesis using that by blast
qed

lemma strncmp_correct:
  assumes "cstr m a xs" "cstr m b ys"
  shows "strncmp m a b n = 0 \<longleftrightarrow> take n xs = take n ys"
proof -
  have "cstr m p us \<Longrightarrow> cstr m q vs \<Longrightarrow> strncmp_loop m p q n 0 = 0 \<longleftrightarrow> take n us = take n vs" for p q us vs
  proof (induction n arbitrary: p q us vs)
    case (Suc n)
    then show ?case by (cases us; cases vs) (auto simp: byte_zero Let_def)
  qed simp
  then show ?thesis using assms by (simp add: strncmp_def)
qed

text \<open>\<^verbatim>\<open>memcmp\<close> orders two areas by their first difference, as unsigned bytes.\<close>

lemma memcmp_correct:
  "memcmp m a b n = 0 \<longleftrightarrow> (\<forall>i<n. m (a + int i) = m (b + int i))"
  "memcmp m a b n < 0 \<longleftrightarrow> (\<exists>k<n. (\<forall>i<k. m (a + int i) = m (b + int i)) \<and> m (a + int k) < m (b + int k))"
proof -
  have "(memcmp_loop m a b n 0 = 0 \<longleftrightarrow> (\<forall>i<n. m (a + int i) = m (b + int i))) \<and>
    (memcmp_loop m a b n 0 < 0 \<longleftrightarrow> (\<exists>k<n. (\<forall>i<k. m (a + int i) = m (b + int i)) \<and> m (a + int k) < m (b + int k)))"
  proof (induction n arbitrary: a b)
    case (Suc n)
    show ?case
    proof (cases "m a = m b")
      case True
      have "(\<exists>k<Suc n. (\<forall>i<k. m (a + int i) = m (b + int i)) \<and> m (a + int k) < m (b + int k)) \<longleftrightarrow>
        (\<exists>k<n. (\<forall>i<k. m (a + 1 + int i) = m (b + 1 + int i)) \<and> m (a + 1 + int k) < m (b + 1 + int k))"
        using True by (auto simp: Ex_less_Suc2 All_less_Suc2 ac_simps)
      then show ?thesis using True Suc.IH [of "a + 1" "b + 1"] by (auto simp: All_less_Suc2 ac_simps)
    next
      case False
      then have "uint (m a) - uint (m b) \<noteq> 0" by (simp add: word_uint_eq_iff)
      moreover have "(\<exists>k<Suc n. (\<forall>i<k. m (a + int i) = m (b + int i)) \<and> m (a + int k) < m (b + int k)) \<longleftrightarrow> m a < m b"
        using False by (auto simp: Ex_less_Suc2 All_less_Suc2)
      ultimately show ?thesis using False by (auto simp: word_less_def All_less_Suc2)
    qed
  qed simp
  then show "memcmp m a b n = 0 \<longleftrightarrow> (\<forall>i<n. m (a + int i) = m (b + int i))"
    "memcmp m a b n < 0 \<longleftrightarrow> (\<exists>k<n. (\<forall>i<k. m (a + int i) = m (b + int i)) \<and> m (a + int k) < m (b + int k))"
    by (simp_all add: memcmp_def)
qed

text \<open>The comparison without case: \<open>tolower\<close> never makes or loses the NUL.\<close>

lemma tolower_zero [simp]: "tolower c = 0 \<longleftrightarrow> c = 0"
proof -
  have "isupper c \<Longrightarrow> c + 32 \<noteq> 0"
  proof
    assume "isupper c" "c + 32 = 0"
    then have "c = - 32" by (simp add: eq_neg_iff_add_eq_0)
    also have "\<dots> = 224" by simp
    finally have "c = 224" .
    moreover have "\<not> isupper 224" by code_simp
    ultimately show False using \<open>isupper c\<close> by simp
  qed
  moreover have "\<not> isupper 0" by code_simp
  ultimately show ?thesis by (auto simp: tolower_def)
qed

lemma strnicmp_correct:
  assumes "cstr m a xs" "cstr m b ys"
  shows "strnicmp m a b n = 0 \<longleftrightarrow> map tolower (take n xs) = map tolower (take n ys)"
proof -
  have "cstr m p us \<Longrightarrow> cstr m q vs \<Longrightarrow>
    fst (strnicmp_loop m p q n) = snd (strnicmp_loop m p q n) \<longleftrightarrow> map tolower (take n us) = map tolower (take n vs)" for p q us vs
  proof (induction n arbitrary: p q us vs)
    case (Suc n)
    then show ?case by (cases us; cases vs; cases n) (auto simp: Let_def)
  qed simp
  then show ?thesis using assms by (simp add: strnicmp_def word_uint_eq_iff split_beta)
qed

subsection \<open>Copying\<close>

lemma copy_up_correct:
  assumes "dest \<le> src \<or> src + int n \<le> dest"
  shows "copy_up m dest src n q = (if dest \<le> q \<and> q < dest + int n then m (src + (q - dest)) else m q)"
  using assms
proof (induction n arbitrary: m dest src)
  case (Suc n)
  then show ?case by (cases "q = dest") (auto simp: ac_simps)
qed auto

lemma copy_down_correct:
  assumes "src - int n \<le> dest - int n"
  shows "copy_down m dest src n q = (if dest - int n \<le> q \<and> q < dest then m (src + (q - dest)) else m q)"
  using assms
proof (induction n arbitrary: m dest src)
  case (Suc n)
  then show ?case by (cases "q = dest - 1") (auto simp: ac_simps)
qed auto

text \<open>\<^verbatim>\<open>memmove\<close> copes with every overlap; \<^verbatim>\<open>memcpy\<close> does the same when the areas do not overlap.\<close>

lemma memmove_correct:
  "memmove m dest src n = (dest, \<lambda>q. if dest \<le> q \<and> q < dest + int n then m (src + (q - dest)) else m q)"
proof (cases "dest \<le> src")
  case True
  then show ?thesis using copy_up_correct [of dest src n m] by (auto simp: memmove_def)
next
  case False
  then show ?thesis using copy_down_correct [of "src + int n" n "dest + int n" m] by (auto simp: memmove_def algebra_simps)
qed

lemma memcpy_correct:
  assumes "dest \<le> src \<or> src + int n \<le> dest"
  shows "memcpy m dest src n = memmove m dest src n"
  using copy_up_correct [OF assms] by (auto simp: memcpy_def memmove_correct)

lemma memset_correct:
  "memset m s c n = (s, \<lambda>q. if s \<le> q \<and> q < s + int n then word_of_int c else m q)"
proof -
  have "memset_loop m p x n q = (if p \<le> q \<and> q < p + int n then x else m q)" for p x q
    by (induction n arbitrary: m p) auto
  then show ?thesis by (auto simp: memset_def)
qed

text \<open>The string copies are area copies of the length of the string and its NUL.\<close>

lemma copy_string_correct:
  assumes "cstr m src xs" "dest \<le> src \<or> src + int (length xs) < dest"
  shows "copy_string m dest src = Some (copy_up m dest src (Suc (length xs)))"
  using assms
proof (induction xs arbitrary: m dest src)
  case Nil
  then show ?case by (subst copy_string.simps) simp
next
  case (Cons x xs)
  have "cstr (m(dest := m src)) (src + 1) xs = cstr m (src + 1) xs"
    by (rule cstr_cong) (use Cons.prems in auto)
  then have "copy_string (m(dest := m src)) (dest + 1) (src + 1) =
    Some (copy_up (m(dest := m src)) (dest + 1) (src + 1) (Suc (length xs)))"
    by (intro Cons.IH) (use Cons.prems in \<open>simp_all only: cstr.simps list.size, auto\<close>)
  then show ?case using Cons.prems by (subst copy_string.simps) (simp add: Let_def)
qed

lemma strcpy_correct:
  assumes "cstr m src xs" "dest \<le> src \<or> src + int (length xs) < dest"
  obtains m' where "strcpy m dest src = Some (dest, m')" "cstr m' dest xs"
    "\<And>q. q < dest \<or> dest + int (length xs) < q \<Longrightarrow> m' q = m q"
proof -
  let ?m = "copy_up m dest src (Suc (length xs))"
  have q: "?m q = (if dest \<le> q \<and> q \<le> dest + int (length xs) then m (src + (q - dest)) else m q)" for q
    by (subst copy_up_correct) (use assms in auto)
  have "cstr ?m dest xs" using assms(1) by (simp add: cstr_iff q del: copy_up.simps)
  then show thesis using copy_string_correct [OF assms] q by (intro that [of ?m]) (auto simp: strcpy_def simp del: copy_up.simps)
qed

lemma strncpy_correct:
  assumes "cstr m src xs" "dest \<le> src \<or> src + int (length xs) < dest"
  shows "strncpy m dest src n = memmove m dest src (min n (Suc (length xs)))"
proof -
  have "strncpy_loop m dest src n = copy_up m dest src (min n (Suc (length xs)))"
    using assms
  proof (induction n arbitrary: m dest src xs)
    case (Suc n)
    show ?case
    proof (cases xs)
      case (Cons x ys)
      have "strncpy_loop (m(dest := m src)) (dest + 1) (src + 1) n =
        copy_up (m(dest := m src)) (dest + 1) (src + 1) (min n (Suc (length ys)))" if "n \<noteq> 0"
      proof (rule Suc.IH)
        show "cstr (m(dest := m src)) (src + 1) ys"
          using cstr_cong [of "src + 1" ys "m(dest := m src)" m] Suc.prems Cons by auto
        show "dest + 1 \<le> src + 1 \<or> src + 1 + int (length ys) < dest + 1"
          using Suc.prems(2) Cons by auto
      qed
      then show ?thesis using Suc.prems Cons by (cases n) (auto simp: Let_def)
    qed (use Suc.prems in auto)
  qed simp
  then show ?thesis using memcpy_correct [of dest src "min n (Suc (length xs))" m] assms(2)
    by (auto simp: strncpy_def memcpy_def)
qed

text \<open>Appending to a string that lies apart from the source.\<close>

lemma strcat_correct:
  assumes "cstr m dest ys" "cstr m src xs"
    and apart: "dest + int (length ys) + int (length xs) < src \<or> src + int (length xs) < dest"
  obtains m' where "strcat m dest src = Some (dest, m')" "cstr m' dest (ys @ xs)"
proof -
  let ?d = "dest + int (length ys)"
  obtain m' where m': "strcpy m ?d src = Some (?d, m')" "cstr m' ?d xs"
    "\<And>q. q < ?d \<or> ?d + int (length xs) < q \<Longrightarrow> m' q = m q"
    by (rule strcpy_correct [OF assms(2), of ?d]) (use apart in auto)
  have "cstr m' dest (ys @ xs)" unfolding cstr_append using m'(2,3) assms(1) [unfolded cstr_iff] by simp
  then show thesis using m'(1) by (intro that) (auto simp: strcat_def strcpy_def strlen_correct [OF assms(1)])
qed

lemma strncat_loop_correct:
  assumes "cstr m src xs" "0 < n" "dest + int (length xs) < src \<or> src + int (length xs) < dest"
  shows "cstr (strncat_loop m dest src n) dest (take n xs) \<and>
    (\<forall>q. q < dest \<or> dest + int (length (take n xs)) < q \<longrightarrow> strncat_loop m dest src n q = m q)"
  using assms
proof (induction n arbitrary: m dest src xs)
  case (Suc n)
  show ?case
  proof (cases xs)
    case (Cons x ys)
    have ys: "cstr (m(dest := m src)) (src + 1) ys"
      using cstr_cong [of "src + 1" ys "m(dest := m src)" m] Suc.prems Cons by auto
    show ?thesis
    proof (cases "n = 0")
      case False
      have "cstr (strncat_loop (m(dest := m src)) (dest + 1) (src + 1) n) (dest + 1) (take n ys) \<and>
        (\<forall>q. q < dest + 1 \<or> dest + 1 + int (length (take n ys)) < q \<longrightarrow>
          strncat_loop (m(dest := m src)) (dest + 1) (src + 1) n q = (m(dest := m src)) q)"
        by (rule Suc.IH [OF ys]) (use False Suc.prems Cons in auto)
      then show ?thesis using False Suc.prems Cons by (auto simp: Let_def)
    qed (use Suc.prems Cons in \<open>auto simp: Let_def\<close>)
  qed (use Suc.prems in auto)
qed simp

lemma strncat_correct:
  assumes "cstr m dest ys" "cstr m src xs"
    and apart: "dest + int (length ys) + int (length xs) < src \<or> src + int (length xs) < dest"
  obtains m' where "strncat m dest src n = Some (dest, m')" "cstr m' dest (ys @ take n xs)"
proof (cases "n = 0")
  case True
  then show ?thesis using assms(1) by (intro that [of m]) (auto simp: strncat_def)
next
  case False
  let ?d = "dest + int (length ys)" and ?m = "strncat_loop m (dest + int (length ys)) src n"
  have "cstr ?m ?d (take n xs) \<and> (\<forall>q. q < ?d \<or> ?d + int (length (take n xs)) < q \<longrightarrow> ?m q = m q)"
    by (rule strncat_loop_correct [OF assms(2)]) (use False apart in auto)
  then have "cstr ?m dest (ys @ take n xs)" unfolding cstr_append using assms(1) [unfolded cstr_iff] by simp
  then show ?thesis using False by (intro that [of ?m]) (auto simp: strncat_def strlen_correct [OF assms(1)])
qed

subsection \<open>Substrings and tokens\<close>

lemma memcmp_prefix:
  assumes "cstr m a xs" "cstr m b ys" "length ys \<le> length xs"
  shows "memcmp m a b (length ys) = 0 \<longleftrightarrow> take (length ys) xs = ys"
  using assms by (auto simp: memcmp_correct(1) cstr_iff list_eq_iff_nth_eq)

lemma strstr_loop_correct:
  assumes "cstr m a xs" "cstr m b ys"
  shows "case strstr_loop m a b (int (length xs)) (int (length ys)) of
      Some q \<Rightarrow> \<exists>i\<le>length xs. q = a + int i \<and> take (length ys) (drop i xs) = ys \<and>
        (\<forall>j<i. take (length ys) (drop j xs) \<noteq> ys)
    | None \<Rightarrow> \<forall>j. take (length ys) (drop j xs) \<noteq> ys"
  using assms(1)
proof (induction xs arbitrary: a)
  case Nil
  then show ?case using assms(2)
    by (cases ys) (subst strstr_loop.simps; auto simp: memcmp_correct)+
next
  case (Cons x xs)
  have skip: "take (length ys) (drop j (x # xs)) \<noteq> ys \<longleftrightarrow>
    (j = 0 \<longrightarrow> take (length ys) (x # xs) \<noteq> ys) \<and> (\<forall>k. j = Suc k \<longrightarrow> take (length ys) (drop k xs) \<noteq> ys)" for j
    by (cases j) auto
  show ?case
  proof (cases "length ys \<le> length (x # xs)")
    case True
    note c = memcmp_prefix [OF Cons.prems assms(2) True]
    show ?thesis
    proof (cases "take (length ys) (x # xs) = ys")
      case True
      then show ?thesis using \<open>length ys \<le> _\<close> c by (subst strstr_loop.simps) auto
    next
      case False
      then have e: "strstr_loop m a b (int (length (x # xs))) (int (length ys)) =
          strstr_loop m (a + 1) b (int (length xs)) (int (length ys))"
        using True c by (subst strstr_loop.simps) auto
      have "cstr m (a + 1) xs" using Cons.prems by simp
      note IH = Cons.IH [OF this]
      show ?thesis
      proof (cases "strstr_loop m (a + 1) b (int (length xs)) (int (length ys))")
        case None
        then show ?thesis using IH False unfolding e by (simp add: skip)
      next
        case (Some q)
        then obtain i where i: "i \<le> length xs" "q = a + 1 + int i" "take (length ys) (drop i xs) = ys"
          "\<forall>j<i. take (length ys) (drop j xs) \<noteq> ys" using IH by auto
        have "\<forall>j<Suc i. take (length ys) (drop j (x # xs)) \<noteq> ys" using i(4) False by (auto simp: skip)
        then show ?thesis unfolding e using i Some by (auto intro!: exI [of _ "Suc i"])
      qed
    qed
  next
    case False
    then have "take (length ys) (drop j (x # xs)) \<noteq> ys" for j
      using arg_cong [of "take (length ys) (drop j (x # xs))" ys length] by auto
    then show ?thesis using False by (subst strstr_loop.simps) auto
  qed
qed

lemma takeWhile_less: "\<exists>x\<in>set xs. \<not> P x \<Longrightarrow> length (takeWhile P xs) < length xs"
  by (induction xs) auto

text \<open>
  One step of \<^verbatim>\<open>strsep\<close> on a string that lies apart from the separators: the token up to the first
  separator, and the string behind it; at the last token the pointer becomes null.
\<close>

lemma strsep_correct:
  assumes "cstr m a xs" "cstr m b cs" and apart: "a + int (length xs) < b \<or> b + int (length cs) < a"
  defines "tok \<equiv> takeWhile (\<lambda>x. x \<notin> set cs) xs"
  obtains m' where "strsep m (Some a) b = Some (Some a, if set xs \<inter> set cs = {} then None else Some (a + int (length tok) + 1), m')"
    "cstr m' a tok" "cstr m' b cs"
    "set xs \<inter> set cs \<noteq> {} \<longrightarrow> cstr m' (a + int (length tok) + 1) (drop (Suc (length tok)) xs)"
proof (cases "set xs \<inter> set cs = {}")
  case True
  then have "tok = xs" by (auto simp: tok_def takeWhile_eq_all_conv)
  then show ?thesis using True assms(1,2)
    by (intro that [of m]) (auto simp: strsep_def strpbrk_correct [OF assms(1,2)])
next
  case False
  let ?e = "a + int (length tok)" and ?m = "m(a + int (length tok) := 0)"
  have len: "length tok < length xs" using False unfolding tok_def by (intro takeWhile_less) auto
  have "strsep m (Some a) b = Some (Some a, Some (?e + 1), ?m)"
    using False by (simp add: strsep_def strpbrk_correct [OF assms(1,2)] tok_def)
  moreover have "cstr ?m a tok"
  proof -
    have "tok ! i = xs ! i" if "i < length tok" for i using that by (simp add: tok_def takeWhile_nth)
    then show ?thesis using assms(1) len by (auto simp: cstr_iff)
  qed
  moreover have "cstr ?m b cs" using assms(2) apart len by (subst cstr_cong) auto
  moreover have "cstr ?m (?e + 1) (drop (Suc (length tok)) xs)"
    using cstr_drop [OF assms(1), of "Suc (length tok)"] len by (subst cstr_cong) (auto simp: ac_simps)
  ultimately show ?thesis using False by (intro that [of ?m]) auto
qed

lemma strstr_correct:
  assumes "cstr m a xs" "cstr m b ys"
  shows "strstr m a b = Some None \<and> (\<forall>j. take (length ys) (drop j xs) \<noteq> ys) \<or>
    (\<exists>i\<le>length xs. strstr m a b = Some (Some (a + int i)) \<and> take (length ys) (drop i xs) = ys \<and>
       (\<forall>j<i. take (length ys) (drop j xs) \<noteq> ys))"
proof (cases "ys = []")
  case True
  then have "strstr m a b = Some (Some a)" using strlen_correct [OF assms(2)] by (simp add: strstr_def)
  then show ?thesis using True by (auto intro: exI [of _ 0])
next
  case False
  then have "strstr m a b = Some (strstr_loop m a b (int (length xs)) (int (length ys)))"
    using assms by (simp add: strstr_def strlen_correct)
  then show ?thesis using strstr_loop_correct [OF assms] by (auto split: option.splits)
qed

text \<open>
  \<^verbatim>\<open>strtok\<close> skips the separators before the token too and never gives an empty one; the saved
  pointer is where the next call goes on.
\<close>

lemma strtok_correct:
  assumes "cstr m a xs" "cstr m b cs" and apart: "a + int (length xs) < b \<or> b + int (length cs) < a"
    and s: "s = Some a \<or> s = None \<and> saved = Some a"
  defines "k \<equiv> length (takeWhile (\<lambda>x. x \<in> set cs) xs)"
  defines "rest \<equiv> drop k xs" 
  defines "tok \<equiv> takeWhile (\<lambda>x. x \<notin> set cs) rest"
  shows "rest = [] \<Longrightarrow> strtok m saved s b = Some (None, None, m)"
    and "rest \<noteq> [] \<Longrightarrow> tok \<noteq> [] \<and> (\<exists>m'. strtok m saved s b =
      Some (Some (a + int k), if set rest \<inter> set cs = {} then None else Some (a + int k + int (length tok) + 1), m') \<and>
      cstr m' (a + int k) tok \<and> cstr m' b cs \<and>
      (set rest \<inter> set cs \<noteq> {} \<longrightarrow> cstr m' (a + int k + int (length tok) + 1) (drop (Suc (length tok)) rest)))"
proof -
  have k: "k \<le> length xs" by (simp add: k_def length_takeWhile_le)
  have r: "cstr m (a + int k) rest" using cstr_drop [OF assms(1) k] by (simp add: rest_def)
  have e: "strtok m saved s b = (if rest = [] then Some (None, None, m) else strsep m (Some (a + int k)) b)"
  proof -
    have nz: "m (a + int k + int (length tok)) \<noteq> 0" if "set rest \<inter> set cs \<noteq> {}"
    proof -
      have "length tok < length rest" unfolding tok_def by (rule takeWhile_less) (use that in auto)
      then show ?thesis using r by (simp add: cstr_iff)
    qed
    have c: "(case s of Some a \<Rightarrow> Some a | None \<Rightarrow> saved) = Some a" using s by auto
    have "m (a + int k) = 0 \<longleftrightarrow> rest = []" using r by (cases rest) auto
    moreover have "strpbrk m (a + int k) b = Some (if set rest \<inter> set cs = {} then None else Some (a + int k + int (length tok)))"
      using strpbrk_correct [OF r assms(2)] by (simp add: tok_def)
    ultimately show ?thesis
      using nz strspn_correct [OF assms(1,2)] by (simp add: strtok_def c strsep_def k_def [symmetric] Let_def)
  qed
  then show "rest = [] \<Longrightarrow> strtok m saved s b = Some (None, None, m)" by simp
  assume ne: "rest \<noteq> []"
  have "hd rest \<notin> set cs"
    using ne hd_dropWhile [of "\<lambda>x. x \<in> set cs" xs] by (simp add: rest_def k_def dropWhile_eq_drop)
  then have tok: "tok \<noteq> []" using ne by (cases rest) (auto simp: tok_def)
  have ap: "a + int k + int (length rest) < b \<or> b + int (length cs) < a + int k" using apart k by (auto simp: rest_def)
  obtain m' where "strsep m (Some (a + int k)) b =
      Some (Some (a + int k), if set rest \<inter> set cs = {} then None else Some (a + int k + int (length tok) + 1), m')"
    "cstr m' (a + int k) tok" "cstr m' b cs"
    "set rest \<inter> set cs \<noteq> {} \<longrightarrow> cstr m' (a + int k + int (length tok) + 1) (drop (Suc (length tok)) rest)"
    by (rule strsep_correct [OF r assms(2) ap, folded tok_def])
  then show "tok \<noteq> [] \<and> (\<exists>m'. strtok m saved s b =
      Some (Some (a + int k), if set rest \<inter> set cs = {} then None else Some (a + int k + int (length tok) + 1), m') \<and>
      cstr m' (a + int k) tok \<and> cstr m' b cs \<and>
      (set rest \<inter> set cs \<noteq> {} \<longrightarrow> cstr m' (a + int k + int (length tok) + 1) (drop (Suc (length tok)) rest)))"
    using e ne tok by auto
qed

lemma memchr_correct:
  "case memchr m p c n of
     Some q \<Rightarrow> p \<le> q \<and> q < p + int n \<and> m q = word_of_int c \<and> (\<forall>r. p \<le> r \<longrightarrow> r < q \<longrightarrow> m r \<noteq> word_of_int c)
   | None \<Rightarrow> \<forall>r. p \<le> r \<longrightarrow> r < p + int n \<longrightarrow> m r \<noteq> word_of_int c"
proof (induction n arbitrary: p)
  case (Suc n)
  have first: "p \<le> r \<longleftrightarrow> r = p \<or> p + 1 \<le> r" for r by auto
  show ?case using Suc.IH [of "p + 1"] by (auto simp: first split: option.splits)
qed simp

lemma memscan_correct:
  "p \<le> memscan m p c n" "memscan m p c n \<le> p + int n"
  "memscan m p c n < p + int n \<Longrightarrow> uint (m (memscan m p c n)) = c"
  "p \<le> r \<Longrightarrow> r < memscan m p c n \<Longrightarrow> uint (m r) \<noteq> c"
proof -
  have "p \<le> memscan m p c n \<and> memscan m p c n \<le> p + int n \<and>
    (memscan m p c n < p + int n \<longrightarrow> uint (m (memscan m p c n)) = c) \<and> (\<forall>r. p \<le> r \<longrightarrow> r < memscan m p c n \<longrightarrow> uint (m r) \<noteq> c)"
  proof (induction n arbitrary: p)
    case (Suc n)
    have first: "p \<le> r \<longleftrightarrow> r = p \<or> p + 1 \<le> r" for r by auto
    show ?case using Suc.IH [of "p + 1"] by (auto simp: first)
  qed simp
  then show "p \<le> memscan m p c n" "memscan m p c n \<le> p + int n"
    "memscan m p c n < p + int n \<Longrightarrow> uint (m (memscan m p c n)) = c"
    "p \<le> r \<Longrightarrow> r < memscan m p c n \<Longrightarrow> uint (m r) \<noteq> c" by auto
qed

end
