(* ===== verification/Vsprintf.thy ===== *)
theory Vsprintf
  imports Cstring
begin

text \<open>
  The conversions of lib/vsprintf.c: the \<^verbatim>\<open>simple_strto*\<close> family, \<^verbatim>\<open>number\<close>, \<^verbatim>\<open>vsnprintf\<close> with its
  callers, and \<^verbatim>\<open>vsscanf\<close>. The output buffer is in the byte memory. Format and string arguments are
  read only and do not overlap it: they are lists of bytes, whose end is the NUL. A variable argument
  list is a list of values; taking one that is not there, or of another kind, is the fault
  \<open>WildDeref\<close>.
\<close>

subsection \<open>Reading\<close>

definition peek :: "byte list \<Rightarrow> byte" where
  "peek s = (case s of [] \<Rightarrow> 0 | c # _ \<Rightarrow> c)"

text \<open>The value of a digit in \<^verbatim>\<open>simple_strtoul\<close> and in \<^verbatim>\<open>simple_strtoull\<close>.\<close>

definition digit_value :: "byte \<Rightarrow> int" where
  "digit_value c = (if isdigit c then uint c - 48 else uint (toupper c) - 65 + 10)"

definition digit_value_ll :: "byte \<Rightarrow> int" where
  "digit_value_ll c = (if isdigit c then uint c - 48 else uint (if islower c then toupper c else c) - 65 + 10)"

definition u64 :: "int \<Rightarrow> int" where
  "u64 x = x mod 18446744073709551616"

definition s64 :: "int \<Rightarrow> int" where
  "s64 x = (x + 9223372036854775808) mod 18446744073709551616 - 9223372036854775808"

text \<open>The base that the prefix of the text chooses when the caller gives 0.\<close>

definition guess_base :: "int \<Rightarrow> byte list \<Rightarrow> int \<times> byte list" where
  "guess_base base cp =
     (if base = 0 then
        (if peek cp = 48 then
           (let cp1 = tl cp
            in if peek cp1 = 120 \<and> isxdigit (peek (tl cp1)) then (16, tl cp1) else (8, cp1))
         else (10, cp))
      else (base, cp))"

fun strtoul_loop :: "int \<Rightarrow> byte list \<Rightarrow> int \<Rightarrow> int \<times> byte list" where
  "strtoul_loop base [] result = (result, [])"
| "strtoul_loop base (c # cp) result =
     (if isxdigit c \<and> digit_value c < base then strtoul_loop base cp (u32 (result * base + digit_value c))
      else (result, c # cp))"

definition simple_strtoul :: "byte list \<Rightarrow> int \<Rightarrow> int \<times> byte list" where
  "simple_strtoul cp base = (let (b, cp1) = guess_base base cp in strtoul_loop b cp1 0)"

definition simple_strtol :: "byte list \<Rightarrow> int \<Rightarrow> int \<times> byte list" where
  "simple_strtol cp base =
     (if peek cp = 45 then (let (v, r) = simple_strtoul (tl cp) base in (s32 (- v), r))
      else (let (v, r) = simple_strtoul cp base in (s32 v, r)))"

fun strtoull_loop :: "int \<Rightarrow> byte list \<Rightarrow> int \<Rightarrow> int \<times> byte list" where
  "strtoull_loop base [] result = (result, [])"
| "strtoull_loop base (c # cp) result =
     (if isxdigit c \<and> digit_value_ll c < base then strtoull_loop base cp (u64 (result * base + digit_value_ll c))
      else (result, c # cp))"

definition simple_strtoull :: "byte list \<Rightarrow> int \<Rightarrow> int \<times> byte list" where
  "simple_strtoull cp base = (let (b, cp1) = guess_base base cp in strtoull_loop b cp1 0)"

definition simple_strtoll :: "byte list \<Rightarrow> int \<Rightarrow> int \<times> byte list" where
  "simple_strtoll cp base =
     (if peek cp = 45 then (let (v, r) = simple_strtoull (tl cp) base in (s64 (- v), r))
      else (let (v, r) = simple_strtoull cp base in (s64 v, r)))"

fun skip_atoi_loop :: "byte list \<Rightarrow> int \<Rightarrow> int \<times> byte list" where
  "skip_atoi_loop [] i = (i, [])"
| "skip_atoi_loop (c # s) i = (if isdigit c then skip_atoi_loop s (s32 (i * 10 + uint c - 48)) else (i, c # s))"

definition skip_atoi :: "byte list \<Rightarrow> int \<times> byte list" where
  "skip_atoi s = skip_atoi_loop s 0"

subsection \<open>Writing numbers\<close>

type_synonym out = "bmem \<times> int"

text \<open>\<^verbatim>\<open>if (buf <= end) *buf = c; ++buf;\<close>\<close>

definition emit :: "int \<Rightarrow> byte \<Rightarrow> out \<Rightarrow> out" where
  "emit e c o1 = (case o1 of (m, buf) \<Rightarrow> (if buf \<le> e then m(buf := c) else m, buf + 1))"

text \<open>\<^verbatim>\<open>while (size-- > 0)\<close> with a character put out each time; the size left is returned too.\<close>

function pad :: "int \<Rightarrow> byte \<Rightarrow> int \<Rightarrow> out \<Rightarrow> int \<times> out" where
  "pad e c size1 o1 = (if size1 > 0 then pad e c (size1 - 1) (emit e c o1) else (size1 - 1, o1))"
  by pat_completeness auto
termination
  by (relation "measure (\<lambda>(e, c, n, o1). nat n)") auto

declare pad.simps [simp del]

abbreviation (input) "ZEROPAD \<equiv> 1 :: int"
abbreviation (input) "SIGN \<equiv> 2 :: int"
abbreviation (input) "PLUS \<equiv> 4 :: int"
abbreviation (input) "SPACE \<equiv> 8 :: int"
abbreviation (input) "LEFT \<equiv> 16 :: int"
abbreviation (input) "SPECIAL \<equiv> 32 :: int"
abbreviation (input) "LARGE \<equiv> 64 :: int"

definition small_digits :: "byte list" where
  "small_digits = [48, 49, 50, 51, 52, 53, 54, 55, 56, 57, 97, 98, 99, 100, 101, 102, 103, 104, 105, 106, 107, 108,
     109, 110, 111, 112, 113, 114, 115, 116, 117, 118, 119, 120, 121, 122]"

definition large_digits :: "byte list" where
  "large_digits = [48, 49, 50, 51, 52, 53, 54, 55, 56, 57, 65, 66, 67, 68, 69, 70, 71, 72, 73, 74, 75, 76,
     77, 78, 79, 80, 81, 82, 83, 84, 85, 86, 87, 88, 89, 90]"

text \<open>
  The digits from the least one up, as they are put into \<^verbatim>\<open>tmp\<close>. \<^verbatim>\<open>do_div\<close> divides its argument as
  an unsigned 64-bit number.
\<close>

function digit_loop :: "byte list \<Rightarrow> int \<Rightarrow> int \<Rightarrow> byte list" where
  "digit_loop ds base num =
     (if num \<le> 0 \<or> base < 2 then [] else ds ! nat (num mod base) # digit_loop ds base (num div base))"
  by pat_completeness auto
termination
  by (relation "measure (\<lambda>(ds, b, n). nat n)") (auto simp: int_div_less_self)

declare digit_loop.simps [simp del]

text \<open>\<^verbatim>\<open>i < precision--\<close> and \<^verbatim>\<open>i-- > 0\<close>: leading zeros, then the digits from the highest.\<close>

definition number_sign :: "int \<Rightarrow> int \<Rightarrow> int \<Rightarrow> byte \<times> int \<times> int" where
  "number_sign type1 num size1 =
     (if and type1 SIGN \<noteq> 0 then
        (if num < 0 then (45, s64 (- num), size1 - 1)
         else if and type1 PLUS \<noteq> 0 then (43, num, size1 - 1)
         else if and type1 SPACE \<noteq> 0 then (32, num, size1 - 1)
         else (0, num, size1))
      else (0, num, size1))"

definition number_prefix :: "int \<Rightarrow> byte list \<Rightarrow> int \<Rightarrow> int \<Rightarrow> out \<Rightarrow> out" where
  "number_prefix e ds base type1 o1 =
     (if and type1 SPECIAL \<noteq> 0 then
        (if base = 8 then emit e 48 o1
         else if base = 16 then emit e (ds ! 33) (emit e 48 o1)
         else o1)
      else o1)"

definition number :: "int \<Rightarrow> int \<Rightarrow> int \<Rightarrow> int \<Rightarrow> int \<Rightarrow> int \<Rightarrow> out \<Rightarrow> out" where
  "number e num base size0 precision0 type0 o0 =
     (let ds = (if and type0 LARGE \<noteq> 0 then large_digits else small_digits);
          type1 = (if and type0 LEFT \<noteq> 0 then and type0 (not ZEROPAD) else type0)
      in if base < 2 \<or> base > 36 then (fst o0, 0)
         else
           let c = (if and type1 ZEROPAD \<noteq> 0 then 48 else 32);
               (sign, num1, size1) = number_sign type1 num size0;
               size2 = (if and type1 SPECIAL \<noteq> 0 then (if base = 16 then size1 - 2 else if base = 8 then size1 - 1 else size1)
                        else size1);
               tmp = (if num1 = 0 then [48] else digit_loop ds base (u64 num1));
               i = int (length tmp);
               precision = (if i > precision0 then i else precision0);
               size3 = size2 - precision;
               (size4, o1) = (if and type1 (ZEROPAD + LEFT) = 0 then pad e 32 size3 o0 else (size3, o0));
               o2 = (if sign \<noteq> 0 then emit e sign o1 else o1);
               o3 = number_prefix e ds base type1 o2;
               (size5, o4) = (if and type1 LEFT = 0 then pad e c size4 o3 else (size4, o3));
               (_, o5) = pad e 48 (precision - i) o4;
               o6 = fold (emit e) (rev tmp) o5
           in snd (pad e 32 size5 o6))"

subsection \<open>Formatting\<close>

text \<open>
  An argument is a 32-bit word (\<^verbatim>\<open>int\<close>, \<^verbatim>\<open>long\<close>, \<^verbatim>\<open>size_t\<close> or a pointer), a 64-bit one, or a string,
  \<open>None\<close> when its pointer is null.
\<close>

datatype varg = WordArg int | LongLongArg int | StringArg "byte list option"

fun va_word :: "varg list \<Rightarrow> (int \<times> varg list) kres" where
  "va_word (WordArg w # args) = Inr (w, args)"
| "va_word _ = Inl WildDeref"

fun va_longlong :: "varg list \<Rightarrow> (int \<times> varg list) kres" where
  "va_longlong (LongLongArg w # args) = Inr (w, args)"
| "va_longlong _ = Inl WildDeref"

fun va_string :: "varg list \<Rightarrow> (byte list option \<times> varg list) kres" where
  "va_string (StringArg s # args) = Inr (s, args)"
| "va_string _ = Inl WildDeref"

fun format_flags :: "byte list \<Rightarrow> int \<Rightarrow> int \<times> byte list" where
  "format_flags [] flags = (flags, [])"
| "format_flags (c # fmt) flags =
     (if c = 45 then format_flags fmt (or flags LEFT)
      else if c = 43 then format_flags fmt (or flags PLUS)
      else if c = 32 then format_flags fmt (or flags SPACE)
      else if c = 35 then format_flags fmt (or flags SPECIAL)
      else if c = 48 then format_flags fmt (or flags ZEROPAD)
      else (flags, c # fmt))"

definition field_width :: "byte list \<Rightarrow> int \<Rightarrow> varg list \<Rightarrow> (int \<times> int \<times> byte list \<times> varg list) kres" where
  "field_width fmt flags args =
     (if isdigit (peek fmt) then (let (w, r) = skip_atoi fmt in Inr (w, flags, r, args))
      else if peek fmt = 42 then
        kbind (va_word args) (\<lambda>(w0, args1).
          let w = s32 w0 in if w < 0 then Inr (s32 (- w), or flags LEFT, tl fmt, args1) else Inr (w, flags, tl fmt, args1))
      else Inr (-1, flags, fmt, args))"

definition precision :: "byte list \<Rightarrow> varg list \<Rightarrow> (int \<times> byte list \<times> varg list) kres" where
  "precision fmt args =
     (if peek fmt = 46 then
        let fmt1 = tl fmt
        in kbind (if isdigit (peek fmt1) then (let (p, r) = skip_atoi fmt1 in Inr (p, r, args))
                  else if peek fmt1 = 42 then kbind (va_word args) (\<lambda>(p, args1). Inr (s32 p, tl fmt1, args1))
                  else Inr (-1, fmt1, args)) (\<lambda>(p, fmt2, args2).
           Inr (if p < 0 then 0 else p, fmt2, args2))
      else Inr (-1, fmt, args))"

text \<open>0 stands for no qualifier.\<close>

definition qualifier :: "byte list \<Rightarrow> byte \<times> byte list" where
  "qualifier fmt =
     (let q = peek fmt
      in if q = 104 \<or> q = 108 \<or> q = 76 \<or> q = 90 then
           (if q = 108 \<and> peek (tl fmt) = 108 then (76, tl (tl fmt)) else (q, tl fmt))
         else (0, fmt))"

text \<open>\<^verbatim>\<open>while (--field_width > 0)\<close> and \<^verbatim>\<open>while (len < field_width--)\<close> put out blanks.\<close>

definition format_char :: "int \<Rightarrow> int \<Rightarrow> int \<Rightarrow> byte \<Rightarrow> out \<Rightarrow> out" where
  "format_char e flags w c o0 =
     (let (w1, o1) = (if and flags LEFT = 0 then pad e 32 (w - 1) o0 else (w - 1, o0));
          o2 = emit e c o1
      in snd (pad e 32 w1 o2))"

definition NULL_text :: "byte list" where
  "NULL_text = [60, 78, 85, 76, 76, 62]"

definition format_string :: "int \<Rightarrow> int \<Rightarrow> int \<Rightarrow> int \<Rightarrow> byte list option \<Rightarrow> out \<Rightarrow> out" where
  "format_string e flags w prec sp o0 =
     (let s = (case sp of None \<Rightarrow> NULL_text | Some s \<Rightarrow> s);
          len = min (u32 prec) (int (length s));
          (w1, o1) = (if and flags LEFT = 0 then pad e 32 (w - len) o0 else (w - len, o0));
          o2 = fold (emit e) (take (nat len) s) o1
      in snd (pad e 32 w1 o2))"

text \<open>The value of an integer conversion, as an \<^verbatim>\<open>unsigned long long\<close>.\<close>

definition format_num :: "byte \<Rightarrow> int \<Rightarrow> varg list \<Rightarrow> (int \<times> varg list) kres" where
  "format_num q flags args =
     (if q = 76 then kbind (va_longlong args) (\<lambda>(n, r). Inr (u64 n, r))
      else kbind (va_word args) (\<lambda>(n, r).
        if q = 90 then Inr (u32 n, r)
        else if q = 104 then
          (let h = n mod 65536
           in Inr (if and flags SIGN \<noteq> 0 then u64 (if h \<ge> 32768 then h - 65536 else h) else h, r))
        else Inr (if and flags SIGN \<noteq> 0 then u64 (s32 n) else u32 n, r)))"

record vstate =
  vout :: out
  vargs :: "varg list"
  vstores :: "(int \<times> int) list"

text \<open>The base, the flags and whether the letter is an integer conversion.\<close>

definition int_conversion :: "byte \<Rightarrow> int \<Rightarrow> (int \<times> int) option" where
  "int_conversion c flags =
     (if c = 111 then Some (8, flags)
      else if c = 88 then Some (16, or flags LARGE)
      else if c = 120 then Some (16, flags)
      else if c = 100 \<or> c = 105 then Some (10, or flags SIGN)
      else if c = 117 then Some (10, flags)
      else None)"

definition convert :: "int \<Rightarrow> int \<Rightarrow> int \<Rightarrow> int \<Rightarrow> int \<Rightarrow> byte \<Rightarrow> byte list \<Rightarrow> vstate \<Rightarrow> (byte list \<times> vstate) kres" where
  "convert buf e flags w prec q fmt v =
     (let c = peek fmt; rest = tl fmt in
      if c = 99 then
        kbind (va_word (vargs v)) (\<lambda>(x, r). Inr (rest, v\<lparr>vout := format_char e flags w (word_of_int x) (vout v), vargs := r\<rparr>))
      else if c = 115 then
        kbind (va_string (vargs v)) (\<lambda>(s, r). Inr (rest, v\<lparr>vout := format_string e flags w prec s (vout v), vargs := r\<rparr>))
      else if c = 112 then
        kbind (va_word (vargs v)) (\<lambda>(x, r).
          let (w1, flags1) = (if w = -1 then (8, or flags ZEROPAD) else (w, flags))
          in Inr (rest, v\<lparr>vout := number e (u32 x) 16 w1 prec flags1 (vout v), vargs := r\<rparr>))
      else if c = 110 then
        kbind (va_word (vargs v)) (\<lambda>(ip, r).
          Inr (rest, v\<lparr>vargs := r, vstores := vstores v @ [(ip, snd (vout v) - buf)]\<rparr>))
      else if c = 37 then Inr (rest, v\<lparr>vout := emit e 37 (vout v)\<rparr>)
      else case int_conversion c flags of
             Some (base, flags1) \<Rightarrow>
               kbind (format_num q flags1 (vargs v)) (\<lambda>(num, r).
                 Inr (rest, v\<lparr>vout := number e (s64 num) base w prec flags1 (vout v), vargs := r\<rparr>))
           | None \<Rightarrow>
               let o1 = emit e 37 (vout v)
               in if c \<noteq> 0 then Inr (rest, v\<lparr>vout := emit e c o1\<rparr>) else Inr (fmt, v\<lparr>vout := o1\<rparr>))"

definition format_step :: "int \<Rightarrow> int \<Rightarrow> byte list \<Rightarrow> vstate \<Rightarrow> (byte list \<times> vstate) kres" where
  "format_step buf e fmt v =
     (if peek fmt \<noteq> 37 then Inr (tl fmt, v\<lparr>vout := emit e (peek fmt) (vout v)\<rparr>)
      else let (flags, fmt1) = format_flags (tl fmt) 0
           in kbind (field_width fmt1 flags (vargs v)) (\<lambda>(w, flags1, fmt2, args1).
              kbind (precision fmt2 args1) (\<lambda>(prec, fmt3, args2).
              let (q, fmt4) = qualifier fmt3
              in convert buf e flags1 w prec q fmt4 (v\<lparr>vargs := args2\<rparr>))))"

text \<open>Every step of the loop takes at least one character of the format.\<close>

lemma format_flags_length: "length (snd (format_flags fmt flags)) \<le> length fmt"
  by (induction fmt flags rule: format_flags.induct) auto

lemma skip_atoi_loop_length: "length (snd (skip_atoi_loop s i)) \<le> length s"
  by (induction s i rule: skip_atoi_loop.induct) auto

lemma skip_atoi_length: "skip_atoi s = (i, r) \<Longrightarrow> length r \<le> length s"
  using skip_atoi_loop_length [of s 0] by (simp add: skip_atoi_def)

lemma field_width_length: "field_width fmt flags args = Inr (w, f, r, a) \<Longrightarrow> length r \<le> length fmt"
  by (auto simp: field_width_def Let_def skip_atoi_length split: if_splits prod.splits)

lemma precision_length: "precision fmt args = Inr (p, r, a) \<Longrightarrow> length r \<le> length fmt"
  by (auto simp: precision_def Let_def dest!: skip_atoi_length split: if_splits prod.splits)

lemma qualifier_length: "qualifier fmt = (q, r) \<Longrightarrow> length r \<le> length fmt"
  by (auto simp: qualifier_def Let_def split: if_splits)

lemma convert_length: "convert buf e flags w p q fmt v = Inr (r, v') \<Longrightarrow> length r \<le> length fmt"
  by (auto simp: convert_def Let_def split: if_splits option.splits prod.splits)

lemma format_step_length:
  assumes "format_step buf e fmt v = Inr (r, v')" "peek fmt \<noteq> 0"
  shows "length r < length fmt"
proof -
  obtain c cs where fmt: "fmt = c # cs" using assms(2) by (cases fmt) (auto simp: peek_def)
  show ?thesis
  proof (cases "peek fmt = 37")
    case True
    obtain flags f1 where f1: "format_flags cs 0 = (flags, f1)" by force
    then have "length f1 \<le> length cs" using format_flags_length [of cs 0] by simp
    with True assms(1) show ?thesis
      using fmt f1 by (auto simp: format_step_def Let_def split: prod.splits
        dest!: field_width_length precision_length qualifier_length convert_length)
  qed (use assms fmt in \<open>auto simp: format_step_def\<close>)
qed

function format_loop :: "int \<Rightarrow> int \<Rightarrow> byte list \<Rightarrow> vstate \<Rightarrow> vstate kres" where
  "format_loop buf e fmt v =
     (if peek fmt = 0 then Inr v
      else case format_step buf e fmt v of
             Inl err \<Rightarrow> Inl err
           | Inr (fmt1, v1) \<Rightarrow> format_loop buf e fmt1 v1)"
  by pat_completeness auto
termination
  by (relation "measure (\<lambda>(b, e, fmt, v). length fmt)") (auto dest: format_step_length)

declare format_loop.simps [simp del]

text \<open>The result is the number of characters, the memory, and what \<^verbatim>\<open>%n\<close> stores through pointers.\<close>

definition vsnprintf :: "bmem \<Rightarrow> int \<Rightarrow> int \<Rightarrow> byte list \<Rightarrow> varg list \<Rightarrow> (int \<times> bmem \<times> (int \<times> int) list) kres" where
  "vsnprintf m buf size0 fmt args =
     (let end0 = u32 (buf + size0 - 1);
          (e, size1) = (if end0 < u32 (buf - 1) then (4294967295, 4294967295 - buf + 1) else (end0, size0))
      in kbind (format_loop buf e fmt \<lparr>vout = (m, buf), vargs = args, vstores = []\<rparr>) (\<lambda>v.
           let (m1, str) = vout v;
               m2 = (if str \<le> e then m1(str := 0) else if size1 > 0 then m1(e := 0) else m1)
           in Inr (str - buf, m2, vstores v)))"

definition snprintf :: "bmem \<Rightarrow> int \<Rightarrow> int \<Rightarrow> byte list \<Rightarrow> varg list \<Rightarrow> (int \<times> bmem \<times> (int \<times> int) list) kres" where
  "snprintf m buf size0 fmt args = vsnprintf m buf size0 fmt args"

definition vsprintf :: "bmem \<Rightarrow> int \<Rightarrow> byte list \<Rightarrow> varg list \<Rightarrow> (int \<times> bmem \<times> (int \<times> int) list) kres" where
  "vsprintf m buf fmt args = vsnprintf m buf 4294967295 fmt args"

definition sprintf :: "bmem \<Rightarrow> int \<Rightarrow> byte list \<Rightarrow> varg list \<Rightarrow> (int \<times> bmem \<times> (int \<times> int) list) kres" where
  "sprintf m buf fmt args = vsprintf m buf fmt args"

subsection \<open>Scanning\<close>

text \<open>
  What a conversion stores through the next pointer: the bytes of \<^verbatim>\<open>%c\<close>, the string of \<^verbatim>\<open>%s\<close> (its NUL
  left out), a number of the width of its qualifier, or the count of \<^verbatim>\<open>%n\<close>.
\<close>

datatype sval = SChars "byte list" | SString "byte list" | SNum byte int | SCount int

record sstate =
  snum :: int
  swidth :: int
  sstores :: "sval list"

text \<open>\<^verbatim>\<open>do { *s++ = *str++; } while (field_width-- > 0 && *str)\<close>\<close>

fun scan_chars :: "int \<Rightarrow> byte list \<Rightarrow> byte list \<times> int \<times> byte list" where
  "scan_chars w [] = ([0], w - 1, [])"
| "scan_chars w (c # str) =
     (if w > 0 \<and> peek str \<noteq> 0 then (let (cs, w1, r) = scan_chars (w - 1) str in (c # cs, w1, r))
      else ([c], w - 1, str))"

text \<open>\<^verbatim>\<open>while ( *str && !isspace( *str) && field_width--)\<close>\<close>

fun scan_word :: "int \<Rightarrow> byte list \<Rightarrow> byte list \<times> int \<times> byte list" where
  "scan_word w [] = ([], w, [])"
| "scan_word w (c # str) =
     (if c \<noteq> 0 \<and> \<not> isspace c then
        (if w \<noteq> 0 then (let (cs, w1, r) = scan_word (w - 1) str in (c # cs, w1, r)) else ([], w - 1, c # str))
      else ([], w, c # str))"

definition scan_number :: "byte \<Rightarrow> bool \<Rightarrow> int \<Rightarrow> byte list \<Rightarrow> int \<times> byte list" where
  "scan_number q sign base str =
     (if q = 104 then
        (if sign then (let (v, r) = simple_strtol str base in ((v + 32768) mod 65536 - 32768, r))
         else (let (v, r) = simple_strtoul str base in (v mod 65536, r)))
      else if q = 76 then (if sign then simple_strtoll str base else simple_strtoull str base)
      else if q = 90 then simple_strtoul str base
      else if sign then simple_strtol str base else simple_strtoul str base)"

text \<open>The letters of the integer conversions: base and sign.\<close>

definition scan_conversion :: "byte \<Rightarrow> (int \<times> bool) option" where
  "scan_conversion c =
     (if c = 111 then Some (8, False)
      else if c = 120 \<or> c = 88 then Some (16, False)
      else if c = 100 \<or> c = 105 then Some (10, True)
      else if c = 117 then Some (10, False)
      else None)"

text \<open>The switch on the letter; \<open>None\<close> leaves the loop.\<close>

definition scan_convert :: "nat \<Rightarrow> byte \<Rightarrow> byte \<Rightarrow> byte list \<Rightarrow> sstate \<Rightarrow> sstate \<times> byte list option" where
  "scan_convert tot q c str st =
     (if c = 99 then
        (let w = (if swidth st = -1 then 1 else swidth st); (cs, w1, r) = scan_chars w str
         in (st\<lparr>snum := snum st + 1, swidth := w1, sstores := sstores st @ [SChars cs]\<rparr>, Some r))
      else if c = 115 then
        (let w = (if swidth st = -1 then 2147483647 else swidth st);
             (cs, w1, r) = scan_word w (dropWhile isspace str)
         in (st\<lparr>snum := snum st + 1, swidth := w1, sstores := sstores st @ [SString cs]\<rparr>, Some r))
      else if c = 110 then
        (st\<lparr>sstores := sstores st @ [SCount (int tot - int (length str))]\<rparr>, Some str)
      else if c = 37 then (st, if peek str = 37 then Some (tl str) else None)
      else case scan_conversion c of
             None \<Rightarrow> (st, None)
           | Some (base, sign) \<Rightarrow>
               let str1 = dropWhile isspace str
               in if peek str1 = 0 \<or> \<not> isdigit (peek str1) then (st, None)
                  else let (v, r) = scan_number q sign base str1
                       in (st\<lparr>snum := snum st + 1, sstores := sstores st @ [SNum q v]\<rparr>, Some r))"

definition scan_qualifier :: "byte list \<Rightarrow> byte \<times> byte list" where
  "scan_qualifier fmt =
     (let q = peek fmt in if q = 104 \<or> q = 108 \<or> q = 76 \<or> q = 90 then (q, tl fmt) else (0, fmt))"

text \<open>One pass of the loop, up to the switch.\<close>

definition scan_step :: "nat \<Rightarrow> byte list \<Rightarrow> byte list \<Rightarrow> sstate \<Rightarrow> sstate \<times> (byte list \<times> byte list) option" where
  "scan_step tot fmt0 str0 st =
     (let (fmt, str) = (if isspace (peek fmt0) then (dropWhile isspace fmt0, dropWhile isspace str0) else (fmt0, str0))
      in if peek fmt \<noteq> 37 \<and> peek fmt \<noteq> 0 then
           (st, if peek fmt \<noteq> peek str then None else Some (tl fmt, tl str))
         else if peek fmt = 0 then (st, None)
         else let fmt1 = tl fmt
              in if peek fmt1 = 42 then
                   (st, Some (dropWhile (\<lambda>c. \<not> isspace c \<and> c \<noteq> 0) fmt1, dropWhile (\<lambda>c. \<not> isspace c \<and> c \<noteq> 0) str))
                 else let (w, fmt2) = (if isdigit (peek fmt1) then skip_atoi fmt1 else (swidth st, fmt1));
                          (q, fmt3) = scan_qualifier fmt2;
                          st1 = st\<lparr>swidth := w\<rparr>
                      in if peek fmt3 = 0 \<or> peek str = 0 then (st1, None)
                         else (case scan_convert tot q (peek fmt3) str st1 of
                                 (st2, None) \<Rightarrow> (st2, None)
                               | (st2, Some r) \<Rightarrow> (st2, Some (tl fmt3, r))))"

lemma dropWhile_length: "length (dropWhile P xs) \<le> length xs"
  by (induction xs) auto

lemma scan_step_length:
  assumes "scan_step tot fmt str st = (st', Some (fmt', str'))" "peek fmt \<noteq> 0"
  shows "length fmt' < length fmt"
proof -
  let ?f = "if isspace (peek fmt) then dropWhile isspace fmt else fmt"
  have f: "length ?f \<le> length fmt" by (simp add: dropWhile_length)
  have q: "length (snd (scan_qualifier g)) \<le> length g" for g by (auto simp: scan_qualifier_def Let_def)
  have a: "length (snd (skip_atoi g)) \<le> length g" for g by (cases "skip_atoi g") (auto dest: skip_atoi_length)
  have d: "length (dropWhile P g) \<le> length g" for P :: "byte \<Rightarrow> bool" and g by (rule dropWhile_length)
  obtain w f2 where w: "(if isdigit (peek (tl ?f)) then skip_atoi (tl ?f) else (swidth st, tl ?f)) = (w, f2)" by force
  obtain q f3 where q3: "scan_qualifier f2 = (q, f3)" by force
  have l: "length f2 \<le> length (tl ?f)" "length f3 \<le> length f2"
    using a [of "tl ?f"] q [of f2] w q3 by (auto split: if_splits)
  have "peek ?f \<noteq> 0" using assms(1) by (auto simp: scan_step_def Let_def split: if_splits)
  then have "length (tl ?f) < length ?f" by (cases ?f) (auto simp: peek_def)
  moreover have "fmt' = tl ?f \<or> fmt' = dropWhile (\<lambda>c. \<not> isspace c \<and> c \<noteq> 0) (tl ?f) \<or> fmt' = tl f3"
    using assms(1) w q3 by (auto simp: scan_step_def Let_def split: if_splits prod.splits option.splits)
  ultimately show ?thesis using f l d [of "\<lambda>c. \<not> isspace c \<and> c \<noteq> 0" "tl ?f"] by auto
qed

function scan_loop :: "nat \<Rightarrow> byte list \<Rightarrow> byte list \<Rightarrow> sstate \<Rightarrow> sstate" where
  "scan_loop tot fmt str st =
     (if peek fmt = 0 \<or> peek str = 0 then st
      else case scan_step tot fmt str st of
             (st1, None) \<Rightarrow> st1
           | (st1, Some (fmt1, str1)) \<Rightarrow> scan_loop tot fmt1 str1 st1)"
  by pat_completeness auto
termination
  by (relation "measure (\<lambda>(t, fmt, str, st). length fmt)") (auto dest: scan_step_length [OF sym])

declare scan_loop.simps [simp del]

text \<open>The number of conversions and what they store, in the order of the pointers.\<close>

definition vsscanf :: "byte list \<Rightarrow> byte list \<Rightarrow> int \<times> sval list" where
  "vsscanf buf fmt =
     (let st = scan_loop (length buf) fmt buf \<lparr>snum = 0, swidth = -1, sstores = []\<rparr> in (snum st, sstores st))"

definition sscanf :: "byte list \<Rightarrow> byte list \<Rightarrow> int \<times> sval list" where
  "sscanf buf fmt = vsscanf buf fmt"

section \<open>Properties\<close>

subsection \<open>The output of a format does not depend on the buffer\<close>

definition emits :: "int \<Rightarrow> byte list \<Rightarrow> out \<Rightarrow> out" where
  "emits e xs o1 = fold (emit e) xs o1"

lemma emits_simps [simp]: "emits e [] o1 = o1" "emits e (x # xs) o1 = emits e xs (emit e x o1)"
  by (simp_all add: emits_def)

lemma emits_append: "emits e ys (emits e xs o1) = emits e (xs @ ys) o1"
  by (simp add: emits_def)

text \<open>Writing a text writes the part of it that is inside the buffer.\<close>

lemma emits_snd: "snd (emits e xs (m, s)) = s + int (length xs)"
  by (induction xs arbitrary: m s) (auto simp: emit_def)

lemma emits_fst:
  "fst (emits e xs (m, s)) q = (if s \<le> q \<and> q \<le> e \<and> q < s + int (length xs) then xs ! nat (q - s) else m q)"
proof (induction xs arbitrary: m s)
  case (Cons x xs)
  show ?case
  proof (cases "q = s")
    case False
    have "nat (q - s) = Suc (nat (q - (s + 1)))" if "s \<le> q" using that False by simp
    then show ?thesis using Cons [of "if s \<le> e then m(s := x) else m" "s + 1"] False by (auto simp: emit_def)
  qed (use Cons [of "if s \<le> e then m(s := x) else m" "s + 1"] in \<open>auto simp: emit_def\<close>)
qed auto

lemma pad_emits: "pad e c n o1 = (if n > 0 then -1 else n - 1, emits e (replicate (nat n) c) o1)"
proof (induction e c n o1 rule: pad.induct)
  case (1 e c n o1)
  show ?case
  proof (cases "n > 0")
    case True
    then have "nat n = Suc (nat (n - 1))" by simp
    then show ?thesis using 1 True by (subst pad.simps) auto
  qed (subst pad.simps, simp)
qed

text \<open>The text of a number.\<close>

definition number_text :: "int \<Rightarrow> int \<Rightarrow> int \<Rightarrow> int \<Rightarrow> int \<Rightarrow> byte list" where
  "number_text num base size0 precision0 type0 =
     (let ds = (if and type0 LARGE \<noteq> 0 then large_digits else small_digits);
          type1 = (if and type0 LEFT \<noteq> 0 then and type0 (not ZEROPAD) else type0);
          (sign, num1, size1) = number_sign type1 num size0;
          size2 = (if and type1 SPECIAL \<noteq> 0 then (if base = 16 then size1 - 2 else if base = 8 then size1 - 1 else size1)
                   else size1);
          tmp = (if num1 = 0 then [48] else digit_loop ds base (u64 num1));
          pr = max (int (length tmp)) precision0;
          fill = nat (size2 - pr);
          body = (if sign \<noteq> 0 then [sign] else []) @
            (if and type1 SPECIAL \<noteq> 0 then (if base = 8 then [48] else if base = 16 then [48, ds ! 33] else []) else []);
          digits = replicate (nat (pr - int (length tmp))) 48 @ rev tmp
      in if and type1 LEFT \<noteq> 0 then body @ digits @ replicate fill 32
         else if and type1 ZEROPAD \<noteq> 0 then body @ replicate fill 48 @ digits
         else replicate fill 32 @ body @ digits)"

lemma number_emits:
  assumes "2 \<le> base" "base \<le> 36"
  shows "number e num base size0 precision0 type0 o0 = emits e (number_text num base size0 precision0 type0) o0"
proof -
  define ds where "ds = (if and type0 LARGE \<noteq> 0 then large_digits else small_digits)"
  define type1 where "type1 = (if and type0 LEFT \<noteq> 0 then and type0 (not ZEROPAD) else type0)"
  obtain sign num1 size1 where sg: "number_sign type1 num size0 = (sign, num1, size1)" by (cases "number_sign type1 num size0")
  define tmp where "tmp = (if num1 = 0 then [48] else digit_loop ds base (u64 num1))"
  have "and type1 17 = or (and type1 1) (and type1 16)" by (simp flip: bit.conj_disj_distrib)
  then have left: "and type1 (ZEROPAD + LEFT) = 0 \<longleftrightarrow> and type1 ZEROPAD = 0 \<and> and type1 LEFT = 0"
    by (simp add: or_eq_0_iff)
  have zl: "and type1 LEFT \<noteq> 0 \<Longrightarrow> and type1 ZEROPAD = 0"
    by (auto simp: type1_def and.assoc split: if_splits)
  define pre where "pre = (if and type1 SPECIAL \<noteq> 0 then (if base = 8 then [48] else if base = 16 then [48, ds ! 33] else []) else [])"
  define st where "st = (if sign \<noteq> 0 then [sign] else [])"
  define size2 where "size2 = (if and type1 SPECIAL \<noteq> 0 then (if base = 16 then size1 - 2 else if base = 8 then size1 - 1 else size1) else size1)"
  define pr where "pr = (if int (length tmp) > precision0 then int (length tmp) else precision0)"
  have P: "number_prefix e ds base type1 o1 = emits e pre o1" for o1 by (simp add: number_prefix_def pre_def)
  have S: "(if sign \<noteq> 0 then emit e sign o1 else o1) = emits e st o1" for o1 by (simp add: st_def)
  have L: "number e num base size0 precision0 type0 o0 =
    (let (size4, o1) = (if and type1 (ZEROPAD + LEFT) = 0 then pad e 32 (size2 - pr) o0 else (size2 - pr, o0));
         (size5, o4) = (if and type1 LEFT = 0 then pad e (if and type1 ZEROPAD \<noteq> 0 then 48 else 32) size4 (emits e pre (emits e st o1))
                        else (size4, emits e pre (emits e st o1)));
         (_, o5) = pad e 48 (pr - int (length tmp)) o4
     in snd (pad e 32 size5 (emits e (rev tmp) o5)))"
    using assms unfolding number_def Let_def ds_def [symmetric] type1_def [symmetric] sg prod.case tmp_def [symmetric]
      size2_def [symmetric] pr_def [symmetric] P S emits_def [symmetric] by simp
  have R: "number_text num base size0 precision0 type0 =
    (if and type1 LEFT \<noteq> 0 then (st @ pre) @ (replicate (nat (pr - int (length tmp))) 48 @ rev tmp) @ replicate (nat (size2 - pr)) 32
     else if and type1 ZEROPAD \<noteq> 0 then (st @ pre) @ replicate (nat (size2 - pr)) 48 @ (replicate (nat (pr - int (length tmp))) 48 @ rev tmp)
     else replicate (nat (size2 - pr)) 32 @ (st @ pre) @ (replicate (nat (pr - int (length tmp))) 48 @ rev tmp))"
  proof -
    have "max (int (length tmp)) precision0 = pr" by (simp add: pr_def max_def)
    then show ?thesis
      unfolding number_text_def Let_def ds_def [symmetric] type1_def [symmetric] sg prod.case tmp_def [symmetric]
        size2_def [symmetric] st_def [symmetric] pre_def [symmetric] by simp
  qed
  show ?thesis using zl unfolding L R left
    by (simp add: pad_emits emits_append del: emits_simps)
qed

text \<open>The texts of the other conversions.\<close>

definition char_text :: "int \<Rightarrow> int \<Rightarrow> byte \<Rightarrow> byte list" where
  "char_text flags w c =
     (if and flags LEFT = 0 then replicate (nat (w - 1)) 32 @ [c] else c # replicate (nat (w - 1)) 32)"

lemma format_char_emits: "format_char e flags w c o0 = emits e (char_text flags w c) o0"
  by (cases "and flags LEFT = 0") (simp_all add: format_char_def char_text_def pad_emits emits_def)

definition string_text :: "int \<Rightarrow> int \<Rightarrow> int \<Rightarrow> byte list option \<Rightarrow> byte list" where
  "string_text flags w prec sp =
     (let s = (case sp of None \<Rightarrow> NULL_text | Some s \<Rightarrow> s);
          t = take (nat (u32 prec)) s;
          fill = replicate (nat (w - int (length t))) 32
      in if and flags LEFT = 0 then fill @ t else t @ fill)"

lemma format_string_emits: "format_string e flags w prec sp o0 = emits e (string_text flags w prec sp) o0"
proof -
  define s where "s = (case sp of None \<Rightarrow> NULL_text | Some s \<Rightarrow> s)"
  define len where "len = min (u32 prec) (int (length s))"
  have t: "take (nat (u32 prec)) s = take (nat len) s" "int (min (length s) (nat (u32 prec))) = len"
    by (auto simp: len_def min_def le_nat_iff)
  show ?thesis
    by (cases "and flags LEFT = 0")
      (simp_all add: format_string_def string_text_def pad_emits emits_def s_def [symmetric] len_def [symmetric] Let_def t)
qed

text \<open>
  A run that puts out a text which does not depend on the buffer: it faults always or never, and the
  stores of \<^verbatim>\<open>%n\<close> are positions in the text.
\<close>

definition shift :: "int \<Rightarrow> (int \<times> int) list \<Rightarrow> (int \<times> int) list" where
  "shift d = map (\<lambda>(p, k). (p, d + k))"

definition uniform :: "(int \<Rightarrow> int \<Rightarrow> vstate \<Rightarrow> ('r \<times> vstate) kres) \<Rightarrow> varg list \<Rightarrow> bool" where
  "uniform f args \<longleftrightarrow>
     (\<exists>err. \<forall>buf e o1 st. f buf e \<lparr>vout = o1, vargs = args, vstores = st\<rparr> = Inl err) \<or>
     (\<exists>text r args' sts. (\<forall>buf e o1 st. f buf e \<lparr>vout = o1, vargs = args, vstores = st\<rparr> =
        Inr (r, \<lparr>vout = emits e text o1, vargs = args', vstores = st @ shift (snd o1 - buf) sts\<rparr>)))"

lemma uniformI:
  assumes "\<And>buf e o1 st. f buf e \<lparr>vout = o1, vargs = args, vstores = st\<rparr> =
    Inr (r, \<lparr>vout = emits e text o1, vargs = args', vstores = st @ shift (snd o1 - buf) sts\<rparr>)"
  shows "uniform f args"
  using assms unfolding uniform_def by blast

lemma uniform_fault:
  assumes "\<And>buf e o1 st. f buf e \<lparr>vout = o1, vargs = args, vstores = st\<rparr> = Inl err"
  shows "uniform f args"
  using assms unfolding uniform_def by blast

lemma shift_Nil [simp]: "shift d [] = []"
  by (simp add: shift_def)

lemma int_conversion_base: "int_conversion c flags = Some (base, f) \<Longrightarrow> 2 \<le> base \<and> base \<le> 36"
  by (auto simp: int_conversion_def split: if_splits)

text \<open>A conversion that takes an argument, or none.\<close>

lemma uniform_take:
  assumes "\<And>buf e o1 st. f buf e \<lparr>vout = o1, vargs = args, vstores = st\<rparr> =
    kbind (va args) (\<lambda>(x, r). Inr (rest, \<lparr>vout = emits e (t x) o1, vargs = r, vstores = st @ shift (snd o1 - buf) (sts x)\<rparr>))"
  shows "uniform f args"
proof (cases "va args")
  case (Inl err)
  then show ?thesis by (intro uniform_fault [of _ _ err]) (simp add: assms)
next
  case (Inr xr)
  then show ?thesis
    by (intro uniformI [of _ _ rest "t (fst xr)" "snd xr" "sts (fst xr)"]) (simp_all add: assms split_beta)
qed

lemma convert_uniform: "uniform (\<lambda>buf e. convert buf e flags w prec q fmt) args"
proof -
  consider "peek fmt = 99" | "peek fmt = 115" | "peek fmt = 112" | "peek fmt = 110" | "peek fmt = 37"
    | "peek fmt \<notin> {99, 115, 112, 110, 37}" by blast
  then show ?thesis
  proof cases
    case 1
    then show ?thesis
      by (intro uniform_take [of _ _ va_word "tl fmt" "\<lambda>x. char_text flags w (word_of_int x)" "\<lambda>_. []"])
        (simp add: convert_def format_char_emits)
  next
    case 2
    then show ?thesis
      by (intro uniform_take [of _ _ va_string "tl fmt" "string_text flags w prec" "\<lambda>_. []"])
        (simp add: convert_def format_string_emits)
  next
    case 3
    then show ?thesis
      by (intro uniform_take [of _ _ va_word "tl fmt" "\<lambda>x. number_text (u32 x) 16 (if w = -1 then 8 else w) prec
            (if w = -1 then or flags ZEROPAD else flags)" "\<lambda>_. []"])
        (simp add: convert_def number_emits)
  next
    case 4
    then show ?thesis
      by (intro uniform_take [of _ _ va_word "tl fmt" "\<lambda>_. []" "\<lambda>x. [(x, 0)]"]) (simp add: convert_def shift_def)
  next
    case 5
    then show ?thesis by (intro uniformI [of _ _ "tl fmt" "[37]" args "[]"]) (simp_all add: convert_def)
  next
    case 6
    show ?thesis
    proof (cases "int_conversion (peek fmt) flags")
      case None
      then show ?thesis using 6
        by (intro uniformI [of _ _ "if peek fmt = 0 then fmt else tl fmt" "if peek fmt = 0 then [37] else [37, peek fmt]" args "[]"])
          (simp_all add: convert_def Let_def)
    next
      case (Some bf)
      obtain base fl where bf: "bf = (base, fl)" by (cases bf)
      then show ?thesis using 6 Some int_conversion_base [of "peek fmt" flags base fl]
        by (intro uniform_take [of _ _ "format_num q fl" "tl fmt" "\<lambda>n. number_text (s64 n) base w prec fl" "\<lambda>_. []"])
          (simp add: convert_def number_emits)
    qed
  qed
qed

lemma format_step_uniform: "uniform (\<lambda>buf e. format_step buf e fmt) args"
proof (cases "peek fmt = 37")
  case False
  then show ?thesis
    by (intro uniformI [of _ _ "tl fmt" "[peek fmt]" args "[]"]) (simp_all add: format_step_def)
next
  case True
  obtain flags fmt1 where f: "format_flags (tl fmt) 0 = (flags, fmt1)" by force
  show ?thesis
  proof (cases "field_width fmt1 flags args")
    case (Inl err)
    then show ?thesis using True f by (intro uniform_fault [of _ _ err]) (simp add: format_step_def)
  next
    case (Inr w4)
    obtain w flags1 fmt2 args1 where w: "w4 = (w, flags1, fmt2, args1)" by (cases w4)
    show ?thesis
    proof (cases "precision fmt2 args1")
      case (Inl err)
      then show ?thesis using True f w \<open>field_width fmt1 flags args = Inr w4\<close>
        by (intro uniform_fault [of _ _ err]) (simp add: format_step_def)
    next
      case (Inr p3)
      obtain prec fmt3 args2 where p: "p3 = (prec, fmt3, args2)" by (cases p3)
      obtain q fmt4 where q: "qualifier fmt3 = (q, fmt4)" by force
      have "format_step buf e fmt \<lparr>vout = o1, vargs = args, vstores = st\<rparr> =
        convert buf e flags1 w prec q fmt4 \<lparr>vout = o1, vargs = args2, vstores = st\<rparr>" for buf e o1 st
        using True f w p q Inr \<open>field_width fmt1 flags args = Inr w4\<close> by (simp add: format_step_def)
      then show ?thesis using convert_uniform [of flags1 w prec q fmt4 args2] by (simp add: uniform_def)
    qed
  qed
qed

lemma format_loop_uniform:
  "(\<exists>err. \<forall>buf e o1 st. format_loop buf e fmt \<lparr>vout = o1, vargs = args, vstores = st\<rparr> = Inl err) \<or>
   (\<exists>text args' sts. \<forall>buf e o1 st. format_loop buf e fmt \<lparr>vout = o1, vargs = args, vstores = st\<rparr> =
      Inr \<lparr>vout = emits e text o1, vargs = args', vstores = st @ shift (snd o1 - buf) sts\<rparr>)"
proof (induction fmt arbitrary: args rule: measure_induct_rule [of length])
  case (less fmt)
  show ?case
  proof (cases "peek fmt = 0")
    case True
    have "format_loop buf e fmt \<lparr>vout = o1, vargs = args, vstores = st\<rparr> =
      Inr \<lparr>vout = emits e [] o1, vargs = args, vstores = st @ shift (snd o1 - buf) []\<rparr>" for buf e o1 st
      using True by (subst format_loop.simps) simp
    then show ?thesis by blast
  next
    case False
    from format_step_uniform [of fmt args, unfolded uniform_def]
    show ?thesis
    proof (elim disjE exE)
      fix err assume bad: "\<forall>buf e o1 st. format_step buf e fmt \<lparr>vout = o1, vargs = args, vstores = st\<rparr> = Inl err"
      have "format_loop buf e fmt \<lparr>vout = o1, vargs = args, vstores = st\<rparr> = Inl err" for buf e o1 st
        using False by (subst format_loop.simps) (simp add: bad [rule_format])
      then show ?thesis by blast
    next
      fix tx r args1 sts
      assume step: "\<forall>buf e o1 st. format_step buf e fmt \<lparr>vout = o1, vargs = args, vstores = st\<rparr> =
        Inr (r, \<lparr>vout = emits e tx o1, vargs = args1, vstores = st @ shift (snd o1 - buf) sts\<rparr>)"
      then have len: "length r < length fmt" using format_step_length False by blast
      have go: "format_loop buf e fmt \<lparr>vout = o1, vargs = args, vstores = st\<rparr> =
        format_loop buf e r \<lparr>vout = emits e tx o1, vargs = args1, vstores = st @ shift (snd o1 - buf) sts\<rparr>" for buf e o1 st
        using False by (subst format_loop.simps) (simp add: step [rule_format])
      from less [OF len, of args1] show ?thesis
      proof (elim disjE exE)
        fix err assume "\<forall>buf e o1 st. format_loop buf e r \<lparr>vout = o1, vargs = args1, vstores = st\<rparr> = Inl err"
        then show ?thesis unfolding go by blast
      next
        fix text2 args2 sts2
        assume rest: "\<forall>buf e o1 st. format_loop buf e r \<lparr>vout = o1, vargs = args1, vstores = st\<rparr> =
          Inr \<lparr>vout = emits e text2 o1, vargs = args2, vstores = st @ shift (snd o1 - buf) sts2\<rparr>"
        have "snd (emits e tx o1) = snd o1 + int (length tx)" for e o1 using emits_snd [of e tx "fst o1" "snd o1"] by simp
        then have "shift (snd o1 - buf) sts @ shift (snd (emits e tx o1) - buf) sts2 =
          shift (snd o1 - buf) (sts @ shift (int (length tx)) sts2)" for e o1 buf
          by (simp add: shift_def case_prod_unfold algebra_simps)
        then have "format_loop buf e fmt \<lparr>vout = o1, vargs = args, vstores = st\<rparr> =
          Inr \<lparr>vout = emits e (tx @ text2) o1, vargs = args2,
               vstores = st @ shift (snd o1 - buf) (sts @ shift (int (length tx)) sts2)\<rparr>" for buf e o1 st
          unfolding go rest [rule_format] by (simp add: emits_append)
        then show ?thesis by blast
      qed
    qed
  qed
qed

text \<open>Memory with a list of bytes written at an address.\<close>

definition put_bytes :: "bmem \<Rightarrow> int \<Rightarrow> byte list \<Rightarrow> bmem" where
  "put_bytes m a xs = (\<lambda>q. if a \<le> q \<and> q < a + int (length xs) then xs ! nat (q - a) else m q)"

text \<open>
  What \<^verbatim>\<open>vsnprintf\<close> promises: every format and argument list has one text, whatever the buffer. A
  buffer of \<open>size0\<close> bytes gets as much of it as fits with a NUL behind, no other byte changes, and the
  length of the whole text is returned.
\<close>

lemma vsnprintf_correct:
  "(\<exists>err. \<forall>m buf size0. vsnprintf m buf size0 fmt args = Inl err) \<or>
   (\<exists>text sts. \<forall>m buf size0. 0 < buf \<longrightarrow> 0 \<le> size0 \<longrightarrow> buf + size0 \<le> 4294967296 \<longrightarrow>
      vsnprintf m buf size0 fmt args =
        Inr (int (length text), put_bytes m buf (if size0 = 0 then [] else take (nat (size0 - 1)) text @ [0]), sts))"
  using format_loop_uniform [of fmt args]
proof (elim disjE exE)
  fix err assume "\<forall>buf e o1 st. format_loop buf e fmt \<lparr>vout = o1, vargs = args, vstores = st\<rparr> = Inl err"
  then have "vsnprintf m buf size0 fmt args = Inl err" for m buf size0 by (simp add: vsnprintf_def Let_def split_beta)
  then show ?thesis by blast
next
  fix tx args' sts
  assume run: "\<forall>buf e o1 st. format_loop buf e fmt \<lparr>vout = o1, vargs = args, vstores = st\<rparr> =
      Inr \<lparr>vout = emits e tx o1, vargs = args', vstores = st @ shift (snd o1 - buf) sts\<rparr>"
  have "vsnprintf m buf size0 fmt args =
      Inr (int (length tx), put_bytes m buf (if size0 = 0 then [] else take (nat (size0 - 1)) tx @ [0]), shift 0 sts)"
    if b: "0 < buf" "0 \<le> size0" "buf + size0 \<le> 4294967296" for m buf size0
  proof -
    define e where "e = buf + size0 - 1"
    have e: "u32 (buf + size0 - 1) = e" "u32 (buf - 1) = buf - 1" using b by (auto simp: e_def u32_def)
    obtain m1 where m1: "emits e tx (m, buf) = (m1, buf + int (length tx))"
      using emits_snd [of e tx m buf] by (cases "emits e tx (m, buf)") simp
    have q: "m1 q = (if buf \<le> q \<and> q \<le> e \<and> q < buf + int (length tx) then tx ! nat (q - buf) else m q)" for q
      using emits_fst [of e tx m buf q] m1 by simp
    have "(if buf + int (length tx) \<le> e then m1(buf + int (length tx) := 0) else if size0 > 0 then m1(e := 0) else m1) =
      put_bytes m buf (if size0 = 0 then [] else take (nat (size0 - 1)) tx @ [0])"
    proof (cases "size0 = 0 \<or> buf + int (length tx) \<le> e")
      case True
      then have "take (nat (size0 - 1)) tx = tx" if "size0 \<noteq> 0" using that by (simp add: e_def)
      then show ?thesis using True b(2) by (auto simp: put_bytes_def q fun_eq_iff nth_append e_def)
    next
      case False
      let ?t = "take (nat (size0 - 1)) tx"
      have n: "size0 - 1 = e - buf" by (simp add: e_def)
      have t: "length ?t = nat (e - buf)" "buf \<le> e" using False b by (auto simp: e_def)
      have "(m1(e := 0)) q = put_bytes m buf (?t @ [0]) q" for q
        using t False unfolding n by (cases "q = e") (auto simp: put_bytes_def q nth_append)
      then show ?thesis using False b(2) by (simp add: fun_eq_iff)
    qed
    note fin = this
    have "\<not> e < buf - 1" using b by (simp add: e_def)
    then have "vsnprintf m buf size0 fmt args = Inr (int (length tx),
        if buf + int (length tx) \<le> e then m1(buf + int (length tx) := 0) else if size0 > 0 then m1(e := 0) else m1, shift 0 sts)"
      unfolding vsnprintf_def Let_def e by (simp add: run [rule_format] m1)
    then show ?thesis unfolding fin .
  qed
  then show ?thesis by blast
qed

subsection \<open>Reading what was written\<close>

text \<open>The digits of a 64-bit number always fit in \<^verbatim>\<open>tmp\<close>, which has room for 66.\<close>

lemma digit_loop_length:
  assumes "num < base ^ k" "2 \<le> base"
  shows "length (digit_loop ds base num) \<le> k"
  using assms(1)
proof (induction k arbitrary: num)
  case 0
  then show ?case by (subst digit_loop.simps) simp
next
  case (Suc k)
  have "num div base < base ^ k"
  proof (rule ccontr)
    assume "\<not> num div base < base ^ k"
    then have "base ^ k * base \<le> num div base * base" using assms(2) by (intro mult_right_mono) auto
    also have "\<dots> \<le> num" using assms(2) by (simp add: minus_mod_eq_div_mult [symmetric])
    finally show False using Suc.prems by (simp add: ac_simps)
  qed
  then show ?case using Suc.IH [of "num div base"] by (subst digit_loop.simps) simp
qed

lemma number_digits_fit:
  assumes "2 \<le> base"
  shows "length (digit_loop ds base (u64 num)) \<le> 64"
proof -
  have "u64 num < 2 ^ 64" by (simp add: u64_def)
  also have "\<dots> \<le> base ^ 64" using assms by (intro power_mono) auto
  finally show ?thesis by (rule digit_loop_length) (rule assms)
qed

lemma hex_digits:
  assumes "i < 16" "ds = small_digits \<or> ds = large_digits"
  shows "isxdigit (ds ! i)" "digit_value (ds ! i) = int i"
proof -
  have "\<forall>i \<in> set [0..<16]. isxdigit (small_digits ! i) \<and> isxdigit (large_digits ! i) \<and>
      digit_value (small_digits ! i) = int i \<and> digit_value (large_digits ! i) = int i" by code_simp
  then show "isxdigit (ds ! i)" "digit_value (ds ! i) = int i" using assms by auto
qed

lemma strtoul_digits:
  assumes base: "2 \<le> base" "base \<le> 16" and ds: "ds = small_digits \<or> ds = large_digits"
    and n: "0 \<le> n" "n < 4294967296"
  shows "strtoul_loop base (rev (digit_loop ds base n) @ rest) 0 = strtoul_loop base rest n"
  using n
proof (induction "nat n" arbitrary: n rest rule: less_induct)
  case less
  show ?case
  proof (cases "n = 0")
    case True
    then show ?thesis by (subst digit_loop.simps) simp
  next
    case False
    let ?d = "ds ! nat (n mod base)"
    have "n div base < n" using less.prems False base by (intro int_div_less_self) auto
    then have lt: "nat (n div base) < nat n" "0 \<le> n div base" "n div base \<le> n"
      using less.prems False base by (auto simp: pos_imp_zdiv_nonneg_iff)
    have "n mod base < 16" using base pos_mod_bound [of base n] by linarith
    then have i: "nat (n mod base) < 16" "0 \<le> n mod base" "n mod base < base" using base by auto
    have "digit_loop ds base n = ?d # digit_loop ds base (n div base)"
      using False less.prems base by (subst digit_loop.simps) simp
    then have "strtoul_loop base (rev (digit_loop ds base n) @ rest) 0 = strtoul_loop base (?d # rest) (n div base)"
      using less.hyps [of "n div base" "?d # rest"] lt less.prems by simp
    also have "\<dots> = strtoul_loop base rest n"
      using hex_digits [OF i(1) ds] i(2,3) less.prems by (simp add: u32_id)
    finally show ?thesis .
  qed
qed

text \<open>A number printed in a base up to 16 and read back in that base is the number again.\<close>

lemma number_text_plain:
  assumes "0 \<le> n" "n < 9223372036854775808" "2 \<le> base"
  shows "number_text n base (-1) (-1) 0 = (if n = 0 then [48] else rev (digit_loop small_digits base n))"
proof -
  have "digit_loop small_digits base (u64 n) = digit_loop small_digits base n" using assms by (simp add: u64_def)
  then show ?thesis by (simp add: number_text_def number_sign_def Let_def)
qed

lemma strtoul_number:
  assumes "0 \<le> n" "n < 4294967296" "2 \<le> base" "base \<le> 16" "\<not> isxdigit (peek rest)"
  shows "simple_strtoul (number_text n base (-1) (-1) 0 @ rest) base = (n, rest)"
proof -
  have stop: "strtoul_loop base rest n = (n, rest)" using assms(5) by (cases rest) (auto simp: peek_def)
  have b: "guess_base base cp = (base, cp)" for cp using assms(3) by (simp add: guess_base_def)
  show ?thesis
  proof (cases "n = 0")
    case True
    have "isxdigit 48" "digit_value 48 = 0" by code_simp+
    then show ?thesis using True stop assms by (simp add: simple_strtoul_def b number_text_plain u32_def)
  next
    case False
    then show ?thesis using strtoul_digits [OF assms(3,4), of small_digits n rest] assms stop
      by (simp add: simple_strtoul_def b number_text_plain)
  qed
qed

lemma digit_loop_set:
  assumes "2 \<le> base" "base \<le> int (length ds)"
  shows "set (digit_loop ds base n) \<subseteq> set ds"
proof (induction "nat n" arbitrary: n rule: less_induct)
  case less
  show ?case
  proof (cases "n \<le> 0")
    case False
    then have "n div base < n" using assms by (intro int_div_less_self) auto
    moreover have "n mod base < int (length ds)" using assms pos_mod_bound [of base n] by linarith
    then have "nat (n mod base) < length ds" using assms by (simp add: nat_less_iff)
    ultimately show ?thesis using less [of "n div base"] False assms by (subst digit_loop.simps) auto
  qed (subst digit_loop.simps, simp)
qed

lemma digit_loop_Nil: "2 \<le> base \<Longrightarrow> 0 < n \<Longrightarrow> digit_loop ds base n \<noteq> []"
  by (subst digit_loop.simps) simp

text \<open>The same with a sign.\<close>

lemma strtol_number:
  assumes "- 2147483648 \<le> n" "n < 2147483648" "\<not> isxdigit (peek rest)"
  shows "simple_strtol (number_text n 10 (-1) (-1) SIGN @ rest) 10 = (n, rest)"
proof (cases "n < 0")
  case True
  have s: "s64 (- n) = - n" using assms(1) True by (simp add: s64_def)
  then have "number_text n 10 (-1) (-1) SIGN = 45 # number_text (- n) 10 (-1) (-1) 0"
    using True by (simp add: number_text_def number_sign_def Let_def)
  then show ?thesis using strtoul_number [of "- n" 10 rest] assms True
    by (simp add: simple_strtol_def peek_def s32_id)
next
  case False
  then have e: "number_text n 10 (-1) (-1) SIGN = number_text n 10 (-1) (-1) 0"
    by (simp add: number_text_def number_sign_def Let_def)
  let ?t = "number_text n 10 (-1) (-1) 0"
  have t: "?t = (if n = 0 then [48] else rev (digit_loop small_digits 10 n))" using False assms by (intro number_text_plain) auto
  have "set ?t \<subseteq> set small_digits" "?t \<noteq> []"
    using digit_loop_set [of 10 small_digits n] digit_loop_Nil [of 10 n small_digits] False by (auto simp: t small_digits_def)
  then have "peek (?t @ rest) \<in> set small_digits" by (cases ?t) (auto simp: peek_def)
  then have "peek (?t @ rest) \<noteq> 45" by (auto simp: small_digits_def)
  then show ?thesis using strtoul_number [of n 10 rest] assms False by (simp add: e simple_strtol_def s32_id)
qed

subsection \<open>What the scanner does with its format\<close>

text \<open>\<^verbatim>\<open>%c\<close> without a width stores two characters.\<close>

lemma scan_char_two:
  assumes "a \<noteq> 0" "b \<noteq> 0"
  shows "vsscanf (a # b # cs) [37, 99] = (1, [SChars [a, b]])"
proof -
  have c: "\<not> isspace 37" "\<not> isdigit 99" by code_simp+
  have "scan_step n [37, 99] (a # b # cs) \<lparr>snum = 0, swidth = -1, sstores = []\<rparr> =
    (\<lparr>snum = 1, swidth = -1, sstores = [SChars [a, b]]\<rparr>, Some ([], cs))" for n
    using assms c by (simp add: scan_step_def scan_convert_def scan_qualifier_def peek_def Let_def)
  then show ?thesis using assms by (simp add: vsscanf_def scan_loop.simps peek_def Let_def)
qed

text \<open>A width is kept for the next conversion.\<close>

lemma scan_width_kept: "vsscanf [97, 98, 32, 119, 120, 121, 122] [37, 51, 115, 32, 37, 115] = (2, [SString [97, 98], SString [119]])"
  by code_simp

text \<open>\<^verbatim>\<open>%d\<close> never reads a negative number, whatever follows the sign.\<close>

lemma scan_negative: "vsscanf (45 # cs) [37, 100] = (0, [])"
proof -
  have c: "\<not> isspace 37" "\<not> isdigit 100" "\<not> isspace 45" "\<not> isdigit 45" by code_simp+
  then show ?thesis
    by (simp add: vsscanf_def scan_loop.simps scan_step_def scan_convert_def scan_conversion_def scan_qualifier_def peek_def Let_def)
qed

end
