(* ===== verification/String_Props.thy ===== *)
theory String_Props
  imports Vsprintf
begin

text \<open>
  What the string routines of lib/string.c and the formatting routines of lib/vsprintf.c promise.
\<close>

section \<open>Strings\<close>

text \<open>A memory that holds the strings \<^verbatim>\<open>abcb\<close> at 10 and \<^verbatim>\<open>cb\<close> at 20.\<close>

definition two_strings :: bmem where
  "two_strings = (\<lambda>_. 0)(10 := 97, 11 := 98, 12 := 99, 13 := 98, 20 := 99, 21 := 98)"

lemma two_strings: "cstr two_strings 10 [97, 98, 99, 98]" "cstr two_strings 20 [99, 98]"
  by (simp_all add: two_strings_def)

text \<open>
  C37. \<^verbatim>\<open>memmove\<close> gives the destination the bytes that the source had, however the two overlap, and changes
  no other byte.
\<close>

theorem memmove_copies_overlapping:
  "memmove m dest src n = (dest, \<lambda>q. if dest \<le> q \<and> q < dest + int n then m (src + (q - dest)) else m q)"
  by (rule memmove_correct)

text \<open>
  C38. \<^verbatim>\<open>strstr\<close> returns, with the first place where the second string occurs in the first, or with a null
  pointer when there is none.
\<close>

theorem strstr_finds_first_occurrence:
  assumes "cstr m a xs" "cstr m b ys"
  shows "strstr m a b = Some None \<and> (\<forall>j. take (length ys) (drop j xs) \<noteq> ys) \<or>
    (\<exists>i\<le>length xs. strstr m a b = Some (Some (a + int i)) \<and> take (length ys) (drop i xs) = ys \<and>
       (\<forall>j<i. take (length ys) (drop j xs) \<noteq> ys))"
  using assms by (rule strstr_correct)

theorem strstr_finds_first_occurrence_witness: "strstr two_strings 10 20 = Some (Some 12)"
proof -
  let ?t = "\<lambda>j. take 2 (drop j [97, 98, 99, 98 :: byte])"
  have only: "?t j = [99, 98] \<longleftrightarrow> j = 2" for j
    by (auto simp: take_Cons' drop_Cons' split: if_splits)
  from strstr_finds_first_occurrence [OF two_strings] show ?thesis
    by (auto simp: numeral_2_eq_2 [symmetric] only simp del: take_drop)
qed

text \<open>
  C39. \<^verbatim>\<open>strtok\<close> skips the separators in front, gives the longest piece without a separator as a string of its own,
  and remembers the rest behind it for the next call; it gives a null pointer when only separators are left.
\<close>

theorem strtok_splits_off_token:
  fixes xs cs a
  assumes "cstr m a xs" "cstr m b cs" "a + int (length xs) < b \<or> b + int (length cs) < a"
    and "s = Some a \<or> s = None \<and> saved = Some a"
  shows "let k = length (takeWhile (\<lambda>x. x \<in> set cs) xs); rest = drop k xs;
             tok = takeWhile (\<lambda>x. x \<notin> set cs) rest
    in if rest = [] then strtok m saved s b = Some (None, None, m)
       else tok \<noteq> [] \<and> (\<exists>m'. strtok m saved s b = Some (Some (a + int k),
             if set rest \<inter> set cs = {} then None else Some (a + int k + int (length tok) + 1), m') \<and>
           cstr m' (a + int k) tok \<and> cstr m' b cs \<and>
           (set rest \<inter> set cs \<noteq> {} \<longrightarrow>
              cstr m' (a + int k + int (length tok) + 1) (drop (Suc (length tok)) rest)))"
  using strtok_correct [OF assms] by (simp only: Let_def if_bool_eq_conj) blast

theorem strtok_splits_off_token_witness:
  "\<exists>m'. strtok two_strings None (Some 10) 20 = Some (Some 10, Some 12, m') \<and> cstr m' 10 [97] \<and>
    cstr m' 12 [99, 98]"
  using strtok_splits_off_token [OF two_strings, of "Some 10" None] by (simp add: Let_def) blast

section \<open>Formatting\<close>




text \<open>
  C25. What \<^verbatim>\<open>number\<close> prints of an unsigned 32-bit number, in a base from 2 to 16 and without padding,
  \<^verbatim>\<open>simple_strtoul\<close> reads back as that number, leaving what follows.
\<close>

theorem print_and_parse_round_trip:
  assumes "0 \<le> n" "n < 4294967296" "2 \<le> base" "base \<le> 16"
  shows "\<exists>tx. (\<forall>e o1. number e n base (-1) (-1) 0 o1 = emits e tx o1) \<and>
    (\<forall>rest. \<not> isxdigit (peek rest) \<longrightarrow> simple_strtoul (tx @ rest) base = (n, rest))"
  using number_emits [of base _ n "-1" "-1" 0] strtoul_number [OF assms] assms by auto

theorem print_and_parse_round_trip_witness:
  "\<exists>tx. (\<forall>o1. number 5000 48879 16 (-1) (-1) 0 o1 = emits 5000 tx o1) \<and> simple_strtoul (tx @ [33]) 16 = (48879, [33])"
proof -
  have "\<not> isxdigit (peek [33])" by code_simp
  then show ?thesis using print_and_parse_round_trip [of 48879 16] by auto
qed

text \<open>
  C40. \<^verbatim>\<open>sscanf\<close> with \<^verbatim>\<open>%c\<close> stores two characters where the input has two, one byte behind the object the
  caller passes.
\<close>

theorem sscanf_char_stores_two:
  assumes "a \<noteq> 0" "b \<noteq> 0"
  shows "vsscanf (a # b # cs) [37, 99] = (1, [SChars [a, b]])"
  using assms by (rule scan_char_two)

theorem sscanf_char_stores_two_witness: "vsscanf [97, 98, 99] [37, 99] = (1, [SChars [97, 98]])"
  using sscanf_char_stores_two [of 97 98 "[99]"] by simp

end
