(* ===== verification/Spec2Isabelle.thy ===== *)
theory Spec2Isabelle
  imports Process_Props Memory_Props Scheduler_Props String_Props
begin

text \<open>
  Verification of the process-policy extension of the Linux 2.4.18-14custom kernel under
  \<^verbatim>\<open>src/linux-2.4.18-14custom\<close>.
\<close>

section \<open>A sample kernel\<close>

text \<open>
  Process 1 has its policy on at level 0 and a log of capacity two in the two allocated objects
  of the small machine; process 2 has no policy.
\<close>

definition sample_task :: "int \<Rightarrow> int \<Rightarrow> ptr \<Rightarrow> task" where
  "sample_task p on log = \<lparr>pid = p, state = 0, policy_on = on, policy_level = (if on = 1 then 0 else 2), logArray = log,
     prio = 120, static_prio = 120, sleep_avg = 0, sleep_timestamp = 0, sched_policy = 0, rt_priority = 0,
     time_slice = 10, first_time_slice = 0, need_resched = 0, run_array = None, sigpending = 0, uid = 0, euid = 0\<rparr>"

definition sample_kernel :: "log_array \<Rightarrow> log_buf \<Rightarrow> kmem_state kernel" where
  "sample_kernel la buf = \<lparr>tasks = [1 \<mapsto> sample_task 1 1 (Ptr 3221225536), 2 \<mapsto> sample_task 2 0 NULL],
     kobjs = [3221225536 \<mapsto> LogStruct la, 3221225568 \<mapsto> LogBuf buf], kmem = small_mem, jiffies = 1000\<rparr>"

definition sample_record :: forbidden_activity_info where
  "sample_record = \<lparr>syscall_req_level = 2, proc_level = 0, time = 7\<rparr>"

definition half_log :: log_array where
  "half_log = \<lparr>indexWrite = 1, indexRead = 0, lsize = 2, full = 0, larray = Ptr 3221225568\<rparr>"

definition full_log :: log_array where
  "full_log = \<lparr>indexWrite = 0, indexRead = 0, lsize = 2, full = 1, larray = Ptr 3221225568\<rparr>"

text \<open>One process logs into the two objects, the others have no policy.\<close>

lemma one_logger_ok:
  fixes s :: "(kmem_state, 'z) kernel_scheme"
  assumes "log_inv la buf" "larray la = Ptr 3221225568" "lsize la * 12 < 4294967296"
    and s: "kobjs s = [3221225536 \<mapsto> LogStruct la, 3221225568 \<mapsto> LogBuf buf]" "kmem s = small_mem"
    and t: "tasks s 1 = Some t" "policy_on t = 1" "policy_level t = 0" "logArray t = Ptr 3221225536"
    and others: "\<And>q u. tasks s q = Some u \<Longrightarrow> q \<noteq> 1 \<Longrightarrow> policy_on u = 0 \<and> policy_level u = 2"
  shows "kernel_ok live kmem_inv s"
proof -
  have at: "log_objs_at s p = (if p = 1 then {3221225536, 3221225568} else {})" for p
    using assms(2) s(1) t others [of p] by (auto simp: log_objs_at_def log_objs_def split: option.split)
  have "task_ok s u" if "tasks s p = Some u" for p u
    using that assms(1-3) s(1) t others [of p u] by (cases "p = 1") (auto simp: task_ok_def well_logged_def)
  moreover have "dom (kobjs s) = (\<Union>p. log_objs_at s p)" by (auto simp: at) (auto simp: s(1) split: if_splits)
  ultimately have "policy_inv s" unfolding policy_inv_def by (simp add: at)
  moreover have "mem_ok live kmem_inv s"
    using small_kmem_inv small_live s by (auto simp: mem_ok_def split: if_splits)
  ultimately show ?thesis by (simp add: kernel_ok_def)
qed

lemma sample_ok:
  assumes "log_inv la buf" "larray la = Ptr 3221225568" "lsize la * 12 < 4294967296"
  shows "kernel_ok live kmem_inv (sample_kernel la buf)"
  by (rule one_logger_ok [OF assms, where t = "sample_task 1 1 (Ptr 3221225536)"])
    (simp_all add: sample_kernel_def, auto simp: sample_task_def split: if_splits)

lemma sample_view:
  assumes "larray la = Ptr 3221225568"
  shows "view (sample_kernel la buf) = [1 \<mapsto> Some \<lparr>pv_level = 0, pv_capacity = lsize la,
      pv_log = map the (log_list la buf), pv_exact = log_exact la\<rparr>, 2 \<mapsto> None]"
  using assms by (auto simp: view_def sample_kernel_def sample_task_def view_task_def kmem_defs)

lemma sample_logs:
  "log_inv half_log [Some r, None]" "log_inv full_log [Some r, Some q]"
  "log_list half_log [Some r, None] = [Some r]" "log_list full_log [Some r, Some q] = [Some r, Some q]"
  by (simp_all add: log_inv_def log_list_def log_count_def half_log_def full_log_def upt_rec numeral_2_eq_2)

lemmas sample_defs = half_log_def full_log_def log_exact_def

section \<open>Properties\<close>

text \<open>
  C5. While the log has room, a forbidden call appends its record to the log and keeps
  the ring buffer well formed.
\<close>

theorem log_write_appends:
  assumes "log_inv la buf" and "log_count la < lsize la"
  shows "\<exists>la' buf'. log_write rec la buf = Inr (la', buf') \<and> log_inv la' buf' \<and>
           log_list la' buf' = log_list la buf @ [Some rec]"
proof -
  have "full la \<noteq> 1" using assms(2) by (auto simp: log_count_def)
  moreover obtain la' buf' where "log_write rec la buf = Inr (la', buf')"
    using log_write_eq [OF assms(1)] by blast
  ultimately show ?thesis
    using log_list_write_room [OF assms(1)] log_inv_write [OF assms(1)] by blast
qed

theorem log_write_appends_witness:
  "\<exists>la' buf'. log_write sample_record half_log [Some sample_record, None] = Inr (la', buf') \<and>
    log_inv la' buf' \<and> log_list la' buf' = [Some sample_record, Some sample_record]"
  using log_write_appends [OF sample_logs(1), of sample_record sample_record] sample_logs(3)
  by (simp add: log_count_def half_log_def)

text \<open>
  C1. From every state that admissible calls lead to, every admissible call returns without a
  fault, with the result and the change to the processes' policies that it promises.
\<close>

theorem policy_calls_keep_promises:
  assumes "reachable kmalloc kfree s0 s" "kernel_ok live kmem_inv s0" "all_exact (view s0)"
    and "admissible c (view s)"
  shows "\<exists>r s'. exec_call kmalloc kfree c s = Inr (r, s') \<and> reachable kmalloc kfree s0 s' \<and>
    spec_call c (s32 (jiffies s)) (view s) r (view s')"
  using assms by (rule slab.reachable_progress)

theorem policy_calls_keep_promises_witness:
  "\<exists>r s'. exec_call kmalloc kfree (Fork 1 7) (sample_kernel half_log [Some sample_record, None]) = Inr (r, s') \<and>
    r = Returned (- EINVAL) \<and> pv_log (the (the (view s' 1))) =
      [sample_record, \<lparr>syscall_req_level = 2, proc_level = 0, time = 1000\<rparr>]"
proof -
  let ?s = "sample_kernel half_log [Some sample_record, None]"
  have v: "view ?s = [1 \<mapsto> Some \<lparr>pv_level = 0, pv_capacity = 2, pv_log = [sample_record], pv_exact = True\<rparr>, 2 \<mapsto> None]"
    by (subst sample_view) (simp_all add: sample_logs, simp_all add: sample_defs)
  have "\<exists>r s'. exec_call kmalloc kfree (Fork 1 7) ?s = Inr (r, s') \<and> reachable kmalloc kfree ?s s' \<and>
    spec_call (Fork 1 7) (s32 (jiffies ?s)) (view ?s) r (view s')"
    by (rule policy_calls_keep_promises)
      (use v sample_ok [OF sample_logs(1)] in \<open>auto intro: reachable.start simp: all_exact_def admissible_def
         room_def half_log_def split: if_splits\<close>)
  then show ?thesis
    by (auto simp: v spec_call_def spec_check_def) (auto simp: sample_kernel_def s32_def)
qed

text \<open>
  C2. Whatever sequence of admissible calls and clock ticks leads to a state, the state has the
  invariant of the whole kernel: every log is a well-formed ring that exactly one process owns, no
  log object is leaked or shared, and the allocator underneath is consistent.
\<close>

theorem reachable_keeps_invariant:
  assumes "reachable kmalloc kfree s0 s" and "kernel_ok live kmem_inv s0" "all_exact (view s0)"
  shows "kernel_ok live kmem_inv s \<and> all_exact (view s)"
  using assms by (rule slab.reachable_inv)

lemma sample_half:
  "kernel_ok live kmem_inv (sample_kernel half_log [Some sample_record, None])"
  "view (sample_kernel half_log [Some sample_record, None]) =
     [1 \<mapsto> Some \<lparr>pv_level = 0, pv_capacity = 2, pv_log = [sample_record], pv_exact = True\<rparr>, 2 \<mapsto> None]"
  "all_exact (view (sample_kernel half_log [Some sample_record, None]))"
proof -
  show v: "view (sample_kernel half_log [Some sample_record, None]) =
     [1 \<mapsto> Some \<lparr>pv_level = 0, pv_capacity = 2, pv_log = [sample_record], pv_exact = True\<rparr>, 2 \<mapsto> None]"
    by (subst sample_view) (simp_all add: sample_logs, simp_all add: sample_defs)
  show "kernel_ok live kmem_inv (sample_kernel half_log [Some sample_record, None])"
    by (rule sample_ok [OF sample_logs(1)]) (simp_all add: half_log_def)
  show "all_exact (view (sample_kernel half_log [Some sample_record, None]))"
    by (auto simp: v all_exact_def split: if_splits)
qed

lemma sample_full:
  "kernel_ok live kmem_inv (sample_kernel full_log [Some sample_record, Some sample_record])"
  "view (sample_kernel full_log [Some sample_record, Some sample_record]) =
     [1 \<mapsto> Some \<lparr>pv_level = 0, pv_capacity = 2, pv_log = [sample_record, sample_record], pv_exact = True\<rparr>, 2 \<mapsto> None]"
proof -
  show "view (sample_kernel full_log [Some sample_record, Some sample_record]) =
     [1 \<mapsto> Some \<lparr>pv_level = 0, pv_capacity = 2, pv_log = [sample_record, sample_record], pv_exact = True\<rparr>, 2 \<mapsto> None]"
    by (subst sample_view) (simp_all add: sample_logs, simp_all add: sample_defs)
  show "kernel_ok live kmem_inv (sample_kernel full_log [Some sample_record, Some sample_record])"
    by (rule sample_ok [OF sample_logs(2)]) (simp_all add: full_log_def)
qed

theorem reachable_keeps_invariant_witness:
  "kernel_ok live kmem_inv ((sample_kernel half_log [Some sample_record, None])\<lparr>jiffies := 1001\<rparr>)"
  using reachable_keeps_invariant [OF reachable.tick [OF reachable.start] sample_half(1,3), of 1001] by simp

text \<open>
  C7. \<^verbatim>\<open>sys_enable_policy\<close> refines its contract when the byte count of the log does not wrap:
  a missing process, a wrong password, a policy already on and a negative size are refused without
  an effect, a failed allocation leaves nothing behind, and success gives the process level 2 and
  an empty log of the size asked for.
\<close>

theorem enable_policy_refines:
  assumes "kernel_ok live kmem_inv s" and "sz * 12 < 4294967296"
  shows "\<exists>r s'. sys_enable_policy kmalloc kfree pd sz password s = Inr (r, s') \<and>
    kernel_ok live kmem_inv s' \<and> spec_enable pd sz password (view s) r (view s')"
  using assms by (rule slab.enable_correct)

theorem enable_policy_refines_witness:
  "\<exists>r s'. sys_enable_policy kmalloc kfree 2 5 234123 (sample_kernel half_log [Some sample_record, None]) = Inr (r, s') \<and>
    kernel_ok live kmem_inv s' \<and>
    (r = - ENOMEM \<and> view s' 2 = Some None \<or>
     r = 0 \<and> view s' 2 = Some (Some \<lparr>pv_level = 2, pv_capacity = 5, pv_log = [], pv_exact = True\<rparr>))"
  using enable_policy_refines [OF sample_half(1), of 5 2 234123]
  by (auto simp: spec_enable_def sample_half(2))

text \<open>
  C8. \<^verbatim>\<open>sys_disable_policy\<close> refines its contract: the right password takes the policy of a process
  off and frees its log; every other request is refused without an effect.
\<close>

theorem disable_policy_refines:
  assumes "kernel_ok live kmem_inv s"
  shows "\<exists>s'. sys_disable_policy kfree pd password s = Inr (fst (spec_disable pd password (view s)), s') \<and>
    kernel_ok live kmem_inv s' \<and> view s' = snd (spec_disable pd password (view s))"
  using assms by (rule slab.disable_correct)

theorem disable_policy_refines_witness:
  "\<exists>s'. sys_disable_policy kfree 1 234123 (sample_kernel half_log [Some sample_record, None]) = Inr (0, s') \<and>
    kernel_ok live kmem_inv s' \<and> view s' 1 = Some None"
  using disable_policy_refines [OF sample_half(1), of 1 234123]
  by (auto simp: spec_disable_def sample_half(2))

text \<open>
  C9. \<^verbatim>\<open>sys_set_process_capabilities\<close> refines its contract: it sets a level from 0 to 2 of a process
  whose policy is on, and refuses everything else without an effect.
\<close>

theorem set_capabilities_refines:
  assumes "kernel_ok live kmem_inv s"
  shows "\<exists>s'. sys_set_process_capabilities pd lvl password s =
      Inr (fst (spec_set_capabilities pd lvl password (view s)), s') \<and>
    kernel_ok live kmem_inv s' \<and> view s' = snd (spec_set_capabilities pd lvl password (view s))"
  using assms by (rule slab.capabilities_correct)

theorem set_capabilities_refines_witness:
  "\<exists>s'. sys_set_process_capabilities 1 1 234123 (sample_kernel half_log [Some sample_record, None]) = Inr (0, s') \<and>
    pv_level (the (the (view s' 1))) = 1"
  using set_capabilities_refines [OF sample_half(1), of 1 1 234123]
  by (auto simp: spec_set_capabilities_def sample_half(2))



text \<open>
  C10. The check in \<^verbatim>\<open>do_fork\<close>, \<^verbatim>\<open>sys_wait4\<close> and \<^verbatim>\<open>sys_sched_yield\<close> refines its contract while the log has
  room: a process whose level is below the one required is refused with one record appended to its
  log, and every other process passes with nothing changed.
\<close>

theorem policy_check_refines:
  assumes "kernel_ok live kmem_inv s" and "tasks s cur = Some t"
    and "\<And>pv. view s cur = Some (Some pv) \<Longrightarrow> pv_level pv < req \<Longrightarrow>
                 int (length (pv_log pv)) < pv_capacity pv"
  shows "\<exists>s'. policy_check req cur s = Inr (fst (spec_check req cur (s32 (jiffies s)) (view s)), s') \<and>
    kernel_ok live kmem_inv s' \<and> view s' = snd (spec_check req cur (s32 (jiffies s)) (view s))"
  using assms by (rule slab.check_correct)

theorem policy_check_refines_witness:
  "\<exists>s'. policy_check 2 1 (sample_kernel half_log [Some sample_record, None]) = Inr (Some (- EINVAL), s') \<and>
    pv_log (the (the (view s' 1))) = [sample_record, \<lparr>syscall_req_level = 2, proc_level = 0, time = 1000\<rparr>]"
proof -
  let ?s = "sample_kernel half_log [Some sample_record, None]"
  have "tasks ?s 1 = Some (sample_task 1 1 (Ptr 3221225536))" "jiffies ?s = 1000" by (simp_all add: sample_kernel_def)
  from policy_check_refines [OF sample_half(1) this(1), of 2] this show ?thesis
    by (auto simp: spec_check_def sample_half(2) s32_def)
qed







text \<open>
  C33. Reading no records from a full log that was never overrun empties it: all its records are
  lost, though none is handed out.
\<close>

theorem get_none_empties_full:
  assumes "kernel_ok live kmem_inv s" and "view s pd = Some (Some pv)" "pv_exact pv"
    and "int (length (pv_log pv)) = pv_capacity pv" "pv_capacity pv \<noteq> 0"
    and "sys_get_process_log kmalloc kfree 0 pd 0 s = Inr (0, out, s')"
  shows "out = [] \<and> kernel_ok live kmem_inv s' \<and> view s' = (view s)(pd \<mapsto> Some (pv\<lparr>pv_log := []\<rparr>))"
  using assms by (rule slab.get_none_from_full)

lemma sample_get_none:
  "\<exists>s'. sys_get_process_log kmalloc kfree 0 1 0 (sample_kernel full_log [Some sample_record, Some sample_record]) = Inr (0, [], s')"
  using small_kmalloc(1) [of 0]
  by (simp add: sys_get_process_log_def sample_kernel_def task_by_pid_def sample_task_def kmem_defs
      log_can_read_def full_log_def buf_bytes_def u32_def copy_to_user_def)

theorem get_none_empties_full_witness:
  "\<exists>s'. sys_get_process_log kmalloc kfree 0 1 0 (sample_kernel full_log [Some sample_record, Some sample_record]) = Inr (0, [], s') \<and>
    pv_log (the (the (view s' 1))) = []"
proof -
  obtain s' where s': "sys_get_process_log kmalloc kfree 0 1 0 (sample_kernel full_log [Some sample_record, Some sample_record]) = Inr (0, [], s')"
    using sample_get_none by blast
  have v: "view (sample_kernel full_log [Some sample_record, Some sample_record]) 1 =
    Some (Some \<lparr>pv_level = 0, pv_capacity = 2, pv_log = [sample_record, sample_record], pv_exact = True\<rparr>)"
    by (simp add: sample_full(2))
  show ?thesis using get_none_empties_full [OF sample_full(1) v _ _ _ s'] s' by simp
qed




section \<open>The policy in the scheduler\<close>

text \<open>The check touches the log only.\<close>

lemma kstore_frame:
  fixes s :: "('m, 'z) sched_scheme"
  assumes "kstore q ob s = Inr s'"
  shows "sched_task s' = sched_task s \<and> rq s' = rq s"
  using assms by (auto simp: kstore_def sched_task_def fun_eq_iff split: ptr.splits option.splits)

lemma policy_check_frame:
  fixes s :: "('m, 'z) sched_scheme"
  assumes "policy_check req cur s = Inr (r, s')"
  shows "sched_task s' = sched_task s" "rq s' = rq s"
  using assms by (auto simp: policy_check_def split: option.splits if_splits dest!: kstore_frame)

text \<open>
  C3. \<^verbatim>\<open>sys_sched_yield\<close> of a process whose level is too low returns an error, records the attempt in its log
  and leaves the run queue and every task as they were; of every other process it returns 0 with the best
  waiting task on the processor.
\<close>

theorem yield_respects_policy:
  assumes "sched_inv s" "kernel_ok live kmem_inv s" "curr (rq s) \<noteq> 0" "sched_task s (curr (rq s)) = Some t"
    and "\<And>pv. view s (curr (rq s)) = Some (Some pv) \<Longrightarrow> pv_level pv < 1 \<Longrightarrow> int (length (pv_log pv)) < pv_capacity pv"
  shows "\<exists>r s'. sys_sched_yield False s = Inr (r, s') \<and> sched_inv s' \<and>
    (if policy_on t = 1 \<and> policy_level t < 1
     then r = - EINVAL \<and> rq s' = rq s \<and> sched_task s' = sched_task s \<and> kernel_ok live kmem_inv s' \<and>
       view s' = snd (spec_check 1 (curr (rq s)) (s32 (jiffies s)) (view s))
     else r = 0 \<and> best (sched_task s') (rq s') (curr (rq s')))"
proof -
  let ?p = "curr (rq s)"
  have t: "tasks s ?p = Some t" using assms(3,4) by (simp add: sched_task_def)
  show ?thesis
  proof (cases "policy_on t = 1 \<and> policy_level t < 1")
    case False
    then have "policy_on t \<noteq> 1 \<or> 1 \<le> policy_level t" by auto
    with assms(1,3,4) obtain s' where "sys_sched_yield False s = Inr (0, s')" "sched_inv s'" "chosen s'"
      by (rule sys_sched_yield_correct)
    then show ?thesis using False by (auto simp: chosen_def)
  next
    case True
    obtain s' where s': "policy_check 1 ?p s = Inr (fst (spec_check 1 ?p (s32 (jiffies s)) (view s)), s')"
      "kernel_ok live kmem_inv s'" "view s' = snd (spec_check 1 ?p (s32 (jiffies s)) (view s))"
      using slab.check_correct [OF assms(2) t assms(5)] by blast
    have "\<exists>e s1. policy_check 1 ?p s = Inr (Some (- EINVAL), s1)"
      using s'(1) t True by (auto simp: policy_check_def task_by_pid_def)
    then have "sys_sched_yield False s = Inr (- EINVAL, s')"
      using s'(1) by (auto simp: sys_sched_yield_def sys_sched_yield_check_def)
    then show ?thesis using policy_check_frame [OF s'(1)] s'(2,3) True assms(1) by simp
  qed
qed

theorem yield_respects_policy_witness:
  "let obs = [3221225536 \<mapsto> LogStruct half_log, 3221225568 \<mapsto> LogBuf [Some sample_record, None]];
       s = three_sched 1 (Ptr 3221225536) obs small_mem
   in \<exists>s'. sys_sched_yield False s = Inr (- EINVAL, s') \<and> rq s' = rq s \<and>
     pv_log (the (the (view s' 1))) = [sample_record, \<lparr>syscall_req_level = 1, proc_level = 0, time = 1000\<rparr>]"
proof -
  define s where "s = three_sched 1 (Ptr 3221225536)
    [3221225536 \<mapsto> LogStruct half_log, 3221225568 \<mapsto> LogBuf [Some sample_record, None]] small_mem"
  let ?t = "three_task 1 0 120 (Some Arr0) 1 (Ptr 3221225536)"
  have t: "tasks s 1 = Some ?t" "sched_task s (curr (rq s)) = Some ?t" "curr (rq s) = 1" "jiffies s = 1000"
    unfolding s_def three_tasks by (simp_all add: three_sched_def)
  have ok: "kernel_ok live kmem_inv s"
    by (rule one_logger_ok [OF sample_logs(1), where t = ?t])
      (auto simp: s_def three_sched_def three_task_def half_log_def split: if_splits)
  have "log_list half_log [Some sample_record, None] = [Some sample_record]" by (rule sample_logs(3))
  then have v: "view s 1 = Some (Some \<lparr>pv_level = 0, pv_capacity = 2, pv_log = [sample_record], pv_exact = True\<rparr>)"
    by (simp add: view_def s_def three_sched_def three_task_def view_task_def kmem_defs) (simp add: sample_defs)
  have "\<exists>r s'. sys_sched_yield False s = Inr (r, s') \<and> sched_inv s' \<and>
    (if policy_on ?t = 1 \<and> policy_level ?t < 1
     then r = - EINVAL \<and> rq s' = rq s \<and> sched_task s' = sched_task s \<and> kernel_ok live kmem_inv s' \<and>
       view s' = snd (spec_check 1 (curr (rq s)) (s32 (jiffies s)) (view s))
     else r = 0 \<and> best (sched_task s') (rq s') (curr (rq s')))"
    by (rule yield_respects_policy) (use ok t v three_inv in \<open>auto simp: s_def\<close>)
  then have "\<exists>s'. sys_sched_yield False s = Inr (- EINVAL, s') \<and> rq s' = rq s \<and>
     pv_log (the (the (view s' 1))) = [sample_record, \<lparr>syscall_req_level = 1, proc_level = 0, time = 1000\<rparr>]"
    using v t(3,4) by (auto simp: three_task_def spec_check_def s32_def)
  then show ?thesis by (simp add: s_def Let_def)
qed

section \<open>Calls from a program\<close>



text \<open>
  C35. With size 0 the function does not ask the kernel: it reports success for a process without a policy and
  for no process at all, which the system call refuses.
\<close>

theorem user_get_none_hides_refusal:
  assumes "0 \<le> pd" "view s pd = None \<or> view s pd = Some None" "kernel_ok live kmem_inv s"
  shows "get_process_log (sys_get_process_log kmalloc kfree left) pd 0 errno s = Inr ((0, errno), [], s) \<and>
    (\<exists>r. r < 0 \<and> sys_get_process_log kmalloc kfree left pd 0 s = Inr (r, [], s))"
proof -
  have "\<exists>r. r < 0 \<and> sys_get_process_log kmalloc kfree left pd 0 s = Inr (r, [], s)"
  proof (cases "tasks s pd")
    case (Some t)
    then have "view_task s t = None" "task_ok s t"
      using assms(2,3) by (auto simp: view_def kernel_ok_def policy_inv_def)
    then have "policy_on t = 0"
      by (auto simp: view_task_def task_ok_def well_logged_def kmem_defs split: if_splits sum.splits)
    then show ?thesis using Some by (simp add: sys_get_process_log_def task_by_pid_def)
  qed (simp add: sys_get_process_log_def task_by_pid_def)
  then show ?thesis using user_get_none [OF assms(1)] by simp
qed

theorem user_get_none_hides_refusal_witness:
  "\<exists>r. r < 0 \<and> sys_get_process_log kmalloc kfree 0 2 0 (sample_kernel half_log [Some sample_record, None]) =
     Inr (r, [], sample_kernel half_log [Some sample_record, None])"
  using user_get_none_hides_refusal [OF _ _ sample_half(1), of 2 0 0] by (simp add: sample_half(2))

end
